(* ===== verification/Prelude.thy ===== *)
theory Prelude
  imports Main "HOL-Library.Word" "HOL-Library.Multiset"
begin

text \<open>
  Shared vocabulary of the development: the machine types of the C sources, the named
  collections the component proofs draw on, and generic facts on lists, association
  lists, multisets and words that several components need.
\<close>

unbundle bit_operations_syntax

subsection \<open>Types\<close>

text \<open>
  An \<open>sds\<close> string is a byte sequence with an explicit length; HOL's \<^typ>\<open>char\<close> is a byte.
\<close>

type_synonym sds = string
type_synonym u64 = "64 word"

subsection \<open>Named collections\<close>

text \<open>
  \<open>frame\<close> collects the facts that say which parts of a state an operation leaves alone,
  \<open>inv_intros\<close> the preservation facts of the components' invariants, and \<open>refines\<close> the
  equations \<open>abs (f x) = g (abs x)\<close> of the refinement proofs.
\<close>

named_theorems frame \<open>parts of the state an operation does not change\<close>
named_theorems inv_intros \<open>operations preserve the invariant of their component\<close>
named_theorems refines \<open>an operation computes its abstract counterpart\<close>

subsection \<open>Lists of buckets\<close>

lemma mset_concat_update:
  assumes "i < length t"
  shows "mset (concat (t[i := b])) + mset (t ! i) = mset (concat t) + mset b"
  using assms
proof (induction t arbitrary: i)
  case Nil
  then show ?case by simp
next
  case (Cons x t)
  then show ?case by (cases i) (simp_all add: ac_simps)
qed

lemma mset_concat_cons:
  assumes "i < length t"
  shows "mset (concat (t[i := e # t ! i])) = add_mset e (mset (concat t))"
  using mset_concat_update [OF assms, of "e # t ! i"] by simp

lemma mset_concat_clear:
  assumes "i < length t"
  shows "mset (concat t) = mset (t ! i) + mset (concat (t[i := []]))"
  using mset_concat_update [OF assms, of "[]"] by (simp add: ac_simps)

lemma length_concat_clear:
  assumes "i < length t"
  shows "length (concat t) = length (t ! i) + length (concat (t[i := []]))"
  using arg_cong [OF mset_concat_clear [OF assms], of size] by simp

lemma concat_replicate_Nil [simp]: "concat (replicate n []) = []"
  by (induction n) simp_all

lemma concat_nonempty_bucket: "concat t \<noteq> [] \<Longrightarrow> \<exists>i < length t. t ! i \<noteq> []"
  by (auto simp: in_set_conv_nth)

lemma in_concat_nth: "x \<in> set (concat t) \<longleftrightarrow> (\<exists>i < length t. x \<in> set (t ! i))"
  by (simp, metis in_set_conv_nth)

subsection \<open>Association lists up to permutation\<close>

lemma map_of_mset_eq:
  assumes "mset xs = mset ys" and "distinct (map fst xs)"
  shows "map_of xs = map_of ys"
proof -
  have "mset (map fst xs) = mset (map fst ys)"
    using assms(1) by simp
  then have "distinct (map fst ys)"
    using assms(2) mset_eq_imp_distinct_iff by blast
  moreover have "set xs = set ys"
    using assms(1) by (rule mset_eq_setD)
  ultimately show ?thesis
    using assms(2) map_of_inject_set by blast
qed

lemma distinct_map_mset_eq:
  "mset xs = mset ys \<Longrightarrow> distinct (map f xs) \<longleftrightarrow> distinct (map f ys)"
  by (metis mset_eq_imp_distinct_iff mset_map)

subsection \<open>Words\<close>

lemma unat_and_of_nat_le:
  fixes w :: u64
  assumes "m < 2 ^ 64"
  shows "unat (w AND of_nat m) \<le> m"
proof -
  have "w AND of_nat m \<le> of_nat m"
    by (rule word_and_le1)
  then have "unat (w AND of_nat m) \<le> unat (of_nat m :: u64)"
    by (simp add: word_le_nat_alt)
  also have "\<dots> = m"
    using assms by (simp add: unat_of_nat)
  finally show ?thesis .
qed

subsection \<open>Data refinement\<close>

text \<open>
  A sequence of operations, each of which may fail, and the abstract operations it stands for.
  \<open>all_ok\<close> says that the abstract state allows every operation when its turn comes.
\<close>

primrec run_steps :: "('op \<Rightarrow> 's \<Rightarrow> 's option) \<Rightarrow> 'op list \<Rightarrow> 's \<Rightarrow> 's option" where
  "run_steps f [] s = Some s"
| "run_steps f (x # xs) s = Option.bind (f x s) (run_steps f xs)"

primrec all_ok :: "('op \<Rightarrow> 't \<Rightarrow> bool) \<Rightarrow> ('op \<Rightarrow> 't \<Rightarrow> 't) \<Rightarrow> 'op list \<Rightarrow> 't \<Rightarrow> bool" where
  "all_ok ok g [] t = True"
| "all_ok ok g (x # xs) t = (ok x t \<and> all_ok ok g xs (g x t))"

lemma run_steps_append: "run_steps f (xs @ ys) s = Option.bind (run_steps f xs s) (run_steps f ys)"
  by (induction xs arbitrary: s) (auto split: Option.bind_splits)

text \<open>
  The representation relation \<open>rep\<close> is kept by every operation the abstract state allows, and none of
  those fails; then the same holds of sequences.
\<close>

locale data_refinement =
  fixes rep :: "'s \<Rightarrow> 't \<Rightarrow> bool"
    and exec :: "'op \<Rightarrow> 's \<Rightarrow> 's option"
    and spec :: "'op \<Rightarrow> 't \<Rightarrow> 't"
    and ok :: "'op \<Rightarrow> 't \<Rightarrow> bool"
  assumes step_refines: "rep s t \<Longrightarrow> ok x t \<Longrightarrow> \<exists>s'. exec x s = Some s' \<and> rep s' (spec x t)"
begin

lemma run_refines: "rep s t \<Longrightarrow> all_ok ok spec xs t \<Longrightarrow> \<exists>s'. run_steps exec xs s = Some s' \<and> rep s' (fold spec xs t)"
proof (induction xs arbitrary: s t)
  case (Cons x xs)
  then obtain s' where "exec x s = Some s'" "rep s' (spec x t)"
    using step_refines [of s t x] by auto
  then show ?case
    using Cons.IH [of s' "spec x t"] Cons.prems(2) by simp
qed simp

end

end
