(* ===== verification/Util.thy ===== *)
theory Util
  imports Prelude
begin

text \<open>
  The conversions between integers and their decimal representation of \<open>src/src/util.c\<close>
  and its glob-style pattern matching.  A \<open>long long\<close> is an \<^typ>\<open>int\<close> within
  \<open>LLONG_MIN .. LLONG_MAX\<close>; the accumulator of \<open>string2ll\<close>, where overflow matters, is a
  64-bit word.
\<close>

subsection \<open>Integers to strings\<close>

definition LLONG_MAX :: int where
  "LLONG_MAX = 9223372036854775807"

definition LLONG_MIN :: int where
  "LLONG_MIN = - 9223372036854775808"

definition is_ll :: "int \<Rightarrow> bool" where
  "is_ll v \<longleftrightarrow> LLONG_MIN \<le> v \<and> v \<le> LLONG_MAX"

fun digits10 :: "nat \<Rightarrow> nat" where
  "digits10 v =
     (if v < 10 then 1 else if v < 100 then 2 else if v < 1000 then 3
      else if v < 1000000000000 then
        (if v < 100000000 then
           (if v < 1000000 then
              (if v < 10000 then 4 else 5 + (if 100000 \<le> v then 1 else 0))
            else 7 + (if 10000000 \<le> v then 1 else 0))
         else if v < 10000000000 then 9 + (if 1000000000 \<le> v then 1 else 0)
         else 11 + (if 100000000000 \<le> v then 1 else 0))
      else 12 + digits10 (v div 1000000000000))"

definition sdigits10 :: "int \<Rightarrow> nat" where
  "sdigits10 v =
     (if v < 0 then digits10 (if v \<noteq> LLONG_MIN then nat (- v) else nat LLONG_MAX + 1) + 1
      else digits10 (nat v))"

text \<open>The table of the two digits of each number below 100.\<close>

definition ll2string_digits :: string where
  "ll2string_digits =
     ''0001020304050607080910111213141516171819'' @
     ''2021222324252627282930313233343536373839'' @
     ''4041424344454647484950515253545556575859'' @
     ''6061626364656667686970717273747576777879'' @
     ''8081828384858687888990919293949596979899''"

definition digit_char :: "nat \<Rightarrow> char" where
  "digit_char d = char_of (48 + d)"

text \<open>The main loop, on the buffer \<open>dst\<close>, the index \<open>nxt\<close> and the value still to be written.\<close>

function ll2string_loop :: "string \<Rightarrow> nat \<Rightarrow> nat \<Rightarrow> string \<times> nat \<times> nat" where
  "ll2string_loop dst nxt value =
     (if 100 \<le> value then
        let i = (value mod 100) * 2
        in ll2string_loop (dst[nxt := ll2string_digits ! (i + 1), nxt - 1 := ll2string_digits ! i])
             (nxt - 2) (value div 100)
      else (dst, nxt, value))"
  by auto
termination by (relation "measure (\<lambda>(_, _, value). value)") auto

text \<open>The last one or two digits.\<close>

definition ll2string_last :: "string \<Rightarrow> nat \<Rightarrow> nat \<Rightarrow> string" where
  "ll2string_last dst nxt value =
     (if value < 10 then dst[nxt := digit_char value]
      else dst[nxt := ll2string_digits ! (value * 2 + 1), nxt - 1 := ll2string_digits ! (value * 2)])"

text \<open>
  \<open>dst\<close> is the buffer of \<open>dstlen\<close> bytes the caller gives; the result is the buffer after the
  call and the returned length, 0 when the buffer is too short.
\<close>

definition ll2string :: "string \<Rightarrow> int \<Rightarrow> string \<times> nat" where
  "ll2string dst svalue =
     (let value = (if svalue < 0 then (if svalue \<noteq> LLONG_MIN then nat (- svalue) else nat LLONG_MAX + 1)
                   else nat svalue);
          negative = (if svalue < 0 then 1 else 0);
          len = digits10 value + negative
      in if length dst \<le> len then (dst, 0)
         else
           let (dst, nxt, value) = ll2string_loop (dst[len := CHR 0x00]) (len - 1) value;
               dst = ll2string_last dst nxt value;
               dst = (if svalue < 0 then dst[0 := CHR ''-''] else dst)
           in (dst, len))"

subsection \<open>Strings to integers\<close>

definition ULLONG_MAX :: u64 where
  "ULLONG_MAX = 18446744073709551615"

definition is_digit :: "char \<Rightarrow> bool" where
  "is_digit c \<longleftrightarrow> 48 \<le> (of_char c :: nat) \<and> (of_char c :: nat) \<le> 57"

text \<open>
  The loop over the digits after the first one: \<^const>\<open>None\<close> is the return on overflow,
  otherwise the value and the bytes that were not used.
\<close>

fun string2ll_loop :: "u64 \<Rightarrow> string \<Rightarrow> (u64 \<times> string) option" where
  "string2ll_loop v [] = Some (v, [])"
| "string2ll_loop v (c # p) =
     (if is_digit c then
        if v > ULLONG_MAX div 10 then None
        else if v * 10 > ULLONG_MAX - (of_char c - 48) then None
        else string2ll_loop (v * 10 + (of_char c - 48)) p
      else Some (v, c # p))"

text \<open>The part after the sign; \<open>negative\<close> is the flag.\<close>

definition string2ll_unsigned :: "bool \<Rightarrow> string \<Rightarrow> int option" where
  "string2ll_unsigned negative p =
     (case p of
        [] \<Rightarrow> None
      | c # p' \<Rightarrow>
          if \<not> (49 \<le> (of_char c :: nat) \<and> (of_char c :: nat) \<le> 57) then None
          else case string2ll_loop (of_char c - 48) p' of
              None \<Rightarrow> None
            | Some (v, rest) \<Rightarrow>
                if rest \<noteq> [] then None
                else if negative then
                  (if v > of_int (- (LLONG_MIN + 1)) + 1 then None else Some (sint (- v)))
                else (if v > of_int LLONG_MAX then None else Some (sint v)))"

definition string2ll :: "string \<Rightarrow> int option" where
  "string2ll s =
     (if s = [] then None
      else if s = ''0'' then Some 0
      else if hd s = CHR ''-'' then string2ll_unsigned True (tl s)
      else string2ll_unsigned False s)"

text \<open>On the supported 64-bit platforms \<open>long\<close> and \<open>long long\<close> have the same range.\<close>

definition string2l :: "string \<Rightarrow> int option" where
  "string2l s =
     (case string2ll s of
        None \<Rightarrow> None
      | Some llval \<Rightarrow> if llval < LLONG_MIN \<or> LLONG_MAX < llval then None else Some llval)"

subsection \<open>Decimal representation\<close>

text \<open>The reference: the decimal digits of a number, and the number digits stand for.\<close>

fun dec :: "nat \<Rightarrow> string" where
  "dec n = (if n < 10 then [digit_char n] else dec (n div 10) @ [digit_char (n mod 10)])"

declare dec.simps [simp del] digits10.simps [simp del] ll2string_loop.simps [simp del]

definition dec_int :: "int \<Rightarrow> string" where
  "dec_int v = (if v < 0 then CHR ''-'' # dec (nat (- v)) else dec (nat v))"

definition digit_val :: "char \<Rightarrow> nat" where
  "digit_val c = of_char c - 48"

definition undec :: "nat \<Rightarrow> string \<Rightarrow> nat" where
  "undec = foldl (\<lambda>a c. a * 10 + digit_val c)"

lemma undec_simps [simp]:
  "undec a [] = a"
  "undec a (c # cs) = undec (a * 10 + digit_val c) cs"
  "undec a (cs @ cs') = undec (undec a cs) cs'"
  by (simp_all add: undec_def)

lemma digit_char_simps [simp]:
  assumes "d < 10"
  shows "of_char (digit_char d) = 48 + d" and "is_digit (digit_char d)" and "digit_val (digit_char d) = d"
proof -
  show "of_char (digit_char d) = 48 + d"
    using assms by (simp add: digit_char_def of_char_of)
  then show "is_digit (digit_char d)" "digit_val (digit_char d) = d"
    using assms by (simp_all add: is_digit_def digit_val_def)
qed

lemma digit_val_less: "is_digit c \<Longrightarrow> digit_val c < 10"
  by (auto simp: is_digit_def digit_val_def)

lemma digit_char_val [simp]: "is_digit c \<Longrightarrow> digit_char (digit_val c) = c"
  by (simp add: is_digit_def digit_val_def digit_char_def)

lemma dec_small: "n < 10 \<Longrightarrow> dec n = [digit_char n]"
  by (simp add: dec.simps [of n])

lemma dec_step: "10 \<le> n \<Longrightarrow> dec n = dec (n div 10) @ [digit_char (n mod 10)]"
  by (simp add: dec.simps [of n])

lemma dec_nonempty [simp]: "dec n \<noteq> []"
  by (cases "n < 10") (simp_all add: dec_small dec_step)

lemma dec_digits: "c \<in> set (dec n) \<Longrightarrow> is_digit c"
proof (induction n rule: dec.induct)
  case (1 n)
  then show ?case by (cases "n < 10") (auto simp: dec_small dec_step)
qed

lemma undec_dec [simp]: "undec 0 (dec n) = n"
proof (induction n rule: dec.induct)
  case (1 n)
  then show ?case by (cases "n < 10") (auto simp: dec_small dec_step)
qed

lemma dec_undec_snoc: "0 < a \<Longrightarrow> is_digit c \<Longrightarrow> dec (a * 10 + digit_val c) = dec a @ [c]"
  by (subst dec_step) (auto simp: digit_val_less)

lemma dec_undec: "0 < a \<Longrightarrow> \<forall>c \<in> set cs. is_digit c \<Longrightarrow> dec (undec a cs) = dec a @ cs"
proof (induction cs arbitrary: a)
  case (Cons c cs)
  then have "dec (undec (a * 10 + digit_val c) cs) = dec (a * 10 + digit_val c) @ cs" by simp
  with Cons.prems show ?case by (simp add: dec_undec_snoc)
qed simp

lemma hd_dec: "0 < n \<Longrightarrow> hd (dec n) \<noteq> CHR ''0''"
proof (induction n rule: dec.induct)
  case (1 n)
  show ?case
  proof (cases "n < 10")
    case True
    with 1 have "of_char (hd (dec n)) \<noteq> (48 :: nat)" by (simp add: dec_small)
    then show ?thesis by auto
  next
    case False
    with 1 show ?thesis by (simp add: dec_step)
  qed
qed

lemma undec_mono: "a \<le> undec a cs"
proof (induction cs arbitrary: a)
  case (Cons c cs)
  have "a \<le> a * 10 + digit_val c" by simp
  also have "\<dots> \<le> undec (a * 10 + digit_val c) cs" by (rule Cons)
  finally show ?case by simp
qed simp

subsection \<open>\<open>digits10\<close> counts the digits\<close>

lemma length_dec_div: "10 ^ k \<le> v \<Longrightarrow> length (dec v) = k + length (dec (v div 10 ^ k))"
proof (induction k arbitrary: v)
  case (Suc k)
  then have "10 \<le> v" "10 ^ k \<le> v div 10"
    by (simp_all add: less_eq_div_iff_mult_less_eq) (metis le_trans mult.commute nat_mult_1 mult_le_mono1 one_le_power one_le_numeral)
  with Suc.IH [of "v div 10"] show ?case
    by (simp add: dec_step div_mult2_eq)
qed simp

lemma length_dec_range: "10 ^ k \<le> v \<Longrightarrow> v < 10 ^ (k + 1) \<Longrightarrow> length (dec v) = k + 1"
  using length_dec_div [of k v] by (simp add: dec_small div_less_iff_less_mult)

lemma digits10_length: "digits10 v = length (dec v)"
proof (induction v rule: digits10.induct)
  case (1 v)
  show ?case
  proof (cases "v < 1000000000000")
    case True
    then show ?thesis
      using length_dec_range [of 1 v] length_dec_range [of 2 v] length_dec_range [of 3 v] length_dec_range [of 4 v]
        length_dec_range [of 5 v] length_dec_range [of 6 v] length_dec_range [of 7 v] length_dec_range [of 8 v]
        length_dec_range [of 9 v] length_dec_range [of 10 v] length_dec_range [of 11 v]
      by (simp add: digits10.simps [of v] dec_small)
  next
    case False
    with 1 length_dec_div [of 12 v] show ?thesis
      by (simp add: digits10.simps [of v])
  qed
qed

subsection \<open>\<open>ll2string\<close> writes the decimal representation\<close>

lemma digits_table:
  assumes "r < 100"
  shows "ll2string_digits ! (2 * r) = digit_char (r div 10)" and "ll2string_digits ! (2 * r + 1) = digit_char (r mod 10)"
proof -
  have "list_all (\<lambda>r. ll2string_digits ! (2 * r) = digit_char (r div 10) \<and>
     ll2string_digits ! (2 * r + 1) = digit_char (r mod 10)) [0..<100]"
    by code_simp
  with assms show "ll2string_digits ! (2 * r) = digit_char (r div 10)"
    and "ll2string_digits ! (2 * r + 1) = digit_char (r mod 10)"
    by (simp_all add: list_all_iff)
qed

lemma dec_two_digits:
  "10 \<le> v \<Longrightarrow> v < 100 \<Longrightarrow> dec v = [digit_char (v div 10), digit_char (v mod 10)]"
  by (simp add: dec_step dec_small)

lemma dec_step2:
  assumes "100 \<le> v"
  shows "dec v = dec (v div 100) @ [digit_char (v mod 100 div 10), digit_char (v mod 100 mod 10)]"
proof -
  have "v mod 100 = 10 * (v div 10 mod 10) + v mod 10"
    using mod_mult2_eq [of v 10 10] by simp
  then have "v mod 100 div 10 = v div 10 mod 10" "v mod 100 mod 10 = v mod 10"
    by simp_all
  moreover have "v div 10 div 10 = v div 100" "10 \<le> v div 10" "10 \<le> v"
    using assms div_mult2_eq [of v 10 10] by simp_all
  ultimately show ?thesis
    using dec_step [of v] dec_step [of "v div 10"] by simp
qed

text \<open>
  The digits end up between index \<open>n\<close> and index \<open>nxt\<close>; the invariant also says that
  \<open>nxt\<close> never underflows.
\<close>

lemma ll2string_put:
  assumes "nxt + 1 = n + length (dec vl)" and "nxt < length dst"
  shows "(case ll2string_loop dst nxt vl of (dst', next', vl') \<Rightarrow> ll2string_last dst' next' vl')
     = take n dst @ dec vl @ drop (nxt + 1) dst"
  using assms
proof (induction dst nxt vl rule: ll2string_loop.induct)
  case (1 dst nxt vl)
  show ?case
  proof (cases "100 \<le> vl")
    case True
    let ?r = "vl mod 100"
    have len: "nxt + 1 = n + length (dec (vl div 100)) + 2"
      using "1.prems"(1) True by (simp add: dec_step2)
    then have nx: "nxt = Suc (Suc (n + length (dec (vl div 100)) - 1))"
      by (cases "dec (vl div 100)") auto
    define dst' where "dst' = dst[nxt := ll2string_digits ! (?r * 2 + 1), nxt - 1 := ll2string_digits ! (?r * 2)]"
    have IH: "(case ll2string_loop dst' (nxt - 2) (vl div 100) of
        (dst', next', vl') \<Rightarrow> ll2string_last dst' next' vl')
      = take n dst' @ dec (vl div 100) @ drop (nxt - 2 + 1) dst'"
      unfolding dst'_def
      by (rule "1.IH" [OF True refl]) (use len nx "1.prems"(2) in auto)
    have "take n dst' = take n dst"
      using nx len by (simp add: dst'_def)
    moreover have "drop (nxt - 2 + 1) dst' =
        digit_char (?r div 10) # digit_char (?r mod 10) # drop (nxt + 1) dst"
      using nx "1.prems"(2) digits_table [of ?r]
      by (simp add: dst'_def drop_update_swap Cons_nth_drop_Suc [symmetric] mult.commute del: mod_mod_trivial)
    moreover have "ll2string_loop dst nxt vl = ll2string_loop dst' (nxt - 2) (vl div 100)"
      using True by (subst ll2string_loop.simps) (simp add: dst'_def Let_def)
    ultimately show ?thesis
      using IH True by (simp add: dec_step2)
  next
    case False
    then have l: "ll2string_loop dst nxt vl = (dst, nxt, vl)"
      by (simp add: ll2string_loop.simps [of dst nxt vl])
    show ?thesis
    proof (cases "vl < 10")
      case True
      with "1.prems" l show ?thesis
        by (simp add: ll2string_last_def dec_small upd_conv_take_nth_drop)
    next
      case F: False
      with False "1.prems" have "nxt = Suc n" "Suc n < length dst"
        by (simp_all add: dec_two_digits)
      then show ?thesis
        using l F False digits_table [of vl]
        by (simp add: ll2string_last_def dec_two_digits mult.commute upd_conv_take_nth_drop
            Cons_nth_drop_Suc [symmetric] list_update_append take_Suc_conv_app_nth)
    qed
  qed
qed

lemma ll2string_correct:
  assumes "is_ll v"
  shows "ll2string dst v =
    (if length (dec_int v) < length dst
     then (dec_int v @ CHR 0x00 # drop (length (dec_int v) + 1) dst, length (dec_int v))
     else (dst, 0))"
proof -
  define neg :: nat where "neg = (if v < 0 then 1 else 0)"
  define val where "val = (if v < 0 then (if v \<noteq> LLONG_MIN then nat (- v) else nat LLONG_MAX + 1) else nat v)"
  define len where "len = length (dec_int v)"
  have val: "val = (if v < 0 then nat (- v) else nat v)"
    by (simp add: val_def LLONG_MIN_def LLONG_MAX_def)
  have len: "digits10 val + neg = len" and len': "len = neg + length (dec val)"
    by (simp_all add: len_def neg_def val digits10_length dec_int_def)
  then have "0 < len" by simp
  show ?thesis
  proof (cases "length dst \<le> len")
    case True
    then show ?thesis
      unfolding ll2string_def Let_def neg_def [symmetric] val_def [symmetric] len by (simp add: len_def)
  next
    case False
    define dst0 where "dst0 = dst[len := CHR 0x00]"
    obtain d nx vw where l: "ll2string_loop dst0 (len - 1) val = (d, nx, vw)"
      by (rule prod_cases3)
    have put: "ll2string_last d nx vw = take neg dst0 @ dec val @ drop len dst0"
      using ll2string_put [where dst = dst0 and nxt = "len - 1" and n = neg and vl = val] l len' False \<open>0 < len\<close>
      by (simp add: dst0_def)
    have "drop len dst0 = CHR 0x00 # drop (len + 1) dst"
      using False by (simp add: dst0_def upd_conv_take_nth_drop)
    moreover have "take neg dst0 = (if v < 0 then [dst0 ! 0] else [])"
      using False by (cases dst0) (auto simp: dst0_def neg_def)
    ultimately have "(if v < 0 then (ll2string_last d nx vw)[0 := CHR ''-''] else ll2string_last d nx vw)
        = dec_int v @ CHR 0x00 # drop (len + 1) dst"
      unfolding put by (auto simp: val dec_int_def)
    then show ?thesis
      using False l unfolding ll2string_def Let_def neg_def [symmetric] val_def [symmetric] len dst0_def len_def [symmetric]
      by simp
  qed
qed

subsection \<open>\<open>string2ll\<close> accepts exactly the canonical representations\<close>

lemma unat_of_nat_u64: "n \<le> 18446744073709551615 \<Longrightarrow> unat (of_nat n :: u64) = n"
  by (simp add: unat_of_nat)

lemma of_char_u64: "unat (of_char c :: u64) = of_char c"
  using unat_of_nat_u64 [of "of_char c"] nat_of_char_less_256 [of c] by (simp add: of_nat_of_char)

lemma of_char_digit_u64: "is_digit c \<Longrightarrow> unat (of_char c - 48 :: u64) = digit_val c"
proof -
  assume d: "is_digit c"
  then have "(48 :: u64) \<le> of_char c"
    by (simp add: word_le_nat_alt of_char_u64 is_digit_def)
  then show ?thesis
    by (simp add: unat_sub of_char_u64 digit_val_def)
qed

text \<open>
  While only digits are read, the word is the number they stand for; the two tests find
  an overflow as soon as there is one.
\<close>

lemma string2ll_loop_digits:
  assumes "\<forall>c \<in> set p. is_digit c"
  shows "string2ll_loop v p =
     (if undec (unat v) p \<le> 18446744073709551615 then Some (of_nat (undec (unat v) p), []) else None)"
  using assms
proof (induction p arbitrary: v)
  case Nil
  have "unat v \<le> 18446744073709551615"
    using unsigned_less [of v, where ?'a = nat] by simp
  then show ?case by simp
next
  case (Cons c p)
  let ?d = "of_char c - 48 :: u64"
  have d: "unat ?d = digit_val c" "digit_val c < 10"
    using Cons.prems by (simp_all add: of_char_digit_u64 digit_val_less)
  have big: "undec (unat v * 10 + digit_val c) p \<ge> unat v * 10 + digit_val c"
    by (rule undec_mono)
  show ?case
  proof (cases "v > ULLONG_MAX div 10")
    case True
    then have "1844674407370955161 < unat v"
      by (simp add: word_less_nat_alt ULLONG_MAX_def unat_div)
    with True Cons.prems big show ?thesis by simp
  next
    case False
    then have "unat v \<le> 1844674407370955161"
      by (simp add: word_less_nat_alt ULLONG_MAX_def unat_div)
    then have v10: "unat (v * 10) = unat v * 10"
      by (subst unat_mult_lem [THEN iffD1]) simp_all
    have m: "unat (ULLONG_MAX - ?d) = 18446744073709551615 - digit_val c"
      by (subst unat_sub) (simp_all add: d word_le_nat_alt ULLONG_MAX_def, use d in simp)
    show ?thesis
    proof (cases "v * 10 > ULLONG_MAX - ?d")
      case True
      then have "18446744073709551615 < unat v * 10 + digit_val c"
        using d(2) by (simp add: word_less_nat_alt m v10)
      with True False Cons.prems big show ?thesis by simp
    next
      case F: False
      then have "unat v * 10 + digit_val c \<le> 18446744073709551615"
        using d(2) by (simp add: word_less_nat_alt m v10)
      then have "unat (v * 10 + ?d) = unat v * 10 + digit_val c"
        by (subst unat_add_lem [THEN iffD1]) (simp_all add: v10 d)
      with F False Cons show ?thesis by simp
    qed
  qed
qed

lemma string2ll_loop_rest:
  assumes "string2ll_loop v p = Some (v', [])"
  shows "\<forall>c \<in> set p. is_digit c"
  using assms
proof (induction v p rule: string2ll_loop.induct)
  case (2 v c p)
  then show ?case by (auto split: if_splits)
qed simp

lemma string2ll_loop_iff:
  "string2ll_loop v p = Some (v', []) \<longleftrightarrow>
     (\<forall>c \<in> set p. is_digit c) \<and> undec (unat v) p \<le> 18446744073709551615 \<and> v' = of_nat (undec (unat v) p)"
  using string2ll_loop_digits [of p v] string2ll_loop_rest [of v p v'] by (auto split: if_splits)

text \<open>The conversions of the accepted values to \<open>long long\<close>.\<close>

lemma sint_ll:
  assumes "n \<le> 9223372036854775807"
  shows "sint (of_nat n :: u64) = int n"
  using assms int_word_sint [of "int n", where ?'a = 64] by simp

lemma sint_neg_ll:
  assumes "n \<le> 9223372036854775808"
  shows "sint (- (of_nat n :: u64)) = - int n"
  using assms int_word_sint [of "- int n", where ?'a = 64] by simp

lemma dec_first_digit:
  assumes "49 \<le> (of_char c :: nat)" and "(of_char c :: nat) \<le> 57"
  shows "is_digit c" and "0 < digit_val c" and "dec (digit_val c) = [c]"
proof -
  show d: "is_digit c" "0 < digit_val c"
    using assms by (simp_all add: is_digit_def digit_val_def)
  then show "dec (digit_val c) = [c]"
    by (simp add: dec_small digit_val_less)
qed

lemma dec_pos_first:
  assumes "0 < n"
  obtains c p where "dec n = c # p" "49 \<le> (of_char c :: nat)" "(of_char c :: nat) \<le> 57" "\<forall>c \<in> set p. is_digit c"
    "undec (digit_val c) p = n"
proof -
  obtain c p where cp: "dec n = c # p" by (cases "dec n") simp_all
  then have c: "is_digit c" "c \<noteq> CHR ''0''" "\<forall>c \<in> set p. is_digit c"
    using dec_digits [of _ n] hd_dec [OF assms] by auto
  have "(of_char c :: nat) \<noteq> of_char (CHR ''0'')"
    using c(2) by (simp only: of_char_eq_iff) simp
  then have "(of_char c :: nat) \<noteq> 48" by simp
  moreover have "undec (digit_val c) p = n"
    using undec_dec [of n] cp by simp
  ultimately show ?thesis
    using that cp c by (simp add: is_digit_def)
qed

lemma string2ll_unsigned_iff:
  "string2ll_unsigned negative p = Some v \<longleftrightarrow>
     (\<exists>n > 0. p = dec n \<and>
        (if negative then v = - int n \<and> n \<le> 9223372036854775808 else v = int n \<and> n \<le> 9223372036854775807))"
    (is "?l \<longleftrightarrow> ?r")
proof
  assume ?l
  then obtain c p' v' where p: "p = c # p'" "49 \<le> (of_char c :: nat)" "(of_char c :: nat) \<le> 57"
    and l: "string2ll_loop (of_char c - 48) p' = Some (v', [])"
    and v: "if negative then v' \<le> of_int (- (LLONG_MIN + 1)) + 1 \<and> v = sint (- v') else v' \<le> of_int LLONG_MAX \<and> v = sint v'"
    by (auto simp: string2ll_unsigned_def split: list.splits if_splits option.splits)
  note d = dec_first_digit [OF p(2,3)]
  let ?n = "undec (digit_val c) p'"
  have n: "\<forall>c \<in> set p'. is_digit c" "?n \<le> 18446744073709551615" "v' = of_nat ?n"
    using l by (simp_all add: string2ll_loop_iff of_char_digit_u64 d)
  have "dec ?n = p"
    using dec_undec [OF d(2) n(1)] d(3) p(1) by simp
  moreover have "0 < ?n"
    using undec_mono [of "digit_val c" p'] d(2) by simp
  moreover have "unat v' = ?n"
    using n(2,3) by (simp add: unat_of_nat_u64)
  then have "if negative then ?n \<le> 9223372036854775808 \<and> v = sint (- v') else ?n \<le> 9223372036854775807 \<and> v = sint v'"
    using v by (simp add: word_le_nat_alt LLONG_MIN_def LLONG_MAX_def split: if_splits)
  ultimately show ?r
    using n(3) sint_ll [of ?n] sint_neg_ll [of ?n] by (auto split: if_splits)
next
  assume ?r
  then obtain n where n: "0 < n" "p = dec n"
    and v: "if negative then v = - int n \<and> n \<le> 9223372036854775808 else v = int n \<and> n \<le> 9223372036854775807"
    by blast
  obtain c p' where c: "dec n = c # p'" "49 \<le> (of_char c :: nat)" "(of_char c :: nat) \<le> 57"
    "\<forall>c \<in> set p'. is_digit c" "undec (digit_val c) p' = n"
    using dec_pos_first [OF n(1)] .
  have n64: "n \<le> 18446744073709551615"
    using v by (simp split: if_splits)
  then have l: "string2ll_loop (of_char c - 48) p' = Some (of_nat n, [])"
    using c by (simp add: string2ll_loop_iff of_char_digit_u64 dec_first_digit(1))
  have "negative \<Longrightarrow> \<not> (of_nat n :: u64) > of_int (- (LLONG_MIN + 1)) + 1"
    "\<not> negative \<Longrightarrow> \<not> (of_nat n :: u64) > of_int LLONG_MAX"
    using v n64 by (simp_all add: word_less_nat_alt unat_of_nat_u64 LLONG_MIN_def LLONG_MAX_def)
  then show ?l
    using n(2) c(1,2,3) l v sint_ll [of n] sint_neg_ll [of n]
    by (simp add: string2ll_unsigned_def split: if_splits)
qed

lemma hd_dec_digit: "is_digit (hd (dec n))"
  by (rule dec_digits [of _ n]) simp

lemma digit_char_zero: "digit_char 0 = CHR ''0''"
  by code_simp

lemma dec_int_zero: "dec_int v = ''0'' \<longleftrightarrow> v = 0"
proof
  assume z: "dec_int v = ''0''"
  then have "\<not> v < 0" by (auto simp: dec_int_def)
  with z have "undec 0 (dec (nat v)) = undec 0 ''0''" by (simp add: dec_int_def)
  then show "v = 0"
    using \<open>\<not> v < 0\<close> by (simp add: digit_val_def)
qed (simp add: dec_int_def dec_small digit_char_zero)

lemma string2ll_iff: "string2ll s = Some v \<longleftrightarrow> is_ll v \<and> s = dec_int v"
proof -
  consider "s = []" | "s = ''0''" | "s \<noteq> []" "hd s = CHR ''-''" | "s \<noteq> []" "s \<noteq> ''0''" "hd s \<noteq> CHR ''-''" by blast
  then show ?thesis
  proof cases
    case 1
    have "dec_int v \<noteq> []" by (simp add: dec_int_def)
    with 1 show ?thesis by (auto simp: string2ll_def)
  next
    case 2
    then have "s = dec_int v \<longleftrightarrow> v = 0" using dec_int_zero [of v] by auto
    with 2 show ?thesis by (auto simp: string2ll_def is_ll_def LLONG_MIN_def LLONG_MAX_def)
  next
    case 3
    then obtain p where p: "s = CHR ''-'' # p" by (cases s) simp_all
    have "s = dec_int v \<longleftrightarrow> v < 0 \<and> p = dec (nat (- v))"
    proof (cases "v < 0")
      case False
      then have "hd (dec_int v) \<noteq> CHR ''-''"
        using hd_dec_digit [of "nat v"] by (auto simp: dec_int_def is_digit_def)
      with False p show ?thesis by (metis list.sel(1))
    qed (simp add: dec_int_def p)
    moreover have "string2ll s = Some v \<longleftrightarrow> (\<exists>n > 0. p = dec n \<and> v = - int n \<and> n \<le> 9223372036854775808)"
      using p string2ll_unsigned_iff [of True p v] by (simp add: string2ll_def)
    moreover have "\<dots> \<longleftrightarrow> v < 0 \<and> p = dec (nat (- v)) \<and> is_ll v"
      by (auto simp: is_ll_def LLONG_MIN_def LLONG_MAX_def intro!: exI [of _ "nat (- v)"])
    ultimately show ?thesis by blast
  next
    case 4
    have "string2ll s = Some v \<longleftrightarrow> (\<exists>n > 0. s = dec n \<and> v = int n \<and> n \<le> 9223372036854775807)"
      using 4 string2ll_unsigned_iff [of False s v] by (simp add: string2ll_def)
    moreover have "\<dots> \<longleftrightarrow> 0 < v \<and> s = dec (nat v) \<and> is_ll v"
      by (auto simp: is_ll_def LLONG_MIN_def LLONG_MAX_def intro!: exI [of _ "nat v"])
    moreover have "s = dec_int v \<longleftrightarrow> 0 < v \<and> s = dec (nat v)"
      using 4 dec_int_zero [of v] by (cases "v < 0") (auto simp: dec_int_def)
    ultimately show ?thesis by blast
  qed
qed

lemma length_dec_le: "v < 10 ^ k \<Longrightarrow> 0 < k \<Longrightarrow> length (dec v) \<le> k"
proof (induction k arbitrary: v)
  case (Suc k)
  show ?case
  proof (cases "v < 10")
    case False
    with Suc.prems have "v div 10 < 10 ^ k" "0 < k"
      by (auto simp: div_less_iff_less_mult mult.commute intro: Nat.gr0I)
    with Suc.IH [of "v div 10"] False show ?thesis by (simp add: dec_step)
  qed (simp add: dec_small)
qed simp

lemma length_dec_int: "is_ll v \<Longrightarrow> length (dec_int v) \<le> 20"
  using length_dec_le [of "nat v" 19] length_dec_le [of "nat (- v)" 19]
  by (cases "v < 0") (auto simp: dec_int_def is_ll_def LLONG_MIN_def LLONG_MAX_def nat_less_iff)

lemma sdigits10_length: "is_ll v \<Longrightarrow> sdigits10 v = length (dec_int v)"
  by (simp add: sdigits10_def dec_int_def digits10_length LLONG_MIN_def LLONG_MAX_def)

lemma string2l_string2ll: "string2l s = string2ll s"
  using string2ll_iff [of s "the (string2ll s)"] by (cases "string2ll s") (auto simp: string2l_def is_ll_def)

subsection \<open>Properties of the conversions\<close>

text \<open>
  C27. \<open>string2ll\<close> accepts exactly the canonical decimal representations of the 64-bit
  integers: it returns 1 with the value \<open>v\<close> if and only if \<open>v\<close> is within \<open>LLONG_MIN ..
  LLONG_MAX\<close> and the string is the one decimal representation of \<open>v\<close> (no leading zero, no
  other byte, no overflow that goes unnoticed).
\<close>

theorem string2ll_canonical: "string2ll s = Some v \<longleftrightarrow> is_ll v \<and> s = dec_int v"
  by (rule string2ll_iff)

text \<open>
  C28. Round trip of \<open>ll2string\<close> and \<open>string2ll\<close>: with the buffer of \<open>LONG_STR_SIZE\<close> (21) bytes
  that the callers use, every \<open>long long\<close> is written, null terminated within the buffer, the
  bytes after the terminator untouched, and parsing what was written gives the number back.
\<close>

theorem ll2string_round_trip:
  assumes "is_ll v" and "21 \<le> length dst"
  shows "case ll2string dst v of (dst', len) \<Rightarrow>
    0 < len \<and> len = sdigits10 v \<and> length dst' = length dst \<and> dst' ! len = CHR 0x00 \<and>
    drop (len + 1) dst' = drop (len + 1) dst \<and> string2ll (take len dst') = Some v"
proof -
  have "dec_int v \<noteq> []" by (simp add: dec_int_def)
  with assms length_dec_int [OF assms(1)] show ?thesis
    by (simp add: ll2string_correct string2ll_iff sdigits10_length nth_append)
qed

theorem ll2string_round_trip_witness:
  "case ll2string (replicate 21 CHR 0x00) LLONG_MIN of (dst, len) \<Rightarrow> string2ll (take len dst) = Some LLONG_MIN"
  using ll2string_round_trip [of LLONG_MIN "replicate 21 CHR 0x00"]
  by (simp add: is_ll_def LLONG_MIN_def LLONG_MAX_def split: prod.splits)

subsection \<open>Glob-style pattern matching\<close>

text \<open>
  \<open>pattern\<close> and \<open>string\<close> are what is left of the two strings; the byte after the end of the
  pattern, which the code may look at, is the terminator of the string.  \<open>char\<close> is signed
  on the supported platforms.
\<close>

definition schar :: "char \<Rightarrow> int" where
  "schar c = (if (of_char c :: int) < 128 then of_char c else of_char c - 256)"

definition tolower :: "int \<Rightarrow> int" where
  "tolower c = (if 65 \<le> c \<and> c \<le> 90 then c + 32 else c)"

definition same_char :: "bool \<Rightarrow> char \<Rightarrow> char \<Rightarrow> bool" where
  "same_char nocase a b = (if nocase then tolower (schar a) = tolower (schar b) else a = b)"

definition in_char_range :: "bool \<Rightarrow> char \<Rightarrow> char \<Rightarrow> char \<Rightarrow> bool" where
  "in_char_range nocase a b c =
     (let start = min (schar a) (schar b); stop = max (schar a) (schar b); ch = schar c;
          start = (if nocase then tolower start else start);
          stop = (if nocase then tolower stop else stop);
          ch = (if nocase then tolower ch else ch)
      in start \<le> ch \<and> ch \<le> stop)"

text \<open>
  The loop over a character class: the flag \<open>match\<close> for the byte \<open>c\<close>, and the pattern after
  the class (all of it, when the class is not closed).
\<close>

fun class_loop :: "bool \<Rightarrow> char \<Rightarrow> string \<Rightarrow> bool \<Rightarrow> bool \<times> string" where
  "class_loop nocase c [] match = (match, [])"
| "class_loop nocase c (x # p) match =
     (if x = CHR 0x5C \<and> p \<noteq> [] then class_loop nocase c (tl p) (match \<or> hd p = c)
      else if x = CHR '']'' then (match, p)
      else if 2 \<le> length p \<and> hd p = CHR ''-'' then
        class_loop nocase c (tl (tl p)) (match \<or> in_char_range nocase x (hd (tl p)) c)
      else class_loop nocase c p (match \<or> same_char nocase x c))"

fun skip_stars :: "string \<Rightarrow> string" where
  "skip_stars (x # y # p) = (if y = CHR ''*'' then skip_stars (y # p) else x # y # p)"
| "skip_stars p = p"

lemma class_loop_length: "length (snd (class_loop nocase c p match)) \<le> length p"
proof (induction nocase c p match rule: class_loop.induct)
  case (2 nocase c x p match)
  have "length (tl p) \<le> length p" "length (tl (tl p)) \<le> length p" by simp_all
  with 2 show ?case by (auto simp del: length_tl intro: le_SucI order_trans)
qed simp

lemma skip_stars_length: "length (skip_stars p) \<le> length p"
  by (induction p rule: skip_stars.induct) auto

lemma skip_stars_nonempty: "p \<noteq> [] \<Longrightarrow> skip_stars p \<noteq> []"
  by (induction p rule: skip_stars.induct) auto

text \<open>
  \<open>stringmatch_star\<close> is the loop of the \<open>*\<close> case, which tries the rest of the pattern at
  every position; \<open>stringmatch_next\<close> is the code after the \<open>switch\<close>, which ends one round
  of the main loop.
\<close>

function stringmatchlen :: "bool \<Rightarrow> string \<Rightarrow> string \<Rightarrow> bool"
  and stringmatch_star :: "bool \<Rightarrow> string \<Rightarrow> string \<Rightarrow> bool"
  and stringmatch_next :: "bool \<Rightarrow> string \<Rightarrow> string \<Rightarrow> bool" where
  "stringmatchlen nocase pattern str =
     (if pattern = [] \<or> str = [] then pattern = [] \<and> str = []
      else if hd pattern = CHR ''*'' then
        (let pattern = skip_stars pattern
         in length pattern = 1 \<or> stringmatch_star nocase (tl pattern) str)
      else if hd pattern = CHR ''?'' then stringmatch_next nocase (tl pattern) (tl str)
      else if hd pattern = CHR ''['' then
        (let pattern = tl pattern;
             neg = (pattern \<noteq> [] \<and> hd pattern = CHR ''^'');
             (match, rest) = class_loop nocase (hd str) (if neg then tl pattern else pattern) False
         in (match \<noteq> neg) \<and> stringmatch_next nocase rest (tl str))
      else
        (let pattern = (if hd pattern = CHR 0x5C \<and> 2 \<le> length pattern then tl pattern else pattern)
         in same_char nocase (hd pattern) (hd str) \<and> stringmatch_next nocase (tl pattern) (tl str)))"
| "stringmatch_star nocase pattern str =
     (if str = [] then False
      else stringmatchlen nocase pattern str \<or> stringmatch_star nocase pattern (tl str))"
| "stringmatch_next nocase pattern str =
     (if str = [] then dropWhile (\<lambda>c. c = CHR ''*'') pattern = []
      else stringmatchlen nocase pattern str)"
  by pat_completeness auto
termination
proof (relation "measures [\<lambda>x. case x of Inl (_, p, _) \<Rightarrow> length p | Inr (Inl (_, p, _)) \<Rightarrow> length p | Inr (Inr (_, p, _)) \<Rightarrow> length p,
    \<lambda>x. case x of Inl (_, _, s) \<Rightarrow> length s | Inr (Inl (_, _, s)) \<Rightarrow> length s | Inr (Inr (_, _, s)) \<Rightarrow> length s,
    \<lambda>x. case x of Inl _ \<Rightarrow> 0 | _ \<Rightarrow> 1]", goal_cases)
  case (2 nocase p s x)
  then have "0 < length (skip_stars p)" "length (skip_stars p) \<le> length p"
    using skip_stars_nonempty [of p] skip_stars_length [of p] by simp_all
  with 2 show ?case by (cases "skip_stars p") simp_all
next
  case (4 nocase p s p' neg cl match rest)
  then have "class_loop nocase (hd s) (if neg then tl p' else p') False = (match, rest)" by simp
  then have "length rest \<le> length (if neg then tl p' else p')"
    using class_loop_length [of nocase "hd s" "if neg then tl p' else p'" False] by simp
  also have "\<dots> \<le> length p'" by simp
  finally have "length rest \<le> length p'" .
  with 4 show ?case by (cases p) auto
qed auto

text \<open>
  The reference: a pattern is parsed into tokens once, and a token list denotes a set of
  strings.
\<close>

datatype class_item = EscapedChar char | CharRange char char | PlainChar char

fun item_match :: "bool \<Rightarrow> char \<Rightarrow> class_item \<Rightarrow> bool" where
  "item_match nocase c (EscapedChar x) = (x = c)"
| "item_match nocase c (CharRange a b) = in_char_range nocase a b c"
| "item_match nocase c (PlainChar x) = same_char nocase x c"

fun parse_class :: "string \<Rightarrow> class_item list \<times> string" where
  "parse_class [] = ([], [])"
| "parse_class (x # p) =
     (if x = CHR 0x5C \<and> p \<noteq> [] then apfst ((#) (EscapedChar (hd p))) (parse_class (tl p))
      else if x = CHR '']'' then ([], p)
      else if 2 \<le> length p \<and> hd p = CHR ''-'' then apfst ((#) (CharRange x (hd (tl p)))) (parse_class (tl (tl p)))
      else apfst ((#) (PlainChar x)) (parse_class p))"

datatype glob = AnyString | AnyChar | OneOf bool "class_item list" | Literal char

lemma class_loop_parse:
  "class_loop nocase c p match = (match \<or> list_ex (item_match nocase c) (fst (parse_class p)), snd (parse_class p))"
proof (induction nocase c p match rule: class_loop.induct)
  case (2 nocase c x p match)
  then show ?case
    by (cases "parse_class (tl p)"; cases "parse_class (tl (tl p))"; cases "parse_class p")
      (simp add: disj_assoc)
qed simp

lemma parse_class_length: "length (snd (parse_class p)) \<le> length p"
  using class_loop_length [of True "CHR ''a''" p False] by (simp add: class_loop_parse)

function parse_glob :: "string \<Rightarrow> glob list" where
  "parse_glob [] = []"
| "parse_glob (x # p) =
     (if x = CHR ''*'' then AnyString # parse_glob p
      else if x = CHR ''?'' then AnyChar # parse_glob p
      else if x = CHR ''['' then
        (let neg = (p \<noteq> [] \<and> hd p = CHR ''^''); cl = parse_class (if neg then tl p else p)
         in OneOf neg (fst cl) # parse_glob (snd cl))
      else if x = CHR 0x5C \<and> p \<noteq> [] then Literal (hd p) # parse_glob (tl p)
      else Literal x # parse_glob p)"
  by pat_completeness auto
termination
proof (relation "measure length", goal_cases)
  case (4 x p neg cl)
  then show ?case
    using parse_class_length [of "if neg then tl p else p"] by (auto simp: Let_def split: if_splits)
qed auto

function glob_match :: "bool \<Rightarrow> glob list \<Rightarrow> string \<Rightarrow> bool" where
  "glob_match nocase [] s = (s = [])"
| "glob_match nocase (AnyString # g) s =
     (glob_match nocase g s \<or> (if s = [] then False else glob_match nocase (AnyString # g) (tl s)))"
| "glob_match nocase (AnyChar # g) s = (s \<noteq> [] \<and> glob_match nocase g (tl s))"
| "glob_match nocase (OneOf neg items # g) s =
     (s \<noteq> [] \<and> list_ex (item_match nocase (hd s)) items \<noteq> neg \<and> glob_match nocase g (tl s))"
| "glob_match nocase (Literal x # g) s = (s \<noteq> [] \<and> same_char nocase x (hd s) \<and> glob_match nocase g (tl s))"
  by pat_completeness auto
termination by (relation "measures [\<lambda>(_, g, _). length g, \<lambda>(_, _, s). length s]") auto

declare glob_match.simps(2) [simp del] parse_glob.simps(2) [simp del]
  stringmatchlen.simps [simp del] stringmatch_star.simps [simp del] stringmatch_next.simps [simp del]

lemma glob_match_star_Nil: "glob_match nocase (AnyString # g) [] = glob_match nocase g []"
  by (simp add: glob_match.simps(2))

lemma glob_match_star_star: "glob_match nocase (AnyString # AnyString # g) s = glob_match nocase (AnyString # g) s"
proof (induction s)
  case (Cons c s)
  then show ?case
    by (simp add: glob_match.simps(2) [of nocase "AnyString # g" "c # s"])
      (auto simp: glob_match.simps(2) [of nocase g "c # s"])
qed (simp add: glob_match_star_Nil)

lemma glob_match_only_star: "glob_match nocase [AnyString] s"
proof (induction s)
  case (Cons c s)
  then show ?case by (simp add: glob_match.simps(2) [of nocase "[]" "c # s"])
qed (simp add: glob_match_star_Nil)

lemma parse_glob_star: "hd p = CHR ''*'' \<Longrightarrow> p \<noteq> [] \<Longrightarrow> parse_glob p = AnyString # parse_glob (tl p)"
  by (cases p) (simp_all add: parse_glob.simps(2))

text \<open>Only stars match the empty string.\<close>

lemma glob_match_Nil: "glob_match nocase (parse_glob p) [] \<longleftrightarrow> dropWhile (\<lambda>c. c = CHR ''*'') p = []"
proof (induction p)
  case (Cons x p)
  then show ?case
    by (cases "x = CHR ''*''") (simp_all add: parse_glob.simps(2) glob_match_star_Nil Let_def)
qed simp

lemma skip_stars_match:
  assumes "p \<noteq> []" and "hd p = CHR ''*''"
  shows "glob_match nocase (parse_glob p) s = glob_match nocase (AnyString # parse_glob (tl (skip_stars p))) s \<and>
    (tl (skip_stars p) \<noteq> [] \<longrightarrow> \<not> glob_match nocase (parse_glob (tl (skip_stars p))) [])"
  using assms
proof (induction p rule: skip_stars.induct)
  case (1 x y p)
  then show ?case
    by (cases "y = CHR ''*''") (simp_all add: parse_glob_star glob_match_star_star glob_match_Nil)
qed (simp_all add: parse_glob_star)

lemma stringmatch_glob:
  "stringmatchlen nocase p s \<longleftrightarrow> (if s = [] then p = [] else glob_match nocase (parse_glob p) s)"
  "\<not> glob_match nocase (parse_glob p) [] \<Longrightarrow> stringmatch_star nocase p s \<longleftrightarrow> glob_match nocase (AnyString # parse_glob p) s"
  "stringmatch_next nocase p s \<longleftrightarrow> glob_match nocase (parse_glob p) s"
proof (induction nocase p s and nocase p s and nocase p s rule: stringmatchlen_stringmatch_star_stringmatch_next.induct)
  case (1 nocase p s)
  show ?case
  proof (cases "p = [] \<or> s = []")
    case True
    then show ?thesis by (auto simp: stringmatchlen.simps)
  next
    case False
    then obtain x p' c s' where ps: "p = x # p'" "s = c # s'" by (metis neq_Nil_conv)
    consider "x = CHR ''*''" | "x = CHR ''?''" | "x = CHR ''[''" | "x \<noteq> CHR ''*''" "x \<noteq> CHR ''?''" "x \<noteq> CHR ''[''"
      by blast
    then show ?thesis
    proof cases
      case x: 1
      then have star: "stringmatchlen nocase p s \<longleftrightarrow>
          length (skip_stars p) = 1 \<or> stringmatch_star nocase (tl (skip_stars p)) s"
        using ps by (subst stringmatchlen.simps) (simp add: Let_def del: skip_stars.simps)
      note sk = skip_stars_match [of p nocase s] skip_stars_nonempty [of p]
      show ?thesis
      proof (cases "tl (skip_stars p) = []")
        case True
        then have "length (skip_stars p) = 1"
          using sk(2) ps by (cases "skip_stars p") simp_all
        with True star sk(1) x ps show ?thesis
          by (simp add: glob_match_only_star del: skip_stars.simps)
      next
        case F: False
        then have "length (skip_stars p) \<noteq> 1"
          by (cases "skip_stars p") auto
        with F star sk(1) x ps "1.IH"(1) [OF False _ refl] show ?thesis
          by (simp del: skip_stars.simps)
      qed
    next
      case 2
      with ps "1.IH"(2) [OF False] show ?thesis
        by (simp add: stringmatchlen.simps parse_glob.simps(2))
    next
      case x: 3
      define neg where "neg = (p' \<noteq> [] \<and> hd p' = CHR ''^'')"
      define q where "q = (if neg then tl p' else p')"
      have "stringmatch_next nocase (snd (parse_class q)) s' = glob_match nocase (parse_glob (snd (parse_class q))) s'"
        using x ps "1.IH"(3) [OF False _ _ _ refl refl _ refl, simplified class_loop_parse]
        by (cases neg) (auto simp: neg_def q_def)
      then show ?thesis
        using x ps by (simp add: stringmatchlen.simps parse_glob.simps(2)
            class_loop_parse Let_def neg_def [symmetric] q_def [symmetric]) (simp add: neg_def)
    next
      case x: 4
      show ?thesis
      proof (cases "x = CHR 0x5C \<and> p' \<noteq> []")
        case True
        then obtain y q where "p' = y # q" by (cases p') auto
        with True ps x "1.IH"(4) [OF False _ _ _ refl] show ?thesis
          by (simp add: stringmatchlen.simps parse_glob.simps(2))
      next
        case F: False
        with ps x "1.IH"(4) [OF False _ _ _ refl] show ?thesis
          by (cases "x = CHR 0x5C") (simp_all add: stringmatchlen.simps parse_glob.simps(2))
      qed
    qed
  qed
next
  case (2 nocase p s)
  show ?case
  proof (cases "s = []")
    case True
    with "2.prems" show ?thesis
      by (simp add: stringmatch_star.simps [of nocase p "[]"] glob_match_star_Nil)
  next
    case False
    with "2.IH" "2.prems" show ?thesis
      by (simp add: stringmatch_star.simps [of nocase p s] glob_match.simps(2) [of nocase "parse_glob p" s])
  qed
next
  case (3 nocase p s)
  then show ?case
    by (simp add: stringmatch_next.simps [of nocase p s] glob_match_Nil)
qed

text \<open>
  C29. \<open>stringmatchlen\<close>, with its in-place loops and its recursion for \<open>*\<close>, decides the language
  of the pattern: on a non-empty string it returns 1 exactly when the string is in the set
  that the parsed pattern denotes, where \<open>*\<close> stands for any string, \<open>?\<close> for any byte,
  \<open>[...]\<close> for the bytes of a class or outside it, a backslash takes the next byte literally
  and everything else stands for itself, up to case when \<open>nocase\<close> is set.  On the empty
  string it returns 1 for the empty pattern only, so that \<open>*\<close> does not match it.
\<close>

theorem stringmatchlen_decides:
  "stringmatchlen nocase p s \<longleftrightarrow> (if s = [] then p = [] else glob_match nocase (parse_glob p) s)"
  by (rule stringmatch_glob(1))

end
