(* ===== verification/Object.thy ===== *)
theory Object
  imports Util
begin

text \<open>
  The string objects of \<open>src/src/object.c\<close>.  A \<open>robj\<close> of type \<open>OBJ_STRING\<close> holds its bytes in
  a separate (\<open>RAW\<close>) or embedded (\<open>EMBSTR\<close>) string, or is the integer it represents
  (\<open>INT\<close>, with the integer in the pointer field).  Of an object of another type the string
  code only looks at the type, which for a module's type is known by its name.  Reference counts are not part of the model, since values
  are immutable in it; where the code branches on a count it is an argument.  The fields
  that drive eviction are left out.

  An operation that may hit a \<open>serverAssert\<close> or use the pointer field of an integer as a
  string returns an option or a result whose failure is explicit.
\<close>

subsection \<open>Objects\<close>

datatype obj_type = OBJ_LIST | OBJ_SET | OBJ_ZSET | OBJ_HASH | OBJ_MODULE sds | OBJ_STREAM

datatype robj = RawStr sds | EmbStr sds | IntStr int | OtherObj obj_type

fun is_string :: "robj \<Rightarrow> bool" where
  "is_string (OtherObj t) = False"
| "is_string o' = True"

fun sdsEncodedObject :: "robj \<Rightarrow> bool" where
  "sdsEncodedObject (RawStr s) = True"
| "sdsEncodedObject (EmbStr s) = True"
| "sdsEncodedObject o' = False"

text \<open>The pointer field read as a string: only the two string encodings have one.\<close>

fun obj_ptr :: "robj \<Rightarrow> sds option" where
  "obj_ptr (RawStr s) = Some s"
| "obj_ptr (EmbStr s) = Some s"
| "obj_ptr o' = None"

definition OBJ_ENCODING_EMBSTR_SIZE_LIMIT :: nat where
  "OBJ_ENCODING_EMBSTR_SIZE_LIMIT = 44"

definition createRawStringObject :: "sds \<Rightarrow> robj" where
  "createRawStringObject s = RawStr s"

definition createEmbeddedStringObject :: "sds \<Rightarrow> robj" where
  "createEmbeddedStringObject s = EmbStr s"

definition createStringObject :: "sds \<Rightarrow> robj" where
  "createStringObject s =
     (if length s \<le> OBJ_ENCODING_EMBSTR_SIZE_LIMIT then createEmbeddedStringObject s else createRawStringObject s)"

text \<open>
  \<open>sdsll2str\<close> of \<open>src/src/sds.c\<close> writes the digits last one first and then reverses what it
  wrote; \<open>-value\<close> is converted to an unsigned number, which makes the absolute value of
  \<open>LLONG_MIN\<close> come out right.
\<close>

function sdsll2str_loop :: "nat \<Rightarrow> string" where
  "sdsll2str_loop v = digit_char (v mod 10) # (if v div 10 = 0 then [] else sdsll2str_loop (v div 10))"
  by auto
termination by (relation "measure id") auto

definition sdsll2str :: "int \<Rightarrow> string" where
  "sdsll2str v =
     (let n = (if v < 0 then nat (- v) else nat v)
      in rev (sdsll2str_loop n @ (if v < 0 then [CHR ''-''] else [])))"

definition sdsfromlonglong :: "int \<Rightarrow> sds" where
  "sdsfromlonglong v = sdsll2str v"

text \<open>A shared integer and a fresh integer object look alike to every reader.\<close>

definition createStringObjectFromLongLong :: "int \<Rightarrow> robj" where
  "createStringObjectFromLongLong v =
     (if LLONG_MIN \<le> v \<and> v \<le> LLONG_MAX then IntStr v else RawStr (sdsfromlonglong v))"

fun dupStringObject :: "robj \<Rightarrow> robj option" where
  "dupStringObject (RawStr s) = Some (createRawStringObject s)"
| "dupStringObject (EmbStr s) = Some (createEmbeddedStringObject s)"
| "dupStringObject (IntStr v) = Some (IntStr v)"
| "dupStringObject (OtherObj t) = None"

subsection \<open>Encoding and decoding\<close>

definition isSdsRepresentableAsLongLong :: "sds \<Rightarrow> int option" where
  "isSdsRepresentableAsLongLong s = string2ll s"

fun isObjectRepresentableAsLongLong :: "robj \<Rightarrow> int option" where
  "isObjectRepresentableAsLongLong (IntStr v) = Some v"
| "isObjectRepresentableAsLongLong (RawStr s) = isSdsRepresentableAsLongLong s"
| "isObjectRepresentableAsLongLong (EmbStr s) = isSdsRepresentableAsLongLong s"
| "isObjectRepresentableAsLongLong (OtherObj t) = None"

definition tryObjectEncoding_sds :: "nat \<Rightarrow> robj \<Rightarrow> sds \<Rightarrow> robj" where
  "tryObjectEncoding_sds refcount o' s =
     (if refcount > 1 then o'
      else case (if length s \<le> 20 then string2l s else None) of
          Some v \<Rightarrow> IntStr v
        | None \<Rightarrow>
            if length s \<le> OBJ_ENCODING_EMBSTR_SIZE_LIMIT then
              (case o' of EmbStr _ \<Rightarrow> o' | _ \<Rightarrow> createEmbeddedStringObject s)
            else o')"

fun tryObjectEncoding :: "nat \<Rightarrow> robj \<Rightarrow> robj" where
  "tryObjectEncoding refcount (RawStr s) = tryObjectEncoding_sds refcount (RawStr s) s"
| "tryObjectEncoding refcount (EmbStr s) = tryObjectEncoding_sds refcount (EmbStr s) s"
| "tryObjectEncoding refcount o' = o'"

text \<open>\<open>strlen(buf)\<close> of the 32 byte buffer is what precedes the first null byte.\<close>

definition strlen :: "string \<Rightarrow> nat" where
  "strlen s = length (takeWhile (\<lambda>c. c \<noteq> CHR 0x00) s)"

fun getDecodedObject :: "robj \<Rightarrow> robj option" where
  "getDecodedObject (RawStr s) = Some (RawStr s)"
| "getDecodedObject (EmbStr s) = Some (EmbStr s)"
| "getDecodedObject (IntStr v) =
     (let buf = fst (ll2string (replicate 32 CHR 0x00) v) in Some (createStringObject (take (strlen buf) buf)))"
| "getDecodedObject (OtherObj t) = None"

text \<open>\<open>memcmp\<close> on the first \<open>n\<close> bytes: the difference of the first two bytes that differ.\<close>

fun memcmp :: "string \<Rightarrow> string \<Rightarrow> nat \<Rightarrow> int" where
  "memcmp (a # as) (b # bs) (Suc n) = (if a \<noteq> b then of_char a - of_char b else memcmp as bs n)"
| "memcmp as bs n = 0"

fun cmp_bytes :: "robj \<Rightarrow> string option" where
  "cmp_bytes (RawStr s) = Some s"
| "cmp_bytes (EmbStr s) = Some s"
| "cmp_bytes (IntStr v) = (case ll2string (replicate 128 CHR 0x00) v of (buf, len) \<Rightarrow> Some (take len buf))"
| "cmp_bytes (OtherObj t) = None"

definition compareStringObjects :: "robj \<Rightarrow> robj \<Rightarrow> int option" where
  "compareStringObjects a b =
     (case cmp_bytes a of
        None \<Rightarrow> None
      | Some astr \<Rightarrow>
          (case cmp_bytes b of
             None \<Rightarrow> None
           | Some bstr \<Rightarrow>
               let alen = length astr; blen = length bstr; minlen = (if alen < blen then alen else blen);
                   cmp = memcmp astr bstr minlen
               in Some (if cmp = 0 then int alen - int blen else cmp)))"

fun equalStringObjects :: "robj \<Rightarrow> robj \<Rightarrow> bool option" where
  "equalStringObjects (IntStr v) (IntStr w) = Some (v = w)"
| "equalStringObjects a b = map_option (\<lambda>r. r = 0) (compareStringObjects a b)"

fun stringObjectLen :: "robj \<Rightarrow> nat option" where
  "stringObjectLen (RawStr s) = Some (length s)"
| "stringObjectLen (EmbStr s) = Some (length s)"
| "stringObjectLen (IntStr v) = Some (sdigits10 v)"
| "stringObjectLen (OtherObj t) = None"

text \<open>\<open>C_ERR\<close> is \<^const>\<open>None\<close>; a missing object counts as 0.\<close>

fun getLongLongFromObject :: "robj option \<Rightarrow> int option" where
  "getLongLongFromObject None = Some 0"
| "getLongLongFromObject (Some (RawStr s)) = string2ll s"
| "getLongLongFromObject (Some (EmbStr s)) = string2ll s"
| "getLongLongFromObject (Some (IntStr v)) = Some v"
| "getLongLongFromObject (Some (OtherObj t)) = None"

subsection \<open>The string an object stands for\<close>

fun obj_string :: "robj \<Rightarrow> sds" where
  "obj_string (RawStr s) = s"
| "obj_string (EmbStr s) = s"
| "obj_string (IntStr v) = dec_int v"
| "obj_string (OtherObj t) = []"

text \<open>An integer object holds a \<open>long\<close>, an embedded string is short.\<close>

fun robj_ok :: "robj \<Rightarrow> bool" where
  "robj_ok (IntStr v) = is_ll v"
| "robj_ok (EmbStr s) = (length s \<le> OBJ_ENCODING_EMBSTR_SIZE_LIMIT)"
| "robj_ok o' = True"

lemma createStringObject_simps [simp]:
  "obj_string (createStringObject s) = s" "robj_ok (createStringObject s)" "is_string (createStringObject s)"
  "sdsEncodedObject (createStringObject s)" "obj_ptr (createStringObject s) = Some s"
  by (simp_all add: createStringObject_def createEmbeddedStringObject_def createRawStringObject_def)

lemma createStringObjectFromLongLong_simps [simp]:
  "is_ll v \<Longrightarrow> createStringObjectFromLongLong v = IntStr v"
  by (simp add: createStringObjectFromLongLong_def is_ll_def)

declare sdsll2str_loop.simps [simp del]

lemma sdsll2str_loop_dec: "sdsll2str_loop v = rev (dec v)"
proof (induction v rule: sdsll2str_loop.induct)
  case (1 v)
  then show ?case
    by (cases "v < 10") (simp_all add: sdsll2str_loop.simps [of v] dec_small dec_step)
qed

lemma sdsll2str_dec: "sdsll2str v = dec_int v"
  by (simp add: sdsll2str_def sdsll2str_loop_dec dec_int_def)

lemma ll2string_bytes:
  assumes "is_ll v" and "21 \<le> length buf"
  shows "take (snd (ll2string buf v)) (fst (ll2string buf v)) = dec_int v"
    and "take (strlen (fst (ll2string buf v))) (fst (ll2string buf v)) = dec_int v"
proof -
  have "\<not> is_digit CHR 0x00" by (simp add: is_digit_def)
  then have "\<forall>c \<in> set (dec_int v). c \<noteq> CHR 0x00"
    using dec_digits [of _ "nat v"] dec_digits [of _ "nat (- v)"] by (auto simp: dec_int_def)
  then have "takeWhile (\<lambda>c. c \<noteq> CHR 0x00) (dec_int v @ CHR 0x00 # xs) = dec_int v" for xs
    by (simp add: takeWhile_append2)
  then show "take (snd (ll2string buf v)) (fst (ll2string buf v)) = dec_int v"
    and "take (strlen (fst (ll2string buf v))) (fst (ll2string buf v)) = dec_int v"
    using assms length_dec_int [OF assms(1)] by (simp_all add: ll2string_correct strlen_def)
qed

lemma getDecodedObject_string:
  assumes "is_string o'" and "robj_ok o'"
  shows "\<exists>d. getDecodedObject o' = Some d \<and> sdsEncodedObject d \<and> obj_ptr d = Some (obj_string o') \<and> robj_ok d"
  using assms ll2string_bytes [where buf = "replicate 32 CHR 0x00"]
  by (cases o') (auto simp: Let_def)

lemma cmp_bytes_string: "is_string o' \<Longrightarrow> robj_ok o' \<Longrightarrow> cmp_bytes o' = Some (obj_string o')"
  using ll2string_bytes [where buf = "replicate 128 CHR 0x00"] by (cases o') (auto simp: split_beta)

lemma stringObjectLen_string: "is_string o' \<Longrightarrow> robj_ok o' \<Longrightarrow> stringObjectLen o' = Some (length (obj_string o'))"
  by (cases o') (simp_all add: sdigits10_length)

lemma getLongLongFromObject_iff:
  "is_string o' \<Longrightarrow> robj_ok o' \<Longrightarrow> getLongLongFromObject (Some o') = Some v \<longleftrightarrow> is_ll v \<and> obj_string o' = dec_int v"
proof (cases o')
  case (IntStr w)
  assume "robj_ok o'"
  moreover have "dec_int w = dec_int v \<and> is_ll v \<and> is_ll w \<longrightarrow> w = v"
    using string2ll_iff [of "dec_int v" v] string2ll_iff [of "dec_int v" w] by auto
  ultimately show ?thesis using IntStr by auto
qed (simp_all add: string2ll_iff)

lemma getLongLongFromObject_ll: "(\<forall>o''. o' = Some o'' \<longrightarrow> robj_ok o'') \<Longrightarrow> getLongLongFromObject o' = Some v \<Longrightarrow> is_ll v"
  by (cases o' rule: getLongLongFromObject.cases) (auto simp: string2ll_iff is_ll_def LLONG_MIN_def LLONG_MAX_def)

lemma tryObjectEncoding_string:
  assumes "robj_ok o'"
  shows "obj_string (tryObjectEncoding rc o') = obj_string o'" and "robj_ok (tryObjectEncoding rc o')"
    and "is_string (tryObjectEncoding rc o') = is_string o'"
  using assms string2ll_iff
  by (cases o'; auto simp: tryObjectEncoding_sds_def string2l_string2ll createEmbeddedStringObject_def
      split: option.splits if_splits)+

lemma tryObjectEncoding_int:
  assumes "sdsEncodedObject o'" and "rc \<le> 1"
  shows "(\<exists>v. tryObjectEncoding rc o' = IntStr v) \<longleftrightarrow> (\<exists>v. is_ll v \<and> obj_string o' = dec_int v)"
proof -
  have *: "(\<exists>v. tryObjectEncoding_sds rc o' s = IntStr v) \<longleftrightarrow> (\<exists>v. is_ll v \<and> s = dec_int v)" for s
  proof (cases "string2l s")
    case None
    then have "\<not> (\<exists>v. is_ll v \<and> s = dec_int v)"
      using string2ll_iff [of s] by (simp add: string2l_string2ll)
    with None assms show ?thesis
      by (cases o') (auto simp: tryObjectEncoding_sds_def createEmbeddedStringObject_def)
  next
    case (Some v)
    then have "is_ll v" "s = dec_int v"
      using string2ll_iff [of s v] by (simp_all add: string2l_string2ll)
    moreover have "length s \<le> 20"
      using calculation length_dec_int by simp
    ultimately show ?thesis
      using Some assms by (auto simp: tryObjectEncoding_sds_def)
  qed
  show ?thesis
    using assms(1) * by (cases o') auto
qed

lemma memcmp_zero: "n \<le> length a \<Longrightarrow> n \<le> length b \<Longrightarrow> memcmp a b n = 0 \<longleftrightarrow> take n a = take n b"
proof (induction a b n rule: memcmp.induct)
  case (1 a as b bs n)
  have "a \<noteq> b \<Longrightarrow> (of_char a :: int) \<noteq> of_char b" by simp
  with 1 show ?case by auto
qed auto

lemma equal_take_min: "length a = length b \<Longrightarrow> take (min (length a) (length b)) a = take (min (length a) (length b)) b \<Longrightarrow> a = b"
  by simp

lemma compareStringObjects_zero:
  assumes "is_string a" "robj_ok a" "is_string b" "robj_ok b"
  shows "compareStringObjects a b \<noteq> None" and "compareStringObjects a b = Some 0 \<longleftrightarrow> obj_string a = obj_string b"
  using assms memcmp_zero [of _ "obj_string a" "obj_string b"]
  by (auto simp: compareStringObjects_def cmp_bytes_string Let_def split: if_splits)

subsection \<open>Properties of string objects\<close>

text \<open>
  C30. Encoding a string object loses nothing: \<open>tryObjectEncoding\<close> keeps the object valid and
  its string the same, turns it into an integer object exactly when its string is the
  canonical decimal representation of a \<open>long\<close> (and the object is not shared), and
  \<open>getDecodedObject\<close> of the result, which never panics, gives a string-encoded object with
  the original string; \<open>stringObjectLen\<close> agrees before and after.
\<close>

theorem object_encoding_lossless:
  assumes "sdsEncodedObject o'" and "robj_ok o'"
  shows "robj_ok (tryObjectEncoding rc o') \<and> obj_string (tryObjectEncoding rc o') = obj_string o' \<and>
    (rc \<le> 1 \<longrightarrow> ((\<exists>v. tryObjectEncoding rc o' = IntStr v) \<longleftrightarrow> (\<exists>v. is_ll v \<and> obj_string o' = dec_int v))) \<and>
    Option.bind (getDecodedObject (tryObjectEncoding rc o')) obj_ptr = obj_ptr o' \<and>
    stringObjectLen (tryObjectEncoding rc o') = stringObjectLen o'"
proof -
  have s: "is_string o'" "obj_ptr o' = Some (obj_string o')"
    using assms(1) by (cases o'; simp)+
  note t = tryObjectEncoding_string [OF assms(2), of rc]
  show ?thesis
    using t s tryObjectEncoding_int [OF assms(1), of rc] getDecodedObject_string [of "tryObjectEncoding rc o'"]
      stringObjectLen_string [of "tryObjectEncoding rc o'"] stringObjectLen_string [of o'] assms(2)
    by auto
qed

theorem object_encoding_lossless_witness:
  "obj_string (tryObjectEncoding 1 (EmbStr ''-12'')) = ''-12''"
  using object_encoding_lossless [of "EmbStr ''-12''" 1] by (simp add: OBJ_ENCODING_EMBSTR_SIZE_LIMIT_def)



end
