(* ===== verification/Sds.thy ===== *)
theory Sds
  imports Object "HOL-Library.Monad_Syntax"
begin

text \<open>
  The dynamic strings of \<open>src/src/sds.c\<close> and \<open>src/src/sds.h\<close>.

  The first part has the memory layout: a header of one of five sizes, whose fields are as
  wide as the type says, and a buffer of bytes that may not have been written yet.  A read or
  write beyond the buffer, a read of a byte that was never written, and a failed \<open>assert\<close> are
  \<^const>\<open>None\<close>; the allocator does not fail (\<open>zmalloc\<close> ends the process if it has to).  \<open>size_t\<close> is
  a natural number below \<open>2 ^ 64\<close>, with the wrap-around written out.

  The second part has the functions that work on the contents of strings, on byte lists.
\<close>

subsection \<open>Headers\<close>

datatype sds_type = SDS_TYPE_5 | SDS_TYPE_8 | SDS_TYPE_16 | SDS_TYPE_32 | SDS_TYPE_64

record sdshdr =
  hdr_type :: sds_type
  hdr_len :: nat
  hdr_alloc :: nat
  hdr_buf :: "char option list"

definition size_t :: "nat \<Rightarrow> nat" where
  "size_t n = n mod 2 ^ 64"

text \<open>The bits of the length field; a header of type 5 has the length in the upper bits of the flags.\<close>

fun type_bits :: "sds_type \<Rightarrow> nat" where
  "type_bits SDS_TYPE_5 = 5"
| "type_bits SDS_TYPE_8 = 8"
| "type_bits SDS_TYPE_16 = 16"
| "type_bits SDS_TYPE_32 = 32"
| "type_bits SDS_TYPE_64 = 64"

fun sdsHdrSize :: "sds_type \<Rightarrow> nat" where
  "sdsHdrSize SDS_TYPE_5 = 1"
| "sdsHdrSize SDS_TYPE_8 = 3"
| "sdsHdrSize SDS_TYPE_16 = 5"
| "sdsHdrSize SDS_TYPE_32 = 9"
| "sdsHdrSize SDS_TYPE_64 = 17"

definition sdsReqType :: "nat \<Rightarrow> sds_type" where
  "sdsReqType string_size =
     (if string_size < 32 then SDS_TYPE_5
      else if string_size < 256 then SDS_TYPE_8
      else if string_size < 65536 then SDS_TYPE_16
      else if string_size < 4294967296 then SDS_TYPE_32
      else SDS_TYPE_64)"

definition sdslen :: "sdshdr \<Rightarrow> nat" where
  "sdslen s = hdr_len s"

definition sdsavail :: "sdshdr \<Rightarrow> nat" where
  "sdsavail s = (if hdr_type s = SDS_TYPE_5 then 0 else hdr_alloc s - hdr_len s)"

definition sdssetlen :: "nat \<Rightarrow> sdshdr \<Rightarrow> sdshdr" where
  "sdssetlen newlen s = s\<lparr>hdr_len := newlen mod 2 ^ type_bits (hdr_type s)\<rparr>"

definition sdsinclen :: "nat \<Rightarrow> sdshdr \<Rightarrow> sdshdr" where
  "sdsinclen inc s = s\<lparr>hdr_len := (hdr_len s + inc) mod 2 ^ type_bits (hdr_type s)\<rparr>"

definition sdsalloc :: "sdshdr \<Rightarrow> nat" where
  "sdsalloc s = (if hdr_type s = SDS_TYPE_5 then hdr_len s else hdr_alloc s)"

definition sdssetalloc :: "nat \<Rightarrow> sdshdr \<Rightarrow> sdshdr" where
  "sdssetalloc newlen s =
     (if hdr_type s = SDS_TYPE_5 then s else s\<lparr>hdr_alloc := newlen mod 2 ^ type_bits (hdr_type s)\<rparr>)"

subsection \<open>Memory\<close>

definition mem_put :: "nat \<Rightarrow> char option list \<Rightarrow> char option list \<Rightarrow> char option list option" where
  "mem_put pos bs buf = (if pos + length bs \<le> length buf then Some (take pos buf @ bs @ drop (pos + length bs) buf) else None)"

definition mem_get :: "nat \<Rightarrow> nat \<Rightarrow> char option list \<Rightarrow> char option list option" where
  "mem_get pos n buf = (if pos + n \<le> length buf then Some (take n (drop pos buf)) else None)"

text \<open>
  The bytes after the header in a block for \<open>newlen\<close> bytes and the terminator; the header has to
  fit into the block.
\<close>

definition block :: "nat \<Rightarrow> nat \<Rightarrow> nat option" where
  "block hdrlen newlen = (let n = size_t (hdrlen + newlen + 1) in if n < hdrlen then None else Some (n - hdrlen))"

definition write_buf :: "nat \<Rightarrow> sds \<Rightarrow> sdshdr \<Rightarrow> sdshdr option" where
  "write_buf pos bs s = map_option (\<lambda>b. s\<lparr>hdr_buf := b\<rparr>) (mem_put pos (map Some bs) (hdr_buf s))"

subsection \<open>Creation and growth\<close>

text \<open>The pointer argument of \<open>sdsnewlen\<close>: null, the marker \<open>SDS_NOINIT\<close>, or bytes.\<close>

datatype sds_init = Init_null | Init_noinit | Init_bytes sds

definition sdsnewlen :: "sds_init \<Rightarrow> nat \<Rightarrow> sdshdr option" where
  "sdsnewlen init initlen = do {
     let type = sdsReqType initlen;
     let type = (if type = SDS_TYPE_5 \<and> initlen = 0 then SDS_TYPE_8 else type);
     n \<leftarrow> block (sdsHdrSize type) initlen;
     let s = \<lparr>hdr_type = type, hdr_len = initlen mod 2 ^ type_bits type, hdr_alloc = initlen mod 2 ^ type_bits type,
              hdr_buf = replicate n (if init = Init_null then Some CHR 0x00 else None)\<rparr>;
     s \<leftarrow> (case init of Init_bytes t \<Rightarrow> if initlen \<le> length t then write_buf 0 (take initlen t) s else None | _ \<Rightarrow> Some s);
     write_buf initlen [CHR 0x00] s
   }"

definition sdsempty :: "sdshdr option" where
  "sdsempty = sdsnewlen (Init_bytes []) 0"

text \<open>The contents, if every byte of them was written.\<close>

definition sds_bytes :: "sdshdr \<Rightarrow> sds option" where
  "sds_bytes s = those (take (sdslen s) (hdr_buf s))"

definition sdsnew :: "sds \<Rightarrow> sdshdr option" where
  "sdsnew init = sdsnewlen (Init_bytes init) (strlen init)"

definition sdsdup :: "sdshdr \<Rightarrow> sdshdr option" where
  "sdsdup s = do { t \<leftarrow> sds_bytes s; sdsnewlen (Init_bytes t) (sdslen s) }"

definition SDS_MAX_PREALLOC :: nat where
  "SDS_MAX_PREALLOC = 1024 * 1024"

text \<open>\<open>realloc\<close> keeps the bytes that fit; a new block starts with nothing written.\<close>

definition resize :: "nat \<Rightarrow> char option list \<Rightarrow> char option list" where
  "resize n buf = take n buf @ replicate (n - length buf) None"

definition prealloc :: "nat \<Rightarrow> nat" where
  "prealloc newlen = (if newlen < SDS_MAX_PREALLOC then size_t (newlen * 2) else size_t (newlen + SDS_MAX_PREALLOC))"

text \<open>A string that is appended to never has the smallest header, which cannot remember free space.\<close>

definition append_type :: "nat \<Rightarrow> sds_type" where
  "append_type newlen = (if sdsReqType newlen = SDS_TYPE_5 then SDS_TYPE_8 else sdsReqType newlen)"

definition sdsMakeRoomFor :: "nat \<Rightarrow> sdshdr \<Rightarrow> sdshdr option" where
  "sdsMakeRoomFor addlen s =
     (if sdsavail s \<ge> addlen then Some s
      else do {
        let len = sdslen s;
        let newlen = prealloc (size_t (len + addlen));
        let type = append_type newlen;
        n \<leftarrow> block (sdsHdrSize type) newlen;
        s \<leftarrow> (if hdr_type s = type then Some (s\<lparr>hdr_buf := resize n (hdr_buf s)\<rparr>)
             else do {
               old \<leftarrow> mem_get 0 (len + 1) (hdr_buf s);
               buf \<leftarrow> mem_put 0 old (replicate n None);
               Some (sdssetlen len (s\<lparr>hdr_type := type, hdr_buf := buf\<rparr>))
             });
        Some (sdssetalloc newlen s)
      })"

definition sdsRemoveFreeSpace :: "sdshdr \<Rightarrow> sdshdr option" where
  "sdsRemoveFreeSpace s =
     (if sdsavail s = 0 then Some s
      else do {
        let len = sdslen s;
        let type = sdsReqType len;
        s \<leftarrow> (if hdr_type s = type \<or> (type \<noteq> SDS_TYPE_5 \<and> type \<noteq> SDS_TYPE_8) then do {
                n \<leftarrow> block (sdsHdrSize (hdr_type s)) len;
                Some (s\<lparr>hdr_buf := resize n (hdr_buf s)\<rparr>)
              } else do {
                n \<leftarrow> block (sdsHdrSize type) len;
                old \<leftarrow> mem_get 0 (len + 1) (hdr_buf s);
                buf \<leftarrow> mem_put 0 old (replicate n None);
                Some (sdssetlen len (s\<lparr>hdr_type := type, hdr_buf := buf\<rparr>))
              });
        Some (sdssetalloc len s)
      })"

definition sdsAllocSize :: "sdshdr \<Rightarrow> nat" where
  "sdsAllocSize s = sdsHdrSize (hdr_type s) + sdsalloc s + 1"

subsection \<open>Changes of length\<close>

definition sdsclear :: "sdshdr \<Rightarrow> sdshdr option" where
  "sdsclear s = write_buf 0 [CHR 0x00] (sdssetlen 0 s)"

text \<open>\<open>strlen\<close> reads up to the first null byte.\<close>

fun buf_strlen :: "char option list \<Rightarrow> nat option" where
  "buf_strlen [] = None"
| "buf_strlen (None # _) = None"
| "buf_strlen (Some c # rest) = (if c = CHR 0x00 then Some 0 else map_option Suc (buf_strlen rest))"

definition sdsupdatelen :: "sdshdr \<Rightarrow> sdshdr option" where
  "sdsupdatelen s = map_option (\<lambda>reallen. sdssetlen reallen s) (buf_strlen (hdr_buf s))"

text \<open>The negated increment is taken for an \<open>unsigned int\<close> except with the widest header.\<close>

definition neg_incr :: "sds_type \<Rightarrow> int \<Rightarrow> nat" where
  "neg_incr type incr = nat (- incr) mod (if type = SDS_TYPE_64 then 2 ^ 64 else 2 ^ 32)"

definition sdsIncrLen :: "int \<Rightarrow> sdshdr \<Rightarrow> sdshdr option" where
  "sdsIncrLen incr s =
     (if hdr_type s = SDS_TYPE_5 then
        if (incr > 0 \<and> int (hdr_len s) + incr < 32) \<or> (incr < 0 \<and> hdr_len s \<ge> neg_incr SDS_TYPE_5 incr)
        then (let len = nat ((int (hdr_len s) + incr) mod 32) in write_buf len [CHR 0x00] (s\<lparr>hdr_len := len\<rparr>))
        else None
      else
        if (incr \<ge> 0 \<and> int (hdr_alloc s) - int (hdr_len s) \<ge> incr) \<or> (incr < 0 \<and> hdr_len s \<ge> neg_incr (hdr_type s) incr)
        then (let len = nat ((int (hdr_len s) + incr) mod 2 ^ type_bits (hdr_type s))
              in write_buf len [CHR 0x00] (s\<lparr>hdr_len := len\<rparr>))
        else None)"

definition sdsgrowzero_buf :: "nat \<Rightarrow> sdshdr \<Rightarrow> sdshdr option" where
  "sdsgrowzero_buf len s =
     (let curlen = sdslen s
      in if len \<le> curlen then Some s
         else do {
           s \<leftarrow> sdsMakeRoomFor (len - curlen) s;
           s \<leftarrow> write_buf curlen (replicate (len - curlen + 1) CHR 0x00) s;
           Some (sdssetlen len s)
         })"

definition sdscatlen :: "sds \<Rightarrow> sdshdr \<Rightarrow> sdshdr option" where
  "sdscatlen t s = do {
     let curlen = sdslen s;
     s \<leftarrow> sdsMakeRoomFor (length t) s;
     s \<leftarrow> write_buf curlen t s;
     write_buf (curlen + length t) [CHR 0x00] (sdssetlen (curlen + length t) s)
   }"

definition sdscpylen :: "sds \<Rightarrow> sdshdr \<Rightarrow> sdshdr option" where
  "sdscpylen t s = do {
     s \<leftarrow> (if sdsalloc s < length t then sdsMakeRoomFor (length t - sdslen s) s else Some s);
     s \<leftarrow> write_buf 0 t s;
     s \<leftarrow> write_buf (length t) [CHR 0x00] s;
     Some (sdssetlen (length t) s)
   }"
definition sdscatsds :: "sdshdr \<Rightarrow> sdshdr \<Rightarrow> sdshdr option" where
  "sdscatsds t s = do { u \<leftarrow> sds_bytes t; sdscatlen u s }"

subsection \<open>Parts of a string\<close>

text \<open>\<open>strchr\<close> also finds the null byte that ends the set.\<close>

definition in_cset :: "sds \<Rightarrow> char \<Rightarrow> bool" where
  "in_cset cset c \<longleftrightarrow> c \<in> set cset \<or> c = CHR 0x00"

text \<open>The two loops of \<open>sdstrim\<close>: the index from the left, and the one from the right.\<close>

fun trim_start :: "sds \<Rightarrow> sds \<Rightarrow> nat" where
  "trim_start cset [] = 0"
| "trim_start cset (c # rest) = (if in_cset cset c then Suc (trim_start cset rest) else 0)"

function trim_end :: "sds \<Rightarrow> sds \<Rightarrow> nat \<Rightarrow> int \<Rightarrow> int" where
  "trim_end cset t sp ep = (if ep > int sp \<and> in_cset cset (t ! nat ep) then trim_end cset t sp (ep - 1) else ep)"
  by auto
termination by (relation "measure (\<lambda>(cset, t, sp, ep). nat ep)") auto

declare trim_end.simps [simp del]

definition sdstrim :: "sds \<Rightarrow> sdshdr \<Rightarrow> sdshdr option" where
  "sdstrim cset s = do {
     t \<leftarrow> sds_bytes s;
     let sp = trim_start cset t;
     let ep = trim_end cset t sp (int (sdslen s) - 1);
     let len = (if int sp > ep then 0 else nat (ep - int sp) + 1);
     s \<leftarrow> (if sp \<noteq> 0 then write_buf 0 (take len (drop sp t)) s else Some s);
     s \<leftarrow> write_buf len [CHR 0x00] s;
     Some (sdssetlen len s)
   }"

text \<open>The sum of an unsigned length and a signed index is read as a signed number of 64 bits.\<close>

definition ssize_t :: "int \<Rightarrow> int" where
  "ssize_t v = (v + 2 ^ 63) mod 2 ^ 64 - 2 ^ 63"

definition range_bounds :: "nat \<Rightarrow> int \<Rightarrow> int \<Rightarrow> nat \<times> nat" where
  "range_bounds len start end' =
     (let start = (if start < 0 then max 0 (ssize_t (int len + start)) else start);
          end' = (if end' < 0 then max 0 (ssize_t (int len + end')) else end');
          newlen = (if start > end' then 0 else nat (end' - start) + 1)
      in if newlen \<noteq> 0 then
           if start \<ge> int len then (nat start, 0)
           else if end' \<ge> int len then (nat start, if start > int len - 1 then 0 else nat (int len - 1 - start) + 1)
           else (nat start, newlen)
         else (0, newlen))"

definition sdsrange :: "int \<Rightarrow> int \<Rightarrow> sdshdr \<Rightarrow> sdshdr option" where
  "sdsrange start end' s =
     (let len = sdslen s
      in if len = 0 then Some s
         else do {
           let (start, newlen) = range_bounds len start end';
           s \<leftarrow> (if start \<noteq> 0 \<and> newlen \<noteq> 0 then do {
                   part \<leftarrow> mem_get start newlen (hdr_buf s);
                   buf \<leftarrow> mem_put 0 part (hdr_buf s);
                   Some (s\<lparr>hdr_buf := buf\<rparr>)
                 } else Some s);
           s \<leftarrow> write_buf newlen [CHR 0x00] s;
           Some (sdssetlen newlen s)
         })"

definition sdscmp :: "sdshdr \<Rightarrow> sdshdr \<Rightarrow> int option" where
  "sdscmp s1 s2 = do {
     t1 \<leftarrow> sds_bytes s1;
     t2 \<leftarrow> sds_bytes s2;
     let l1 = sdslen s1;
     let l2 = sdslen s2;
     let cmp = memcmp t1 t2 (if l1 < l2 then l1 else l2);
     Some (if cmp = 0 then (if l1 > l2 then 1 else if l1 < l2 then -1 else 0) else cmp)
   }"

subsection \<open>Splitting and joining\<close>

text \<open>
  The loop of \<open>sdssplitlen\<close>: \<open>cur\<close> are the bytes from \<open>start\<close> to \<open>j\<close>, \<open>rest\<close> the bytes from \<open>j\<close> on.
  A string without bytes has no elements.
\<close>

function split_loop :: "sds \<Rightarrow> sds \<Rightarrow> sds \<Rightarrow> sds list" where
  "split_loop sep cur rest =
     (if length rest < length sep \<or> sep = [] then [cur @ rest]
      else if take (length sep) rest = sep then cur # split_loop sep [] (drop (length sep) rest)
      else split_loop sep (cur @ [hd rest]) (tl rest))"
  by auto
termination by (relation "measure (\<lambda>(sep, cur, rest). length rest)") (auto simp flip: length_greater_0_conv)

declare split_loop.simps [simp del]

definition sdssplitlen :: "sds \<Rightarrow> sds \<Rightarrow> sds list option" where
  "sdssplitlen s sep =
     (if length sep < 1 then None else if s = [] then Some [] else Some (split_loop sep [] s))"

fun join_loop :: "sds list \<Rightarrow> sds \<Rightarrow> sdshdr \<Rightarrow> sdshdr option" where
  "join_loop [] sep join = Some join"
| "join_loop (a # rest) sep join = do {
     join \<leftarrow> sdscatlen a join;
     join \<leftarrow> (if rest \<noteq> [] then sdscatlen sep join else Some join);
     join_loop rest sep join
   }"

definition sdsjoinsds :: "sds list \<Rightarrow> sds \<Rightarrow> sdshdr option" where
  "sdsjoinsds argv sep = do { join \<leftarrow> sdsempty; join_loop argv sep join }"

definition sdsmapchars :: "sds \<Rightarrow> sds \<Rightarrow> sds \<Rightarrow> sds" where
  "sdsmapchars from to s = map (\<lambda>c. case map_of (zip from to) c of None \<Rightarrow> c | Some d \<Rightarrow> d) s"

subsection \<open>Quoting\<close>

definition isprint :: "char \<Rightarrow> bool" where
  "isprint c \<longleftrightarrow> 32 \<le> (of_char c :: nat) \<and> (of_char c :: nat) \<le> 126"

definition isspace :: "char \<Rightarrow> bool" where
  "isspace c \<longleftrightarrow> c = CHR 0x20 \<or> 9 \<le> (of_char c :: nat) \<and> (of_char c :: nat) \<le> 13"

definition hex_char :: "nat \<Rightarrow> char" where
  "hex_char n = ''0123456789abcdef'' ! n"

text \<open>What \<open>sdscatrepr\<close> appends for one byte.\<close>

definition repr_char :: "char \<Rightarrow> sds" where
  "repr_char c =
     (if c = CHR 0x5C \<or> c = CHR 0x22 then [CHR 0x5C, c]
      else if c = CHR 0x0A then [CHR 0x5C, CHR ''n'']
      else if c = CHR 0x0D then [CHR 0x5C, CHR ''r'']
      else if c = CHR 0x09 then [CHR 0x5C, CHR ''t'']
      else if c = CHR 0x07 then [CHR 0x5C, CHR ''a'']
      else if c = CHR 0x08 then [CHR 0x5C, CHR ''b'']
      else if isprint c then [c]
      else [CHR 0x5C, CHR ''x'', hex_char (of_char c div 16), hex_char (of_char c mod 16)])"

fun repr_loop :: "sds \<Rightarrow> sdshdr \<Rightarrow> sdshdr option" where
  "repr_loop [] s = Some s"
| "repr_loop (c # p) s = do { s \<leftarrow> sdscatlen (repr_char c) s; repr_loop p s }"

definition sdscatrepr :: "sdshdr \<Rightarrow> sds \<Rightarrow> sdshdr option" where
  "sdscatrepr s p = do {
     s \<leftarrow> sdscatlen [CHR 0x22] s;
     s \<leftarrow> repr_loop p s;
     sdscatlen [CHR 0x22] s
   }"

definition is_hex_digit :: "char \<Rightarrow> bool" where
  "is_hex_digit c \<longleftrightarrow> c \<in> set ''0123456789abcdefABCDEF''"

definition hex_digit_to_int :: "char \<Rightarrow> nat" where
  "hex_digit_to_int c =
     (let n = of_char c
      in if 48 \<le> n \<and> n \<le> 57 then n - 48 else if 97 \<le> n \<and> n \<le> 102 then n - 87 else if 65 \<le> n \<and> n \<le> 70 then n - 55 else 0)"

definition unescape :: "char \<Rightarrow> char" where
  "unescape c =
     (if c = CHR ''n'' then CHR 0x0A else if c = CHR ''r'' then CHR 0x0D else if c = CHR ''t'' then CHR 0x09
      else if c = CHR ''b'' then CHR 0x08 else if c = CHR ''a'' then CHR 0x07 else c)"

text \<open>
  The loop over the bytes of one argument, in plain text, in quotes or in single quotes; the
  list ends where the C string has its null byte.  The result is the argument and the rest of
  the line; \<^const>\<open>None\<close> is the error.
\<close>

datatype quoting = Plain | Inq | Insq

definition quote_ends :: "sds \<Rightarrow> bool" where
  "quote_ends rest \<longleftrightarrow> rest = [] \<or> isspace (hd rest)"

fun token :: "quoting \<Rightarrow> sds \<Rightarrow> sds \<Rightarrow> (sds \<times> sds) option" where
  "token Inq [] current = None"
| "token Inq (c # p) current =
     (if c = CHR 0x5C \<and> length p \<ge> 3 \<and> p ! 0 = CHR ''x'' \<and> is_hex_digit (p ! 1) \<and> is_hex_digit (p ! 2)
      then token Inq (drop 3 p) (current @ [char_of (hex_digit_to_int (p ! 1) * 16 + hex_digit_to_int (p ! 2))])
      else if c = CHR 0x5C \<and> p \<noteq> [] then token Inq (tl p) (current @ [unescape (hd p)])
      else if c = CHR 0x22 then (if quote_ends p then Some (current, p) else None)
      else token Inq p (current @ [c]))"
| "token Insq [] current = None"
| "token Insq (c # p) current =
     (if c = CHR 0x5C \<and> p \<noteq> [] \<and> hd p = CHR 0x27 then token Insq (tl p) (current @ [CHR 0x27])
      else if c = CHR 0x27 then (if quote_ends p then Some (current, p) else None)
      else token Insq p (current @ [c]))"
| "token Plain [] current = Some (current, [])"
| "token Plain (c # p) current =
     (if c = CHR 0x20 \<or> c = CHR 0x0A \<or> c = CHR 0x0D \<or> c = CHR 0x09 then Some (current, p)
      else if c = CHR 0x22 then token Inq p current
      else if c = CHR 0x27 then token Insq p current
      else token Plain p (current @ [c]))"
lemma token_length: "token q p current = Some (current', p') \<Longrightarrow> length p' \<le> length p - 1"
proof (induction p arbitrary: q current rule: measure_induct_rule [of length])
  case (less p)
  show ?case
  proof (cases p)
    case Nil
    then show ?thesis using less.prems by (cases q) auto
  next
    case (Cons c ps)
    have ih: "length p' \<le> length ps" if "length y \<le> length ps" "token q' y cur = Some (current', p')" for y q' cur
      using less.IH [of y q' cur] that Cons by simp
    show ?thesis
      using less.prems Cons ih [of ps] ih [of "drop 3 ps"] ih [of "tl ps"] by (cases q) (auto split: if_splits)
  qed
qed

text \<open>The loop over the arguments of a line; \<open>vector\<close> are the ones before.\<close>

function split_args :: "sds \<Rightarrow> sds list \<Rightarrow> sds list option" where
  "split_args p vector =
     (let p = dropWhile isspace p
      in if p = [] then Some vector
         else case token Plain p [] of None \<Rightarrow> None | Some (current, p') \<Rightarrow> split_args p' (vector @ [current]))"
  by auto
termination
proof (relation "measure (\<lambda>(p, vector). length p)")
  fix p vector q x a b
  assume "q = dropWhile isspace p" "q \<noteq> []" "token Plain q [] = Some x" "(a, b) = x"
  then have "length b \<le> length q - 1" "length q \<le> length p" "0 < length q"
    using token_length [of Plain q "[]" a b] length_dropWhile_le [of isspace p] by simp_all
  then have "length b < length p" by linarith
  then show "((b, vector @ [a]), (p, vector)) \<in> measure (\<lambda>(p, vector). length p)"
    by simp
qed simp

declare split_args.simps [simp del]

definition sdssplitargs :: "sds \<Rightarrow> sds list option" where
  "sdssplitargs line = split_args (takeWhile (\<lambda>c. c \<noteq> CHR 0x00) line) []"

definition sdstolower :: "sds \<Rightarrow> sds" where
  "sdstolower s = map (\<lambda>c. char_of (tolower (schar c))) s"

definition toupper :: "int \<Rightarrow> int" where
  "toupper c = (if 97 \<le> c \<and> c \<le> 122 then c - 32 else c)"

definition sdstoupper :: "sds \<Rightarrow> sds" where
  "sdstoupper s = map (\<lambda>c. char_of (toupper (schar c))) s"

subsection \<open>Formats\<close>

definition c_string :: "sds \<Rightarrow> sds" where
  "c_string t = take (strlen t) t"

definition sdscat :: "sds \<Rightarrow> sdshdr \<Rightarrow> sdshdr option" where
  "sdscat t s = sdscatlen (c_string t) s"

definition sdscpy :: "sds \<Rightarrow> sdshdr \<Rightarrow> sdshdr option" where
  "sdscpy t s = sdscpylen (c_string t) s"

text \<open>
  \<open>sdscatvprintf\<close>: \<open>out\<close> is what \<open>vsnprintf\<close> makes of the format and its arguments; a buffer of
  \<open>buflen\<close> bytes gets its first \<open>buflen - 1\<close> bytes.  The last byte but one, which was set to null, tells
  whether the buffer was too small.  A buffer has never less than 1024 bytes.
\<close>

function vprintf_loop :: "sds \<Rightarrow> nat \<Rightarrow> sds" where
  "vprintf_loop out buflen =
     (if 2 \<le> buflen \<and> buflen - 2 < length out \<and> out ! (buflen - 2) \<noteq> CHR 0x00 then vprintf_loop out (buflen * 2)
      else take (buflen - 1) out)"
  by auto
termination by (relation "measure (\<lambda>(out, buflen). length out + 2 - buflen)") auto

declare vprintf_loop.simps [simp del]

definition sdscatvprintf :: "sds \<Rightarrow> sds \<Rightarrow> sdshdr \<Rightarrow> sdshdr option" where
  "sdscatvprintf fmt out s =
     (let buflen = strlen fmt * 2;
          buflen = (if buflen > 1024 then buflen else 1024)
      in sdscat (vprintf_loop out buflen) s)"

text \<open>The digits of \<open>sdsull2str\<close> come in reverse, as those of \<open>sdsll2str\<close> do.\<close>

definition sdsull2str :: "nat \<Rightarrow> string" where
  "sdsull2str v = rev (sdsll2str_loop v)"

text \<open>
  The arguments of \<open>sdscatfmt\<close>, by the type the directive has to ask for.  An argument that is
  missing or has another type is undefined behaviour, as is a format that ends in the middle of a
  directive: the loop then passes the end of the format.
\<close>

datatype fmt_arg = Arg_str sds | Arg_sds sds | Arg_int int | Arg_ll int | Arg_uint nat | Arg_ull nat

definition is_directive :: "char \<Rightarrow> bool" where
  "is_directive next \<longleftrightarrow> next \<in> set ''sSiIuU''"

fun fmt_text :: "char \<Rightarrow> fmt_arg \<Rightarrow> sds option" where
  "fmt_text next (Arg_str t) = (if next = CHR ''s'' then Some (c_string t) else None)"
| "fmt_text next (Arg_sds t) = (if next = CHR ''S'' then Some t else None)"
| "fmt_text next (Arg_int n) = (if next = CHR ''i'' then Some (sdsll2str n) else None)"
| "fmt_text next (Arg_ll n) = (if next = CHR ''I'' then Some (sdsll2str n) else None)"
| "fmt_text next (Arg_uint n) = (if next = CHR ''u'' then Some (sdsull2str n) else None)"
| "fmt_text next (Arg_ull n) = (if next = CHR ''U'' then Some (sdsull2str n) else None)"

definition fmt_put :: "sds \<Rightarrow> nat \<Rightarrow> sdshdr \<Rightarrow> sdshdr option" where
  "fmt_put str i s = do {
     s \<leftarrow> (if sdsavail s < length str then sdsMakeRoomFor (length str) s else Some s);
     s \<leftarrow> write_buf i str s;
     Some (sdsinclen (length str) s)
   }"

definition fmt_char :: "char \<Rightarrow> nat \<Rightarrow> sdshdr \<Rightarrow> sdshdr option" where
  "fmt_char c i s = map_option (sdsinclen 1) (write_buf i [c] s)"

fun fmt_loop :: "sds \<Rightarrow> fmt_arg list \<Rightarrow> nat \<Rightarrow> sdshdr \<Rightarrow> (nat \<times> sdshdr) option" where
  "fmt_loop [] ap i s = Some (i, s)"
| "fmt_loop (c # f) ap i s = do {
     s \<leftarrow> (if sdsavail s = 0 then sdsMakeRoomFor 1 s else Some s);
     if c = CHR ''%'' then
       case f of
         [] \<Rightarrow> None
       | next # f \<Rightarrow>
           if is_directive next then
             case ap of
               [] \<Rightarrow> None
             | a # ap \<Rightarrow> do {
                 str \<leftarrow> fmt_text next a;
                 s \<leftarrow> fmt_put str i s;
                 fmt_loop f ap (i + length str) s
               }
           else do {
             s \<leftarrow> fmt_char next i s;
             fmt_loop f ap (i + 1) s
           }
     else do {
       s \<leftarrow> fmt_char c i s;
       fmt_loop f ap (i + 1) s
     }
   }"

definition sdscatfmt :: "sds \<Rightarrow> fmt_arg list \<Rightarrow> sdshdr \<Rightarrow> sdshdr option" where
  "sdscatfmt fmt ap s = do {
     let initlen = sdslen s;
     s \<leftarrow> sdsMakeRoomFor (initlen + strlen fmt * 2) s;
     (i, s) \<leftarrow> fmt_loop (c_string fmt) ap initlen s;
     write_buf i [CHR 0x00] s
   }"

subsection \<open>The line a monitor gets\<close>

text \<open>
  \<open>replicationFeedMonitors\<close> of \<open>src/src/replication.c\<close>: a line with the time, the source of the command and the
  quoted arguments.
\<close>

datatype command_source = From_lua | From_unix sds | From_peer sds

definition time_text :: "nat \<Rightarrow> nat \<Rightarrow> sds" where
  "time_text sec usec = dec sec @ ''.'' @ replicate (6 - length (dec usec)) (CHR ''0'') @ dec usec @ '' ''"

fun source_text :: "int \<Rightarrow> command_source \<Rightarrow> sds" where
  "source_text dictid From_lua = ''['' @ dec_int dictid @ '' lua] ''"
| "source_text dictid (From_unix path) = ''['' @ dec_int dictid @ '' unix:'' @ c_string path @ ''] ''"
| "source_text dictid (From_peer peer) = ''['' @ dec_int dictid @ '' '' @ c_string peer @ ''] ''"

fun source_format :: "command_source \<Rightarrow> sds" where
  "source_format From_lua = ''[%d lua] ''"
| "source_format (From_unix path) = ''[%d unix:%s] ''"
| "source_format (From_peer peer) = ''[%d %s] ''"

fun feed_arg :: "robj \<Rightarrow> sdshdr \<Rightarrow> sdshdr option" where
  "feed_arg (IntStr n) cmdrepr = sdscatvprintf [CHR 0x22, CHR ''%'', CHR ''l'', CHR ''d'', CHR 0x22] ([CHR 0x22] @ dec_int n @ [CHR 0x22]) cmdrepr"
| "feed_arg (RawStr p) cmdrepr = sdscatrepr cmdrepr p"
| "feed_arg (EmbStr p) cmdrepr = sdscatrepr cmdrepr p"
| "feed_arg (OtherObj t) cmdrepr = None"

fun feed_args :: "robj list \<Rightarrow> sdshdr \<Rightarrow> sdshdr option" where
  "feed_args [] cmdrepr = Some cmdrepr"
| "feed_args (a # argv) cmdrepr = do {
     cmdrepr \<leftarrow> feed_arg a cmdrepr;
     cmdrepr \<leftarrow> (if argv \<noteq> [] then sdscatlen '' '' cmdrepr else Some cmdrepr);
     feed_args argv cmdrepr
   }"

definition replicationFeedMonitors :: "nat \<Rightarrow> nat \<Rightarrow> command_source \<Rightarrow> int \<Rightarrow> robj list \<Rightarrow> sdshdr option" where
  "replicationFeedMonitors sec usec source dictid argv = do {
     cmdrepr \<leftarrow> sdsnew ''+'';
     cmdrepr \<leftarrow> sdscatvprintf ''%ld.%06ld '' (time_text sec usec) cmdrepr;
     cmdrepr \<leftarrow> sdscatvprintf (source_format source) (source_text dictid source) cmdrepr;
     cmdrepr \<leftarrow> feed_args argv cmdrepr;
     sdscatlen [CHR 0x0D, CHR 0x0A] cmdrepr
   }"
subsection \<open>The contents of a string\<close>

text \<open>
  A string in memory stands for the bytes \<open>t\<close>: the length is right, the allocation holds it and fits
  its field, the buffer is as large as the allocation, and the bytes are followed by a null
  byte.
\<close>

definition sds_fit :: "sdshdr \<Rightarrow> nat \<Rightarrow> bool" where
  "sds_fit s n \<longleftrightarrow> hdr_len s = n \<and> n \<le> sdsalloc s \<and> sdsalloc s < 2 ^ type_bits (hdr_type s) \<and> sdsalloc s < length (hdr_buf s)"

definition sds_rep :: "sdshdr \<Rightarrow> sds \<Rightarrow> bool" where
  "sds_rep s t \<longleftrightarrow> sds_fit s (length t) \<and> take (length t + 1) (hdr_buf s) = map Some (t @ [CHR 0x00])"

lemma type_bits_req: "n < 2 ^ 64 \<Longrightarrow> n < 2 ^ type_bits (sdsReqType n)"
  by (auto simp: sdsReqType_def)

lemma sdsHdrSize_le: "sdsHdrSize type \<le> 17"
  by (cases type) simp_all

lemma block_ok: "n < 2 ^ 63 \<Longrightarrow> block (sdsHdrSize type) n = Some (n + 1)"
  using sdsHdrSize_le [of type] by (simp add: block_def size_t_def)

lemma write_buf_ok:
  "pos + length bs \<le> length (hdr_buf s) \<Longrightarrow>
    write_buf pos bs s = Some (s\<lparr>hdr_buf := take pos (hdr_buf s) @ map Some bs @ drop (pos + length bs) (hdr_buf s)\<rparr>)"
  by (simp add: write_buf_def mem_put_def)

lemma sdsset_sel [simp]:
  "hdr_type (sdssetlen n s) = hdr_type s" "hdr_buf (sdssetlen n s) = hdr_buf s" "hdr_alloc (sdssetlen n s) = hdr_alloc s"
  "hdr_type (sdssetalloc n s) = hdr_type s" "hdr_buf (sdssetalloc n s) = hdr_buf s" "hdr_len (sdssetalloc n s) = hdr_len s"
  by (simp_all add: sdssetlen_def sdssetalloc_def)

lemma sds_rep_len [simp]: "sds_rep s t \<Longrightarrow> sdslen s = length t"
  by (simp add: sds_rep_def sds_fit_def sdslen_def)

lemma sds_rep_bytes [simp]:
  assumes "sds_rep s t"
  shows "sds_bytes s = Some t"
proof -
  have "take (length t) (take (length t + 1) (hdr_buf s)) = map Some t"
    using assms by (simp add: sds_rep_def)
  moreover have "those (map Some xs) = Some xs" for xs :: sds
    by (induction xs) simp_all
  ultimately show ?thesis
    using assms by (simp add: sds_bytes_def)
qed

lemma sds_rep_null:
  assumes "sds_rep s t"
  shows "hdr_buf s ! sdslen s = Some CHR 0x00 \<and> sdsavail s + sdslen s < length (hdr_buf s)"
proof -
  have "take (length t + 1) (hdr_buf s) ! length t = map Some (t @ [CHR 0x00]) ! length t"
    using assms by (simp add: sds_rep_def)
  then show ?thesis
    using assms by (auto simp: nth_append sds_rep_def sds_fit_def sdsalloc_def sdsavail_def sdslen_def)
qed

text \<open>Where there is room for the new contents, setting the length makes them the contents.\<close>

definition has_room :: "nat \<Rightarrow> sdshdr \<Rightarrow> bool" where
  "has_room n s \<longleftrightarrow> n < 2 ^ type_bits (hdr_type s) \<and> n < length (hdr_buf s) \<and>
     (hdr_type s \<noteq> SDS_TYPE_5 \<longrightarrow> n \<le> hdr_alloc s \<and> hdr_alloc s < 2 ^ type_bits (hdr_type s) \<and> hdr_alloc s < length (hdr_buf s))"

lemma sds_rep_setlen:
  assumes "has_room (length t) s" and "take (length t + 1) (hdr_buf s) = map Some (t @ [CHR 0x00])"
  shows "sds_rep (sdssetlen (length t) s) t"
  using assms by (auto simp: sds_rep_def sds_fit_def has_room_def sdsalloc_def sdssetlen_def)

lemma sds_fit_room: "sds_fit s len \<Longrightarrow> n \<le> len + sdsavail s \<Longrightarrow> has_room n s"
  by (auto simp: sds_fit_def has_room_def sdsavail_def sdsalloc_def split: if_splits)

lemma sds_rep_room: "sds_rep s t \<Longrightarrow> n \<le> length t + sdsavail s \<Longrightarrow> has_room n s"
  using sds_fit_room [of s "length t" n] by (simp add: sds_rep_def)

lemma has_room_buf: "length b = length (hdr_buf s) \<Longrightarrow> has_room n (s\<lparr>hdr_buf := b\<rparr>) = has_room n s"
  by (simp add: has_room_def)

lemma resize_take: "m \<le> n \<Longrightarrow> m \<le> length buf \<Longrightarrow> take m (resize n buf) = take m buf"
  by (simp add: resize_def)

lemma length_resize [simp]: "length (resize n buf) = n"
  by (simp add: resize_def)

lemma sdsMakeRoomFor_fit:
  assumes fit: "sds_fit s len" and len: "len + addlen < 2 ^ 62"
  shows "\<exists>s'. sdsMakeRoomFor addlen s = Some s' \<and> sds_fit s' len \<and> take (len + 1) (hdr_buf s') = take (len + 1) (hdr_buf s) \<and> addlen \<le> sdsavail s'"
proof (cases "sdsavail s \<ge> addlen")
  case True
  then show ?thesis using fit by (simp add: sdsMakeRoomFor_def)
next
  case False
  define newlen where "newlen = prealloc (size_t (len + addlen))"
  define type where "type = append_type newlen"
  have n: "newlen < 2 ^ 63" "len + addlen \<le> newlen"
    using len by (auto simp: newlen_def prealloc_def size_t_def SDS_MAX_PREALLOC_def)
  then have ty: "newlen < 2 ^ type_bits type" "type \<noteq> SDS_TYPE_5"
    using type_bits_req [of newlen] by (auto simp: type_def append_type_def split: if_splits)
  have buf: "len < length (hdr_buf s)" "sdslen s = len"
    using fit by (auto simp: sds_fit_def sdslen_def)
  have mn: "min (length (hdr_buf s)) (Suc len) = Suc len"
    using buf by simp
  define s1 where "s1 = (if hdr_type s = type then s\<lparr>hdr_buf := resize (newlen + 1) (hdr_buf s)\<rparr>
    else sdssetlen len (s\<lparr>hdr_type := type, hdr_buf := take (len + 1) (hdr_buf s) @ replicate (newlen - len) None\<rparr>))"
  have "sdsMakeRoomFor addlen s = Some (sdssetalloc newlen s1)"
    using False n buf mn
    by (simp add: sdsMakeRoomFor_def block_ok mem_get_def mem_put_def s1_def newlen_def [symmetric] type_def [symmetric] Let_def)
  moreover have "sds_fit (sdssetalloc newlen s1) len" "addlen \<le> sdsavail (sdssetalloc newlen s1)" "take (len + 1) (hdr_buf s1) = take (len + 1) (hdr_buf s)"
    using fit n ty buf by (auto simp: s1_def sds_fit_def sdssetalloc_def sdssetlen_def sdsalloc_def sdsavail_def resize_take)
  ultimately show ?thesis by auto
qed

lemma sdsMakeRoomFor_rep:
  "sds_rep s t \<Longrightarrow> length t + addlen < 2 ^ 62 \<Longrightarrow> \<exists>s'. sdsMakeRoomFor addlen s = Some s' \<and> sds_rep s' t \<and> addlen \<le> sdsavail s'"
  using sdsMakeRoomFor_fit [of s "length t" addlen] by (auto simp: sds_rep_def)
lemma take_write:
  "pos + length bs \<le> length buf \<Longrightarrow> take (pos + length bs) (take pos buf @ map Some bs @ drop (pos + length bs) buf) = take pos buf @ map Some bs"
  by (cases bs) (auto simp: min_def)

text \<open>Writing the contents with their terminator from position \<open>k\<close> on, and then the length.\<close>

lemma sds_rep_write:
  assumes room: "has_room (k + length u) s" and pre: "take k (hdr_buf s) = map Some t" "length t = k"
  shows "\<exists>s'. write_buf k (u @ [CHR 0x00]) s = Some s' \<and> sds_rep (sdssetlen (k + length u) s') (t @ u) \<and> hdr_type s' = hdr_type s"
proof -
  let ?buf = "take k (hdr_buf s) @ map Some (u @ [CHR 0x00]) @ drop (k + length (u @ [CHR 0x00])) (hdr_buf s)"
  have n: "k + length (u @ [CHR 0x00]) \<le> length (hdr_buf s)"
    using room by (simp add: has_room_def)
  have "take (k + length (u @ [CHR 0x00])) ?buf = map Some ((t @ u) @ [CHR 0x00])"
    using take_write [OF n] pre by simp
  moreover have "has_room (k + length u) (s\<lparr>hdr_buf := ?buf\<rparr>)"
    using room n by (subst has_room_buf) auto
  ultimately have "sds_rep (sdssetlen (k + length u) (s\<lparr>hdr_buf := ?buf\<rparr>)) (t @ u)"
    using sds_rep_setlen [of "t @ u" "s\<lparr>hdr_buf := ?buf\<rparr>"] pre(2) by simp
  then show ?thesis
    using write_buf_ok [OF n] by simp
qed

lemma write_buf_twice:
  assumes "write_buf k (u @ [CHR 0x00]) s = Some s'"
  shows "\<exists>s1. write_buf k u s = Some s1 \<and> write_buf (k + length u) [CHR 0x00] s1 = Some s' \<and>
    write_buf (k + length u) [CHR 0x00] (sdssetlen n s1) = Some (sdssetlen n s')"
proof -
  have n: "k + length u < length (hdr_buf s)" and s': "s' = s\<lparr>hdr_buf := take k (hdr_buf s) @ map Some (u @ [CHR 0x00]) @ drop (k + length u + 1) (hdr_buf s)\<rparr>"
    using assms by (auto simp: write_buf_def mem_put_def split: if_splits)
  let ?s1 = "s\<lparr>hdr_buf := take k (hdr_buf s) @ map Some u @ drop (k + length u) (hdr_buf s)\<rparr>"
  have "write_buf k u s = Some ?s1"
    using n by (simp add: write_buf_ok)
  moreover have "write_buf (k + length u) [CHR 0x00] ?s1 = Some s'"
    using n by (simp add: write_buf_ok s' min_def)
  moreover have "write_buf (k + length u) [CHR 0x00] (sdssetlen n ?s1) = Some (sdssetlen n s')"
    using n by (simp add: write_buf_ok s' min_def sdssetlen_def)
  ultimately show ?thesis by blast
qed

lemma sdscatlen_rep:
  assumes "sds_rep s t" and "length t + length u < 2 ^ 62"
  shows "\<exists>s'. sdscatlen u s = Some s' \<and> sds_rep s' (t @ u)"
proof -
  obtain s1 where s1: "sdsMakeRoomFor (length u) s = Some s1" "sds_rep s1 t" "length u \<le> sdsavail s1"
    using sdsMakeRoomFor_rep [OF assms] by blast
  have "take (length t) (take (length t + 1) (hdr_buf s1)) = map Some t"
    using s1(2) by (simp add: sds_rep_def)
  then obtain s2 where s2: "write_buf (length t) (u @ [CHR 0x00]) s1 = Some s2" "sds_rep (sdssetlen (length t + length u) s2) (t @ u)"
    using sds_rep_write [of "length t" u s1 t] sds_rep_room [OF s1(2), of "length t + length u"] s1(3) by auto
  then show ?thesis
    using write_buf_twice [OF s2(1), of "length t + length u"] s1(1) assms(1) by (auto simp: sdscatlen_def)
qed

lemma sdscpylen_rep:
  assumes "sds_rep s t" and "length u < 2 ^ 62"
  shows "\<exists>s'. sdscpylen u s = Some s' \<and> sds_rep s' u"
proof -
  have "\<exists>s1. (if sdsalloc s < length u then sdsMakeRoomFor (length u - sdslen s) s else Some s) = Some s1 \<and> has_room (length u) s1"
  proof (cases "sdsalloc s < length u")
    case True
    then have "length t \<le> length u"
      using assms(1) by (auto simp: sds_rep_def sds_fit_def)
    then show ?thesis
      using sdsMakeRoomFor_rep [OF assms(1), of "length u - length t"] assms sds_rep_room [of _ t "length u"] True by fastforce
  next
    case False
    then show ?thesis
      using assms(1) by (auto simp: sds_rep_def sds_fit_def has_room_def sdsalloc_def)
  qed
  then obtain s1 where s1: "(if sdsalloc s < length u then sdsMakeRoomFor (length u - sdslen s) s else Some s) = Some s1" "has_room (length u) s1"
    by blast
  then obtain s2 where s2: "write_buf 0 (u @ [CHR 0x00]) s1 = Some s2" "sds_rep (sdssetlen (length u) s2) u"
    using sds_rep_write [of 0 u s1 "[]"] by auto
  show ?thesis
    using write_buf_twice [OF s2(1), of 0] s1(1) s2(2) by (auto simp: sdscpylen_def)
qed

lemma sdsgrowzero_rep:
  assumes "sds_rep s t" and "n < 2 ^ 62"
  shows "\<exists>s'. sdsgrowzero_buf n s = Some s' \<and> sds_rep s' (t @ replicate (n - length t) CHR 0x00)"
proof (cases "n \<le> length t")
  case True
  then show ?thesis using assms(1) by (simp add: sdsgrowzero_buf_def)
next
  case False
  let ?z = "replicate (n - length t) CHR 0x00"
  obtain s1 where s1: "sdsMakeRoomFor (n - length t) s = Some s1" "sds_rep s1 t" "n - length t \<le> sdsavail s1"
    using sdsMakeRoomFor_rep [OF assms(1), of "n - length t"] assms(2) False by auto
  have "take (length t) (take (length t + 1) (hdr_buf s1)) = map Some t"
    using s1(2) by (simp add: sds_rep_def)
  then obtain s2 where "write_buf (length t) (?z @ [CHR 0x00]) s1 = Some s2" "sds_rep (sdssetlen n s2) (t @ ?z)"
    using sds_rep_write [of "length t" ?z s1 t] sds_rep_room [OF s1(2), of n] s1(3) False by auto
  moreover have "replicate (n - length t + 1) CHR 0x00 = ?z @ [CHR 0x00]"
    by (simp add: replicate_append_same)
  ultimately show ?thesis
    using s1(1) assms(1) False by (simp add: sdsgrowzero_buf_def del: replicate_Suc)
qed

lemma sdsclear_rep:
  assumes "sds_rep s t"
  shows "\<exists>s'. sdsclear s = Some s' \<and> sds_rep s' []"
proof -
  have "has_room 0 s"
    using sds_rep_room [OF assms, of 0] by simp
  then show ?thesis
    using sds_rep_write [of 0 "[]" s "[]"] write_buf_twice [of 0 "[]" s _ 0] by (auto simp: sdsclear_def write_buf_ok sdssetlen_def split: if_splits)
qed
lemma sdsnewlen_rep:
  assumes "n \<le> length t" and "n < 2 ^ 62"
  shows "\<exists>s. sdsnewlen (Init_bytes t) n = Some s \<and> sds_rep s (take n t)"
proof -
  define type where "type = (if sdsReqType n = SDS_TYPE_5 \<and> n = 0 then SDS_TYPE_8 else sdsReqType n)"
  have bits: "n < 2 ^ type_bits type"
    using type_bits_req [of n] assms(2) by (simp add: type_def)
  define u where "u = \<lparr>hdr_type = type, hdr_len = n, hdr_alloc = n, hdr_buf = replicate (n + 1) (None :: char option)\<rparr>"
  have l: "length (take n t) = n"
    using assms(1) by simp
  have room: "has_room (0 + length (take n t)) u"
    unfolding l using bits by (simp add: has_room_def u_def)
  obtain s where s: "write_buf 0 (take n t @ [CHR 0x00]) u = Some s" "sds_rep (sdssetlen n s) (take n t)" "hdr_type s = type"
    using sds_rep_write [OF room, of "[]"] unfolding l by (auto simp: u_def)
  have "sdssetlen n s = s"
    using s(1) bits by (auto simp: write_buf_def mem_put_def sdssetlen_def u_def split: if_splits)
  moreover have "sdsnewlen (Init_bytes t) n = Some s"
    using write_buf_twice [OF s(1), of n] assms bits unfolding l
    by (auto simp: sdsnewlen_def type_def [symmetric] block_ok u_def Let_def)
  ultimately show ?thesis
    using s(2) by auto
qed

lemma sdsempty_rep: "\<exists>s. sdsempty = Some s \<and> sds_rep s []"
  using sdsnewlen_rep [of 0 "[]"] by (simp add: sdsempty_def)

lemma sdsdup_rep: "sds_rep s t \<Longrightarrow> length t < 2 ^ 62 \<Longrightarrow> \<exists>s'. sdsdup s = Some s' \<and> sds_rep s' t"
  using sdsnewlen_rep [of "length t" t] by (simp add: sdsdup_def)

lemma sdsRemoveFreeSpace_rep:
  assumes "sds_rep s t" and "length t < 2 ^ 62"
  shows "\<exists>s'. sdsRemoveFreeSpace s = Some s' \<and> sds_rep s' t \<and> sdsavail s' = 0"
proof (cases "sdsavail s = 0")
  case True
  then show ?thesis using assms(1) by (simp add: sdsRemoveFreeSpace_def)
next
  case False
  define type where "type = sdsReqType (length t)"
  have bits: "length t < 2 ^ type_bits type"
    using type_bits_req [of "length t"] assms(2) by (simp add: type_def)
  have buf: "take (length t + 1) (hdr_buf s) = map Some (t @ [CHR 0x00])" "length t < length (hdr_buf s)" "length t < 2 ^ type_bits (hdr_type s)"
    using assms(1) by (auto simp: sds_rep_def sds_fit_def)
  have cut: "resize (length t + 1) (hdr_buf s) = map Some (t @ [CHR 0x00])"
    using buf by (simp add: resize_def)
  define u where "u = (if hdr_type s = type \<or> (type \<noteq> SDS_TYPE_5 \<and> type \<noteq> SDS_TYPE_8)
    then s\<lparr>hdr_buf := resize (length t + 1) (hdr_buf s)\<rparr>
    else sdssetlen (length t) (s\<lparr>hdr_type := type, hdr_buf := map Some (t @ [CHR 0x00])\<rparr>))"
  have "sdsRemoveFreeSpace s = Some (sdssetalloc (length t) u)"
    using False assms buf by (simp add: sdsRemoveFreeSpace_def block_ok mem_get_def mem_put_def u_def type_def [symmetric] Let_def)
  moreover have "sds_rep (sdssetalloc (length t) u) t" "sdsavail (sdssetalloc (length t) u) = 0"
    using assms(1) bits buf cut by (auto simp: u_def sds_rep_def sds_fit_def sdssetalloc_def sdssetlen_def sdsalloc_def sdsavail_def)
  ultimately show ?thesis by blast
qed

text \<open>A prefix of the contents: the length is cut, and the terminator moves.\<close>

lemma sds_rep_prefix:
  assumes "sds_rep s t" and "k \<le> length t"
  shows "\<exists>s'. write_buf k [CHR 0x00] s = Some s' \<and> sds_rep (sdssetlen k s') (take k t)"
proof -
  have "take k (take (length t + 1) (hdr_buf s)) = take k (map Some t)"
    using assms by (simp add: sds_rep_def)
  then have "take k (hdr_buf s) = map Some (take k t)"
    using assms(2) by (simp add: take_map min_def)
  then show ?thesis
    using sds_rep_write [of k "[]" s "take k t"] sds_rep_room [OF assms(1), of k] assms(2) by auto
qed

text \<open>The same after a part of the contents was moved to the front.\<close>

lemma sds_rep_moved:
  assumes rep: "sds_rep s t" and len: "i + k \<le> length t"
  shows "\<exists>s1 s'. mem_put 0 (map Some (take k (drop i t))) (hdr_buf s) = Some s1 \<and>
    write_buf k [CHR 0x00] (s\<lparr>hdr_buf := s1\<rparr>) = Some s' \<and> sds_rep (sdssetlen k s') (take k (drop i t))"
proof -
  let ?p = "take k (drop i t)"
  have l: "length ?p = k"
    using len by simp
  have "has_room (0 + length ?p) s"
    unfolding l using sds_rep_room [OF rep, of k] len by simp
  then obtain s' where s': "write_buf 0 (?p @ [CHR 0x00]) s = Some s'" "sds_rep (sdssetlen k s') ?p"
    using sds_rep_write [of 0 ?p s "[]"] unfolding l by auto
  then show ?thesis
    using write_buf_twice [OF s'(1), of k] unfolding l by (auto simp: write_buf_def)
qed

definition trimmed :: "sds \<Rightarrow> sds \<Rightarrow> sds" where
  "trimmed cset t = rev (dropWhile (in_cset cset) (rev (dropWhile (in_cset cset) t)))"

lemma trim_start_drop: "trim_start cset t = length (takeWhile (in_cset cset) t)"
  by (induction t) auto

lemma trim_end_eq:
  assumes "sp < n" "n \<le> length t" "\<not> in_cset cset (t ! sp)"
  shows "trim_end cset t sp (int n - 1) = int sp + int (length (dropWhile (in_cset cset) (rev (take (n - sp) (drop sp t))))) - 1"
  using assms
proof (induction n)
  case 0
  then show ?case by simp
next
  case (Suc n)
  have r: "rev (take (Suc n - sp) (drop sp t)) = t ! n # rev (take (n - sp) (drop sp t))"
    using Suc.prems by (simp add: Suc_diff_le take_Suc_conv_app_nth)
  show ?case
  proof (cases "in_cset cset (t ! n)")
    case True
    then have "sp < n"
      using Suc.prems by (metis less_antisym)
    then show ?thesis
      using Suc True r by (subst trim_end.simps) simp
  next
    case False
    then show ?thesis
      using Suc.prems r by (subst trim_end.simps) simp
  qed
qed
lemma sdstrim_rep:
  assumes "sds_rep s t"
  shows "\<exists>s'. sdstrim cset s = Some s' \<and> sds_rep s' (trimmed cset t)"
proof -
  define sp where "sp = trim_start cset t"
  define ep where "ep = trim_end cset t sp (int (length t) - 1)"
  define len where "len = (if int sp > ep then 0 else nat (ep - int sp) + 1)"
  have d: "dropWhile (in_cset cset) t = drop sp t" "sp \<le> length t"
    by (simp_all add: sp_def trim_start_drop dropWhile_eq_drop length_takeWhile_le)
  have len': "take len (drop sp t) = trimmed cset t \<and> sp + len \<le> length t"
  proof (cases "sp < length t")
    case True
    define w where "w = dropWhile (in_cset cset) (rev (drop sp t))"
    have first: "\<not> in_cset cset (t ! sp)"
      using True nth_length_takeWhile [of "in_cset cset" t] by (simp add: sp_def trim_start_drop)
    then have "w \<noteq> []"
      using True by (auto simp: w_def dropWhile_eq_Nil_conv Cons_nth_drop_Suc [symmetric])
    moreover have "ep = int sp + int (length w) - 1"
      using trim_end_eq [OF True order_refl first] True by (simp only: ep_def w_def) simp
    ultimately have "len = length w"
      by (auto simp: len_def neq_Nil_conv)
    moreover have "rev (rev (drop sp t)) = rev w @ rev (takeWhile (in_cset cset) (rev (drop sp t)))"
      unfolding w_def rev_append [symmetric] by simp
    then have "drop sp t = rev w @ rev (takeWhile (in_cset cset) (rev (drop sp t)))"
      by simp
    then have "take (length w) (drop sp t) = rev w" "length (drop sp t) \<ge> length w"
      by (metis append_eq_conv_conj length_rev, metis length_append length_rev le_add1)
    ultimately show ?thesis
      using True by (simp add: trimmed_def d w_def)
  next
    case False
    then have "ep = int (length t) - 1"
      using d by (subst ep_def, subst trim_end.simps) simp
    then show ?thesis
      using False d by (auto simp: len_def trimmed_def dest: set_dropWhileD)
  qed
  have eq: "sdstrim cset s = (do {
     s \<leftarrow> (if sp \<noteq> 0 then write_buf 0 (take len (drop sp t)) s else Some s);
     s \<leftarrow> write_buf len [CHR 0x00] s;
     Some (sdssetlen len s) })"
    using assms by (simp add: sdstrim_def sp_def ep_def len_def Let_def)
  show ?thesis
  proof (cases "sp = 0")
    case True
    then show ?thesis
      using eq sds_rep_prefix [OF assms, of len] len' by auto
  next
    case False
    then show ?thesis
      using eq sds_rep_moved [OF assms, of sp len] len' by (auto simp: write_buf_def)
  qed
qed

text \<open>The bytes between two positions, both included; a negative one counts from the end.\<close>

definition index_from :: "nat \<Rightarrow> int \<Rightarrow> nat" where
  "index_from len i = nat (if i < 0 then int len + i else i)"

definition byte_range :: "int \<Rightarrow> int \<Rightarrow> sds \<Rightarrow> sds" where
  "byte_range start end' t = (let a = index_from (length t) start in take (Suc (index_from (length t) end') - a) (drop a t))"

lemma ssize_t_id: "- (2 ^ 63) \<le> v \<Longrightarrow> v < 2 ^ 63 \<Longrightarrow> ssize_t v = v"
  by (simp add: ssize_t_def)

lemma range_bounds_eq:
  assumes "0 < len" "len < 2 ^ 62" "- (2 ^ 63) \<le> start" "- (2 ^ 63) \<le> end'"
  shows "\<exists>a k. range_bounds len start end' = (a, k) \<and> (k \<noteq> 0 \<longrightarrow> a = index_from len start \<and> a + k \<le> len) \<and>
    k = min (len - index_from len start) (Suc (index_from len end') - index_from len start)"
proof -
  have v: "(if i < 0 then max 0 (ssize_t (int len + i)) else i) = int (index_from len i)" if "- (2 ^ 63) \<le> i" for i
    using that assms(2) by (auto simp: index_from_def ssize_t_id)
  show ?thesis
    using assms(1) by (simp add: range_bounds_def v [OF assms(3)] v [OF assms(4)] Let_def) (auto simp: min_def)
qed

lemma sdsrange_rep:
  assumes rep: "sds_rep s t" and len: "length t < 2 ^ 62" and args: "- (2 ^ 63) \<le> start" "- (2 ^ 63) \<le> end'"
  shows "\<exists>s'. sdsrange start end' s = Some s' \<and> sds_rep s' (byte_range start end' t)"
proof (cases "t = []")
  case True
  then show ?thesis using rep by (simp add: sdsrange_def byte_range_def)
next
  case False
  then obtain a k where ak: "range_bounds (length t) start end' = (a, k)" "k \<noteq> 0 \<longrightarrow> a = index_from (length t) start \<and> a + k \<le> length t"
      "k = min (length t - index_from (length t) start) (Suc (index_from (length t) end') - index_from (length t) start)"
    using range_bounds_eq [OF _ len args] by auto
  have r: "byte_range start end' t = take k (drop a t)"
    using ak(2) by (cases "k = 0") (auto simp: ak(3) byte_range_def Let_def min_def split: if_splits)
  show ?thesis
  proof (cases "a \<noteq> 0 \<and> k \<noteq> 0")
    case True
    have "take (a + k) (take (length t + 1) (hdr_buf s)) = map Some (take (a + k) t)"
      using rep ak True by (simp add: sds_rep_def take_map)
    then have "take k (drop a (hdr_buf s)) = map Some (take k (drop a t))" "a + k \<le> length (hdr_buf s)"
      using rep ak True by (auto simp: take_drop drop_map add.commute sds_rep_def sds_fit_def)
    then show ?thesis
      using sds_rep_moved [OF rep, of a k] ak(1,2) True rep False r by (auto simp: sdsrange_def mem_get_def Let_def)
  next
    case False': False
    then show ?thesis
      using sds_rep_prefix [OF rep, of k] ak(1,2) False rep r by (cases "k = 0") (auto simp: sdsrange_def Let_def)
  qed
qed

text \<open>
  \<open>sdsIncrLen\<close> after bytes were written behind the contents, as \<open>readQueryFromClient\<close> does, and
  with a negative number to cut the end.
\<close>

lemma sdsIncrLen_grow:
  assumes rep: "sds_rep s t" and u: "u \<noteq> []" "length u \<le> sdsavail s"
  shows "\<exists>s1 s'. write_buf (length t) u s = Some s1 \<and> sdsIncrLen (int (length u)) s1 = Some s' \<and> sds_rep s' (t @ u)"
proof -
  have five: "hdr_type s \<noteq> SDS_TYPE_5" "hdr_len s = length t" "hdr_alloc s < 2 ^ type_bits (hdr_type s)" "length t + length u \<le> hdr_alloc s"
    using rep u by (auto simp: sdsavail_def sds_rep_def sds_fit_def sdsalloc_def split: if_splits)
  have "take (length t) (take (length t + 1) (hdr_buf s)) = map Some t"
    using rep by (simp add: sds_rep_def)
  then obtain s' where s': "write_buf (length t) (u @ [CHR 0x00]) s = Some s'" "sds_rep (sdssetlen (length t + length u) s') (t @ u)"
    using sds_rep_write [of "length t" u s t] sds_rep_room [OF rep, of "length t + length u"] u by auto
  then obtain s1 where s1: "write_buf (length t) u s = Some s1"
      "write_buf (length t + length u) [CHR 0x00] (sdssetlen (length t + length u) s1) = Some (sdssetlen (length t + length u) s')"
    using write_buf_twice by blast
  have sel: "hdr_type s1 = hdr_type s" "hdr_len s1 = length t" "hdr_alloc s1 = hdr_alloc s"
    using s1(1) five by (auto simp: write_buf_def)
  have "sdsIncrLen (int (length u)) s1 = Some (sdssetlen (length t + length u) s')"
    using s1(2) five by (simp add: sdsIncrLen_def sel sdssetlen_def flip: of_nat_add of_nat_mod) 
  then show ?thesis
    using s1(1) s'(2) by blast
qed

lemma sdsIncrLen_cut:
  assumes rep: "sds_rep s t" and n: "0 < n" "n \<le> length t"
  shows "\<exists>s'. sdsIncrLen (- int n) s = Some s' \<and> sds_rep s' (take (length t - n) t)"
proof -
  let ?k = "length t - n"
  have len: "hdr_len s = length t" "?k < 2 ^ type_bits (hdr_type s)"
    using rep by (auto simp: sds_rep_def sds_fit_def)
  obtain s' where s': "write_buf ?k [CHR 0x00] s = Some s'" "sds_rep (sdssetlen ?k s') (take ?k t)"
    using sds_rep_prefix [OF rep, of ?k] by auto
  have m: "nat ((int (length t) - int n) mod 2 ^ type_bits (hdr_type s)) = ?k"
    using len(2) n by (simp add: of_nat_diff [symmetric] nat_mod_distrib nat_power_eq del: of_nat_diff)
  have "n < 2 ^ type_bits (hdr_type s)"
    using rep n by (auto simp: sds_rep_def sds_fit_def)
  then have "neg_incr (hdr_type s) (- int n) = n"
    by (cases "hdr_type s") (simp_all add: neg_incr_def)
  moreover have "write_buf ?k [CHR 0x00] (s\<lparr>hdr_len := ?k\<rparr>) = Some (sdssetlen ?k s')"
    using s'(1) len(2) by (auto simp: write_buf_def sdssetlen_def mem_put_def split: if_splits)
  ultimately have "sdsIncrLen (- int n) s = Some (sdssetlen ?k s')"
    using m n len(1) by (cases "hdr_type s = SDS_TYPE_5") (auto simp: sdsIncrLen_def Let_def nat_diff_distrib)
  then show ?thesis
    using s'(2) by blast
qed

subsection \<open>Formatted output\<close>

text \<open>The text of a format, as its documentation has it.\<close>

fun fmt_output :: "sds \<Rightarrow> fmt_arg list \<Rightarrow> sds option" where
  "fmt_output [] ap = Some []"
| "fmt_output (c # f) ap =
     (if c \<noteq> CHR ''%'' then map_option (Cons c) (fmt_output f ap)
      else case f of
        [] \<Rightarrow> None
      | next # f \<Rightarrow>
          if is_directive next then
            case ap of [] \<Rightarrow> None | a # ap \<Rightarrow> do { str \<leftarrow> fmt_text next a; map_option (append str) (fmt_output f ap) }
          else map_option (Cons next) (fmt_output f ap))"

text \<open>The state of the loop: the bytes so far, without a terminator.\<close>

definition sds_open :: "sdshdr \<Rightarrow> sds \<Rightarrow> bool" where
  "sds_open s t \<longleftrightarrow> sds_fit s (length t) \<and> take (length t) (hdr_buf s) = map Some t"

lemma sds_rep_open: "sds_rep s t \<Longrightarrow> sds_open s t"
proof -
  assume rep: "sds_rep s t"
  have "take (length t) (hdr_buf s) = take (length t) (take (length t + 1) (hdr_buf s))"
    by simp
  also have "\<dots> = map Some t"
    using rep by (simp add: sds_rep_def)
  finally show ?thesis
    using rep by (simp add: sds_open_def sds_rep_def)
qed

lemma sds_open_room:
  assumes "sds_open s t" and "length t + n < 2 ^ 62"
  shows "\<exists>s'. sdsMakeRoomFor n s = Some s' \<and> sds_open s' t \<and> n \<le> sdsavail s'"
proof -
  obtain s' where s': "sdsMakeRoomFor n s = Some s'" "sds_fit s' (length t)" "n \<le> sdsavail s'"
      "take (length t + 1) (hdr_buf s') = take (length t + 1) (hdr_buf s)"
    using sdsMakeRoomFor_fit [of s "length t" n] assms by (auto simp: sds_open_def)
  have "take (length t) (take (length t + 1) (hdr_buf s')) = take (length t) (take (length t + 1) (hdr_buf s))"
    using s'(4) by simp
  then show ?thesis
    using s' assms(1) by (simp add: sds_open_def)
qed

lemma sds_open_write:
  assumes "sds_open s t" and "length u \<le> sdsavail s"
  shows "\<exists>s'. write_buf (length t) u s = Some s' \<and> sds_open (sdsinclen (length u) s') (t @ u)"
proof -
  have "has_room (length t + length u) s"
    using assms sds_fit_room by (auto simp: sds_open_def)
  then show ?thesis
    using assms by (auto simp: write_buf_ok sds_open_def sds_fit_def has_room_def sdsinclen_def sdsalloc_def sdsavail_def split: if_splits)
qed

lemma fmt_put_open:
  assumes "sds_open s t" and "length t + length u < 2 ^ 62"
  shows "\<exists>s'. fmt_put u (length t) s = Some s' \<and> sds_open s' (t @ u)"
proof -
  have "\<exists>s1. (if sdsavail s < length u then sdsMakeRoomFor (length u) s else Some s) = Some s1 \<and> sds_open s1 t \<and> length u \<le> sdsavail s1"
    using assms sds_open_room [OF assms] by auto
  then show ?thesis
    using sds_open_write [of _ t u] by (fastforce simp: fmt_put_def)
qed

lemma fmt_char_open:
  assumes "sds_open s t" and "0 < sdsavail s"
  shows "\<exists>s'. fmt_char c (length t) s = Some s' \<and> sds_open s' (t @ [c])"
  using sds_open_write [OF assms(1), of "[c]"] assms(2) by (auto simp: fmt_char_def)

lemma fmt_loop_open:
  assumes "sds_open s t" and "fmt_output f ap = Some u" and "length t + length u + length f + 1 < 2 ^ 62"
  shows "\<exists>s'. fmt_loop f ap (length t) s = Some (length (t @ u), s') \<and> sds_open s' (t @ u)"
  using assms
proof (induction f ap arbitrary: s t u rule: fmt_output.induct)
  case (1 ap)
  then show ?case by simp
next
  case (2 c f ap)
  obtain s1 where s1: "(if sdsavail s = 0 then sdsMakeRoomFor 1 s else Some s) = Some s1" "sds_open s1 t" "0 < sdsavail s1"
    using sds_open_room [OF "2.prems"(1), of 1] "2.prems"(1,3) by (cases "sdsavail s = 0") auto
  have plain: "\<exists>s'. (do { s \<leftarrow> fmt_char d (length t) s1; fmt_loop g ap (length t + 1) s }) = Some (length (t @ u), s') \<and> sds_open s' (t @ u)"
    if "u = d # v" and "\<And>s t. sds_open s t \<Longrightarrow> length t + length v + length g + 1 < 2 ^ 62 \<Longrightarrow>
        \<exists>s'. fmt_loop g ap (length t) s = Some (length (t @ v), s') \<and> sds_open s' (t @ v)"
      and "length g \<le> length f" for d g v
    using fmt_char_open [OF s1(2,3), of d] that(2) [of _ "t @ [d]"] that(1,3) "2.prems"(3) by fastforce
  show ?case
  proof (cases "c = CHR ''%''")
    case False
    then obtain v where "u = c # v" "fmt_output f ap = Some v"
      using "2.prems"(2) by auto
    then show ?thesis
      using plain [of c v f] "2.IH"(1) [OF False] s1(1) False by simp
  next
    case True
    then obtain d g where f: "f = d # g"
      using "2.prems"(2) by (cases f) auto
    show ?thesis
    proof (cases "is_directive d")
      case False
      then obtain v where "u = d # v" "fmt_output g ap = Some v"
        using "2.prems"(2) True f by auto
      then show ?thesis
        using plain [of d v g] "2.IH"(3) [of d g] s1(1) True False f by simp
    next
      case dir: True
      then obtain a ap' str v where v: "ap = a # ap'" "fmt_text d a = Some str" "fmt_output g ap' = Some v" "u = str @ v"
        using "2.prems"(2) True f by (auto split: list.splits bind_splits)
      obtain s2 where s2: "fmt_put str (length t) s1 = Some s2" "sds_open s2 (t @ str)"
        using fmt_put_open [OF s1(2), of str] "2.prems"(3) v(4) by auto
      then show ?thesis
        using "2.IH"(2) [of d g a ap' str s2 "t @ str" v] True dir f v s1(1) "2.prems"(3) by simp
    qed
  qed
qed

lemma sdscatfmt_rep:
  assumes rep: "sds_rep s t" and out: "fmt_output (c_string fmt) ap = Some u" and len: "2 * length t + length u + 2 * length fmt + 1 < 2 ^ 62"
  shows "\<exists>s'. sdscatfmt fmt ap s = Some s' \<and> sds_rep s' (t @ u)"
proof -
  have fmt: "strlen fmt \<le> length fmt" "length (c_string fmt) \<le> length fmt"
    by (simp_all add: strlen_def c_string_def length_takeWhile_le)
  obtain s1 where s1: "sdsMakeRoomFor (length t + strlen fmt * 2) s = Some s1" "sds_rep s1 t"
    using sdsMakeRoomFor_rep [OF rep, of "length t + strlen fmt * 2"] len fmt by auto
  obtain s2 where s2: "fmt_loop (c_string fmt) ap (length t) s1 = Some (length (t @ u), s2)" "sds_open s2 (t @ u)"
    using fmt_loop_open [OF sds_rep_open [OF s1(2)] out] len fmt by auto
  have eq: "sdscatfmt fmt ap s = write_buf (length (t @ u)) [CHR 0x00] s2"
    using s1(1) s2(1) rep by (simp add: sdscatfmt_def)
  have "has_room (length (t @ u)) s2" "take (length (t @ u)) (hdr_buf s2) = map Some (t @ u)"
    using s2(2) sds_fit_room [of s2 "length (t @ u)" "length (t @ u)"] by (simp_all add: sds_open_def)
  then obtain s3 where s3: "write_buf (length (t @ u)) [CHR 0x00] s2 = Some s3" "sds_rep (sdssetlen (length (t @ u)) s3) (t @ u)"
    using sds_rep_write [of "length (t @ u)" "[]" s2 "t @ u"] by auto
  moreover have "sdssetlen (length (t @ u)) s3 = s3"
    using s2(2) s3(1) by (auto simp: sds_open_def sds_fit_def write_buf_def sdssetlen_def)
  ultimately show ?thesis
    using eq by auto
qed

lemma c_string_take: "c_string t = takeWhile (\<lambda>c. c \<noteq> CHR 0x00) t"
  unfolding c_string_def strlen_def by (rule takeWhile_eq_take [symmetric])

lemma takeWhile_cut: "n < length t \<Longrightarrow> \<not> P (t ! n) \<Longrightarrow> takeWhile P (take (Suc n) t) = takeWhile P t"
proof (induction t arbitrary: n)
  case (Cons c t)
  then show ?case by (cases n) simp_all
qed simp

text \<open>The buffer of \<open>sdscatvprintf\<close> always has the whole text in the end.\<close>

lemma vprintf_loop_text: "2 \<le> buflen \<Longrightarrow> c_string (vprintf_loop out buflen) = c_string out"
proof (induction out buflen rule: vprintf_loop.induct)
  case (1 out buflen)
  show ?case
  proof (cases "buflen - 2 < length out \<and> out ! (buflen - 2) \<noteq> CHR 0x00")
    case True
    then show ?thesis
      using 1 by (subst vprintf_loop.simps) simp
  next
    case False
    have n: "buflen - 1 = Suc (buflen - 2)"
      using 1(2) by simp
    have "takeWhile (\<lambda>c. c \<noteq> CHR 0x00) (take (buflen - 1) out) = takeWhile (\<lambda>c. c \<noteq> CHR 0x00) out"
      using False takeWhile_cut [of "buflen - 2" out "\<lambda>c. c \<noteq> CHR 0x00"] unfolding n
      by (cases "buflen - 2 < length out") auto
    then show ?thesis
      using False by (subst vprintf_loop.simps) (auto simp: c_string_take)
  qed
qed

lemma sdscatvprintf_cat: "sdscatvprintf fmt out s = sdscatlen (c_string out) s"
  by (auto simp: sdscatvprintf_def sdscat_def vprintf_loop_text Let_def)

subsection \<open>A buffer that is appended to\<close>

text \<open>Appending is a refinement of the concatenation of byte lists; \<open>limit\<close> bounds the length.\<close>

locale append_buffer =
  fixes rep :: "'s \<Rightarrow> sds \<Rightarrow> bool"
    and cat :: "sds \<Rightarrow> 's \<Rightarrow> 's option"
    and limit :: nat
  assumes cat_rep: "rep s t \<Longrightarrow> length t + length u < limit \<Longrightarrow> \<exists>s'. cat u s = Some s' \<and> rep s' (t @ u)"

sublocale append_buffer \<subseteq> app: data_refinement rep cat "\<lambda>u t. t @ u" "\<lambda>u t. length t + length u < limit"
  by unfold_locales (rule cat_rep)

lemma fold_append: "fold (\<lambda>u t. t @ u) us t = t @ concat us"
  by (induction us arbitrary: t) simp_all

lemma all_ok_append:
  "length t + length (concat us) < limit \<Longrightarrow> all_ok (\<lambda>u t. length t + length u < limit) (\<lambda>u t. t @ u) us t"
  by (induction us arbitrary: t) simp_all

context append_buffer begin

lemma cat_all_rep:
  "rep s t \<Longrightarrow> length t + length (concat us) < limit \<Longrightarrow> \<exists>s'. run_steps cat us s = Some s' \<and> rep s' (t @ concat us)"
  using app.run_refines [of s t us] all_ok_append [of t us limit] by (simp add: fold_append)

end

interpretation sdsb: append_buffer sds_rep sdscatlen "2 ^ 62"
  by unfold_locales (rule sdscatlen_rep)

text \<open>Elements with a separator between them, and the text in quotes.\<close>

fun pieces :: "sds \<Rightarrow> sds list \<Rightarrow> sds list" where
  "pieces sep [] = []"
| "pieces sep [a] = [a]"
| "pieces sep (a # rest) = a # sep # pieces sep rest"

definition join_text :: "sds \<Rightarrow> sds list \<Rightarrow> sds" where
  "join_text sep argv = concat (pieces sep argv)"

definition quoted :: "sds \<Rightarrow> sds" where
  "quoted p = [CHR 0x22] @ concat (map repr_char p) @ [CHR 0x22]"

lemma join_text_simps [simp]:
  "join_text sep [] = []" "join_text sep [a] = a" "rest \<noteq> [] \<Longrightarrow> join_text sep (a # rest) = a @ sep @ join_text sep rest"
  by (cases rest; simp add: join_text_def)+

lemma pieces_Cons: "pieces sep (a # rest) = a # (if rest = [] then [] else sep # pieces sep rest)"
  by (cases rest) simp_all

lemma join_loop_cat: "join_loop argv sep = run_steps sdscatlen (pieces sep argv)"
  by (induction argv) (simp_all add: fun_eq_iff pieces_Cons del: pieces.simps(2,3) cong: Option.bind_cong)

lemma sdsjoinsds_rep:
  assumes "length (join_text sep argv) < 2 ^ 62"
  shows "\<exists>s. sdsjoinsds argv sep = Some s \<and> sds_rep s (join_text sep argv)"
proof -
  obtain e where e: "sdsempty = Some e" "sds_rep e []"
    using sdsempty_rep by blast
  have "sdsjoinsds argv sep = run_steps sdscatlen (pieces sep argv) e"
    unfolding sdsjoinsds_def join_loop_cat e(1) by simp
  then show ?thesis
    using sdsb.cat_all_rep [of e "[]" "pieces sep argv"] assms e(2) by (simp add: join_text_def)
qed

lemma repr_loop_cat: "repr_loop p = run_steps sdscatlen (map repr_char p)"
  by (induction p) (simp_all add: fun_eq_iff cong: Option.bind_cong)

lemma sdscatrepr_cat: "sdscatrepr s p = run_steps sdscatlen ([CHR 0x22] # map repr_char p @ [[CHR 0x22]]) s"
  by (simp add: sdscatrepr_def repr_loop_cat run_steps_append cong: Option.bind_cong)

subsection \<open>Reading a quoted text back\<close>

lemma hex_char_ok: "n < 16 \<Longrightarrow> is_hex_digit (hex_char n) \<and> hex_digit_to_int (hex_char n) = n \<and> hex_char n \<noteq> CHR 0x00"
proof -
  assume "n < 16"
  then have "n \<in> set [0 ..< 16]"
    by simp
  then show ?thesis
    by (auto simp: upt_rec is_hex_digit_def hex_char_def hex_digit_to_int_def)
qed

lemma of_char_halves: "of_char c div 16 < (16 :: nat)" "of_char c mod 16 < (16 :: nat)"
  using nat_of_char_less_256 [of c] by (simp_all add: less_mult_imp_div_less)

lemma repr_char_cases:
  "(\<exists>d \<in> {CHR 0x5C, CHR 0x22, CHR ''n'', CHR ''r'', CHR ''t'', CHR ''a'', CHR ''b''}. repr_char c = [CHR 0x5C, d]) \<or>
   repr_char c = [c] \<and> isprint c \<or>
   repr_char c = [CHR 0x5C, CHR ''x'', hex_char (of_char c div 16), hex_char (of_char c mod 16)]"
  by (simp add: repr_char_def)

lemma repr_plain:
  assumes "isprint c" "c \<noteq> CHR 0x5C" "c \<noteq> CHR 0x22"
  shows "repr_char c = [c]"
proof -
  have "\<not> isprint CHR 0x0A" "\<not> isprint CHR 0x0D" "\<not> isprint CHR 0x09" "\<not> isprint CHR 0x07" "\<not> isprint CHR 0x08"
    by (simp_all add: isprint_def)
  then have "c \<noteq> CHR 0x0A" "c \<noteq> CHR 0x0D" "c \<noteq> CHR 0x09" "c \<noteq> CHR 0x07" "c \<noteq> CHR 0x08"
    using assms(1) by auto
  then show ?thesis
    using assms by (simp add: repr_char_def)
qed

lemma token_repr_char: "token Inq (repr_char c @ p) current = token Inq p (current @ [c])"
proof (cases "c \<in> {CHR 0x5C, CHR 0x22, CHR 0x0A, CHR 0x0D, CHR 0x09, CHR 0x07, CHR 0x08}")
  case True
  then show ?thesis
    by (elim insertE emptyE) (simp_all add: repr_char_def unescape_def)
next
  case special: False
  show ?thesis
  proof (cases "isprint c")
    case True
    then show ?thesis
      using special by (simp add: repr_char_def)
  next
    case False
    then have "repr_char c = [CHR 0x5C, CHR ''x'', hex_char (of_char c div 16), hex_char (of_char c mod 16)]"
      using special by (simp add: repr_char_def)
    moreover have "char_of (of_char c div 16 * 16 + of_char c mod 16 :: nat) = c"
      by (simp only: div_mult_mod_eq char_of_char)
    ultimately show ?thesis
      using hex_char_ok [OF of_char_halves(1) [of c]] hex_char_ok [OF of_char_halves(2) [of c]]
      by (simp add: numeral_2_eq_2 numeral_3_eq_3)
  qed
qed

lemma token_repr:
  "quote_ends rest \<Longrightarrow> token Inq (concat (map repr_char p) @ CHR 0x22 # rest) current = Some (current @ p, rest)"
proof (induction p arbitrary: current)
  case Nil
  then show ?case by simp
next
  case (Cons c p)
  then show ?case
    using token_repr_char [of c "concat (map repr_char p) @ CHR 0x22 # rest"] by simp
qed

lemma token_quoted: "quote_ends rest \<Longrightarrow> token Plain (quoted p @ rest) [] = Some (p, rest)"
  using token_repr [of rest p "[]"] by (simp add: quoted_def)

lemma split_args_space: "isspace c \<Longrightarrow> split_args (c # p) vector = split_args p vector"
  by (subst (1 2) split_args.simps) simp

lemma split_args_quoted:
  "split_args (join_text '' '' (map quoted args)) vector = Some (vector @ args)"
proof (induction args arbitrary: vector)
  case Nil
  then show ?case by (simp add: split_args.simps)
next
  case (Cons a args)
  define rest where "rest = (if args = [] then [] else '' '' @ join_text '' '' (map quoted args))"
  have line: "join_text '' '' (map quoted (a # args)) = quoted a @ rest"
    by (simp add: rest_def)
  have q: "dropWhile isspace (quoted a @ rest) = quoted a @ rest" "quoted a @ rest \<noteq> []"
    by (simp_all add: quoted_def isspace_def)
  have "split_args rest (vector @ [a]) = split_args (join_text '' '' (map quoted args)) (vector @ [a])"
    using split_args_space [of "CHR '' ''"] by (simp add: rest_def isspace_def)
  moreover have "token Plain (quoted a @ rest) [] = Some (a, rest)"
    by (rule token_quoted) (simp add: rest_def quote_ends_def isspace_def)
  ultimately have "split_args (quoted a @ rest) vector = Some (vector @ a # args)"
    using q Cons.IH [of "vector @ [a]"] by (subst split_args.simps) (simp only: Let_def if_False option.case prod.case append_assoc append_Cons append_Nil simp_thms)
  then show ?case
    by (simp only: line)
qed

lemma repr_no_null: "CHR 0x00 \<notin> set (repr_char c)"
proof -
  have "\<not> isprint CHR 0x00"
    by (simp add: isprint_def)
  then have "isprint c \<Longrightarrow> c \<noteq> CHR 0x00"
    by auto
  then show ?thesis
    using repr_char_cases [of c] hex_char_ok [OF of_char_halves(1) [of c]] hex_char_ok [OF of_char_halves(2) [of c]] by auto
qed

lemma quoted_no_null: "CHR 0x00 \<notin> set (quoted p)"
  using repr_no_null by (auto simp: quoted_def)

lemma join_no_null: "CHR 0x00 \<notin> set (join_text '' '' (map quoted args))"
proof (induction args)
  case (Cons a args)
  then show ?case
    using quoted_no_null [of a] by (cases "args = []") auto
qed simp

lemma sdssplitargs_quoted: "sdssplitargs (join_text '' '' (map quoted args)) = Some args"
proof -
  have "takeWhile (\<lambda>c. c \<noteq> CHR 0x00) (join_text '' '' (map quoted args)) = join_text '' '' (map quoted args)"
    unfolding takeWhile_eq_all_conv using join_no_null [of args] by blast
  then show ?thesis
    unfolding sdssplitargs_def using split_args_quoted [of args "[]"] by (simp only: append_Nil)
qed

lemma concat_singles: "(\<And>x. x \<in> set xs \<Longrightarrow> f x = [x]) \<Longrightarrow> concat (map f xs) = xs"
  by (induction xs) simp_all

lemma dec_int_repr: "concat (map repr_char (dec_int n)) = dec_int n"
proof -
  have "repr_char c = [c]" if "c \<in> set (dec_int n)" for c
  proof -
    have "is_digit c \<or> c = CHR ''-''"
      using that by (auto simp: dec_int_def dest: dec_digits split: if_splits)
    moreover have "\<not> is_digit CHR 0x5C" "\<not> is_digit CHR 0x22" "isprint CHR ''-''"
      by (simp_all add: is_digit_def isprint_def)
    moreover have "is_digit c \<Longrightarrow> isprint c"
      by (simp add: is_digit_def isprint_def)
    ultimately show ?thesis
      by (intro repr_plain) auto
  qed
  then show ?thesis
    by (rule concat_singles)
qed

lemma feed_arg_rep:
  assumes "is_string a" and "sds_rep s t" and "length t + length (quoted (obj_string a)) < 2 ^ 62"
  shows "\<exists>s'. feed_arg a s = Some s' \<and> sds_rep s' (t @ quoted (obj_string a))"
proof (cases a)
  case (IntStr n)
  have "c_string ([CHR 0x22] @ dec_int n @ [CHR 0x22]) = quoted (dec_int n)"
    using quoted_no_null [of "dec_int n"] unfolding c_string_take by (simp add: quoted_def dec_int_repr takeWhile_eq_all_conv) blast
  then show ?thesis
    using sdscatlen_rep [OF assms(2), of "quoted (dec_int n)"] assms(3) IntStr by (simp add: sdscatvprintf_cat)
qed (use assms sdsb.cat_all_rep [OF assms(2), of "[CHR 0x22] # map repr_char (obj_string a) @ [[CHR 0x22]]"] in
      \<open>simp_all add: sdscatrepr_cat quoted_def\<close>)

lemma feed_args_rep:
  assumes "\<forall>a \<in> set args. is_string a" and "sds_rep s t"
    and "length t + length (join_text '' '' (map (\<lambda>a. quoted (obj_string a)) args)) < 2 ^ 62"
  shows "\<exists>s'. feed_args args s = Some s' \<and> sds_rep s' (t @ join_text '' '' (map (\<lambda>a. quoted (obj_string a)) args))"
  using assms
proof (induction args arbitrary: s t)
  case Nil
  then show ?case by simp
next
  case (Cons a args)
  let ?q = "quoted (obj_string a)"
  have len: "length t + length ?q + (if args = [] then 0 else 1 + length (join_text '' '' (map (\<lambda>a. quoted (obj_string a)) args))) < 2 ^ 62"
    using Cons.prems(3) by (cases "args = []") simp_all
  obtain s1 where s1: "feed_arg a s = Some s1" "sds_rep s1 (t @ ?q)"
    using feed_arg_rep [of a s t] Cons.prems(1,2) len by auto
  show ?case
  proof (cases "args = []")
    case True
    then show ?thesis using s1 by simp
  next
    case False
    obtain s2 where s2: "sdscatlen '' '' s1 = Some s2" "sds_rep s2 ((t @ ?q) @ '' '')"
      using sdscatlen_rep [OF s1(2), of "'' ''"] len False by auto
    then show ?thesis
      using Cons.IH [OF _ s2(2)] Cons.prems(1) len False s1(1) by simp
  qed
qed

definition monitor_prefix :: "nat \<Rightarrow> nat \<Rightarrow> command_source \<Rightarrow> int \<Rightarrow> sds" where
  "monitor_prefix sec usec source dictid = ''+'' @ c_string (time_text sec usec) @ c_string (source_text dictid source)"

text \<open>
  C12. Round trip of MONITOR: the line \<open>replicationFeedMonitors\<close> sends has the time and the source of the
  command, then the arguments in a form from which \<open>sdssplitargs\<close> reads the very same arguments, bytes that
  are not printable included, and ends with CR LF.
\<close>

theorem monitor_round_trip:
  assumes "\<forall>a \<in> set argv. is_string a"
    and "length (monitor_prefix sec usec source dictid) + length (join_text '' '' (map (\<lambda>a. quoted (obj_string a)) argv)) + 2 < 2 ^ 62"
  shows "\<exists>s line. replicationFeedMonitors sec usec source dictid argv = Some s \<and>
    sds_bytes s = Some (monitor_prefix sec usec source dictid @ line @ [CHR 0x0D, CHR 0x0A]) \<and>
    sdssplitargs line = Some (map obj_string argv)"
proof -
  let ?p = "monitor_prefix sec usec source dictid" and ?l = "join_text '' '' (map (\<lambda>a. quoted (obj_string a)) argv)"
  obtain s1 where s1: "sdsnew ''+'' = Some s1" "sds_rep s1 ''+''"
    using sdsnewlen_rep [of 1 "''+''"] by (auto simp: sdsnew_def strlen_def)
  obtain s2 where s2: "sdscatvprintf ''%ld.%06ld '' (time_text sec usec) s1 = Some s2" "sds_rep s2 (''+'' @ c_string (time_text sec usec))"
    using sdscatlen_rep [OF s1(2), of "c_string (time_text sec usec)"] assms(2) by (auto simp: sdscatvprintf_cat monitor_prefix_def)
  obtain s3 where s3: "sdscatvprintf (source_format source) (source_text dictid source) s2 = Some s3" "sds_rep s3 ?p"
    using sdscatlen_rep [OF s2(2), of "c_string (source_text dictid source)"] assms(2) by (auto simp: sdscatvprintf_cat monitor_prefix_def)
  obtain s4 where s4: "feed_args argv s3 = Some s4" "sds_rep s4 (?p @ ?l)"
    using feed_args_rep [OF assms(1) s3(2)] assms(2) by auto
  obtain s5 where s5: "sdscatlen [CHR 0x0D, CHR 0x0A] s4 = Some s5" "sds_rep s5 ((?p @ ?l) @ [CHR 0x0D, CHR 0x0A])"
    using sdscatlen_rep [OF s4(2), of "[CHR 0x0D, CHR 0x0A]"] assms(2) by auto
  have "sdssplitargs ?l = Some (map obj_string argv)"
    using sdssplitargs_quoted [of "map obj_string argv"] by (simp add: comp_def)
  then show ?thesis
    using s1(1) s2(1) s3(1) s4(1) s5 sds_rep_bytes [OF s5(2)] unfolding replicationFeedMonitors_def by auto
qed

theorem monitor_round_trip_witness:
  "\<exists>s line. replicationFeedMonitors 42 7 From_lua 0 [RawStr ''get'', IntStr 17, RawStr [CHR 0x22, CHR 0x00]] = Some s \<and>
    sds_bytes s = Some (monitor_prefix 42 7 From_lua 0 @ line @ [CHR 0x0D, CHR 0x0A]) \<and>
    sdssplitargs line = Some [''get'', ''17'', [CHR 0x22, CHR 0x00]]"
proof -
  let ?a = "[RawStr ''get'', IntStr 17, RawStr [CHR 0x22, CHR 0x00]]"
  have m: "map obj_string ?a = [''get'', ''17'', [CHR 0x22, CHR 0x00]]"
    by code_simp
  have "length (monitor_prefix 42 7 From_lua 0) + length (join_text '' '' (map (\<lambda>a. quoted (obj_string a)) ?a)) + 2 < 200"
    by code_simp
  then have l: "length (monitor_prefix 42 7 From_lua 0) + length (join_text '' '' (map (\<lambda>a. quoted (obj_string a)) ?a)) + 2 < 2 ^ 62"
    by (rule less_trans) simp
  show ?thesis
    using monitor_round_trip [OF _ l] unfolding m by simp
qed

subsection \<open>Splitting\<close>

definition occurs_at :: "sds \<Rightarrow> nat \<Rightarrow> sds \<Rightarrow> bool" where
  "occurs_at sep i t \<longleftrightarrow> i + length sep \<le> length t \<and> take (length sep) (drop i t) = sep"

lemma occurs_at_append: "occurs_at sep i t \<Longrightarrow> occurs_at sep i (t @ u)"
  by (auto simp: occurs_at_def)

lemma split_loop_join:
  assumes "sep \<noteq> []"
  shows "split_loop sep cur rest \<noteq> [] \<and> join_text sep (split_loop sep cur rest) = cur @ rest"
  using assms
proof (induction sep cur rest rule: split_loop.induct)
  case (1 sep cur rest)
  show ?case
  proof (cases "length rest < length sep")
    case True
    then show ?thesis by (simp add: split_loop.simps [of sep cur rest])
  next
    case False
    then have ne: "rest \<noteq> []"
      using 1(3) by auto
    show ?thesis
    proof (cases "take (length sep) rest = sep")
      case True
      then have "rest = sep @ drop (length sep) rest"
        by (metis append_take_drop_id)
      then show ?thesis
        using 1(1) [OF _ True] 1(3) False True by (simp add: split_loop.simps [of sep cur rest])
    next
      case occ: False
      then show ?thesis
        using 1(2) [OF _ occ] 1(3) False ne by (simp add: split_loop.simps [of sep cur rest])
    qed
  qed
qed

lemma split_loop_free:
  assumes "sep \<noteq> []" and "\<And>i. i < length cur \<Longrightarrow> \<not> occurs_at sep i (cur @ rest)" and "tok \<in> set (split_loop sep cur rest)"
  shows "\<not> occurs_at sep i tok"
  using assms
proof (induction sep cur rest rule: split_loop.induct)
  case (1 sep cur rest)
  have pos: "0 < length sep"
    using 1(3) by simp
  show ?case
  proof (cases "length rest < length sep")
    case True
    then have "tok = cur @ rest"
      using 1(5) by (simp add: split_loop.simps [of sep cur rest])
    then show ?thesis
      using 1(4) [of i] True by (cases "i < length cur") (auto simp: occurs_at_def)
  next
    case False
    then have ne: "rest \<noteq> []"
      using 1(3) by auto
    show ?thesis
    proof (cases "take (length sep) rest = sep")
      case True
      then have "tok = cur \<or> tok \<in> set (split_loop sep [] (drop (length sep) rest))"
        using 1(3,5) False by (simp add: split_loop.simps [of sep cur rest])
      then show ?thesis
      proof
        assume "tok = cur"
        moreover have "occurs_at sep i cur \<Longrightarrow> i < length cur"
          using pos unfolding occurs_at_def by linarith
        ultimately show ?thesis
          using 1(4) [of i] occurs_at_append [of sep i cur rest] by blast
      qed (use 1(1) [OF _ True] 1(3) False in auto)
    next
      case occ: False
      have "\<not> occurs_at sep k ((cur @ [hd rest]) @ tl rest)" if "k < length (cur @ [hd rest])" for k
        using 1(4) [of k] that occ ne by (cases "k < length cur") (auto simp: occurs_at_def less_Suc_eq)
      then show ?thesis
        using 1(2) [OF _ occ] 1(3,5) False occ by (simp add: split_loop.simps [of sep cur rest])
    qed
  qed
qed

text \<open>
  C13. Round trip of \<open>sdssplitlen\<close> and \<open>sdsjoinsds\<close>: the separator, which must not be empty, occurs in
  no element of the result, and joining the elements with it gives the string back.
\<close>

theorem split_join_round_trip:
  assumes "sdssplitlen s sep = Some tokens" and "length s < 2 ^ 62"
  shows "sep \<noteq> [] \<and> (\<forall>tok \<in> set tokens. \<forall>i. \<not> occurs_at sep i tok) \<and>
    (\<exists>j. sdsjoinsds tokens sep = Some j \<and> sds_bytes j = Some s)"
proof -
  have sep: "sep \<noteq> []" and t: "tokens = (if s = [] then [] else split_loop sep [] s)"
    using assms(1) by (auto simp: sdssplitlen_def split: if_splits)
  have "join_text sep tokens = s"
    using split_loop_join [OF sep, of "[]" s] by (simp add: t)
  moreover have "\<forall>tok \<in> set tokens. \<forall>i. \<not> occurs_at sep i tok"
    using split_loop_free [OF sep, of "[]" s] by (simp add: t)
  ultimately show ?thesis
    using sdsjoinsds_rep [of sep tokens] assms(2) sep by auto
qed

theorem split_join_round_trip_witness:
  "\<exists>j. sdssplitlen ''a--b-'' ''--'' = Some [''a'', ''b-''] \<and> sdsjoinsds [''a'', ''b-''] ''--'' = Some j \<and> sds_bytes j = Some ''a--b-''"
proof -
  have s: "sdssplitlen ''a--b-'' ''--'' = Some [''a'', ''b-'']"
    by code_simp
  then show ?thesis
    using split_join_round_trip [OF s] by simp
qed

subsection \<open>The operations as refinements\<close>

text \<open>
  The operations on a string in memory, as one step each.  \<open>Op_read\<close> is the way \<open>readQueryFromClient\<close> fills a
  buffer: room is made, the system writes behind the contents, and \<open>sdsIncrLen\<close> adds the number of bytes.
\<close>

datatype sds_op =
    Op_cat sds | Op_cpy sds | Op_growzero nat | Op_trim sds | Op_range int int | Op_clear
  | Op_remove_free | Op_dup | Op_room nat | Op_read sds | Op_cut nat | Op_repr sds | Op_fmt sds "fmt_arg list"

fun sds_exec :: "sds_op \<Rightarrow> sdshdr \<Rightarrow> sdshdr option" where
  "sds_exec (Op_cat u) s = sdscatlen u s"
| "sds_exec (Op_cpy u) s = sdscpylen u s"
| "sds_exec (Op_growzero n) s = sdsgrowzero_buf n s"
| "sds_exec (Op_trim cset) s = sdstrim cset s"
| "sds_exec (Op_range start end') s = sdsrange start end' s"
| "sds_exec Op_clear s = sdsclear s"
| "sds_exec Op_remove_free s = sdsRemoveFreeSpace s"
| "sds_exec Op_dup s = sdsdup s"
| "sds_exec (Op_room n) s = sdsMakeRoomFor n s"
| "sds_exec (Op_read u) s = do { s \<leftarrow> sdsMakeRoomFor (length u) s; s \<leftarrow> write_buf (sdslen s) u s; sdsIncrLen (int (length u)) s }"
| "sds_exec (Op_cut n) s = sdsIncrLen (- int n) s"
| "sds_exec (Op_repr p) s = sdscatrepr s p"
| "sds_exec (Op_fmt fmt ap) s = sdscatfmt fmt ap s"

fun sds_spec :: "sds_op \<Rightarrow> sds \<Rightarrow> sds" where
  "sds_spec (Op_cat u) t = t @ u"
| "sds_spec (Op_cpy u) t = u"
| "sds_spec (Op_growzero n) t = t @ replicate (n - length t) CHR 0x00"
| "sds_spec (Op_trim cset) t = trimmed cset t"
| "sds_spec (Op_range start end') t = byte_range start end' t"
| "sds_spec Op_clear t = []"
| "sds_spec (Op_read u) t = t @ u"
| "sds_spec (Op_cut n) t = take (length t - n) t"
| "sds_spec (Op_repr p) t = t @ quoted p"
| "sds_spec (Op_fmt fmt ap) t = t @ the (fmt_output (c_string fmt) ap)"
| "sds_spec _ t = t"

text \<open>
  What a step needs: strings stay below \<open>2 ^ 62\<close> bytes, indices are in the range of their type, and
  formats fit their arguments.  \<open>sdsIncrLen\<close> with zero fails its assertion on the smallest header.
\<close>

fun sds_ok :: "sds_op \<Rightarrow> sds \<Rightarrow> bool" where
  "sds_ok (Op_cat u) t = (length t + length u < 2 ^ 62)"
| "sds_ok (Op_cpy u) t = (length u < 2 ^ 62)"
| "sds_ok (Op_growzero n) t = (n < 2 ^ 62)"
| "sds_ok (Op_trim cset) t = True"
| "sds_ok (Op_range start end') t = (length t < 2 ^ 62 \<and> - (2 ^ 63) \<le> start \<and> - (2 ^ 63) \<le> end')"
| "sds_ok Op_clear t = True"
| "sds_ok (Op_room n) t = (length t + n < 2 ^ 62)"
| "sds_ok (Op_read u) t = (u \<noteq> [] \<and> length t + length u < 2 ^ 62)"
| "sds_ok (Op_cut n) t = (0 < n \<and> n \<le> length t)"
| "sds_ok (Op_repr p) t = (length t + length (quoted p) < 2 ^ 62)"
| "sds_ok (Op_fmt fmt ap) t =
     (case fmt_output (c_string fmt) ap of None \<Rightarrow> False | Some u \<Rightarrow> 2 * length t + length u + 2 * length fmt + 1 < 2 ^ 62)"
| "sds_ok _ t = (length t < 2 ^ 62)"

lemma sdscatrepr_rep:
  "sds_rep s t \<Longrightarrow> length t + length (quoted p) < 2 ^ 62 \<Longrightarrow> \<exists>s'. sdscatrepr s p = Some s' \<and> sds_rep s' (t @ quoted p)"
  using sdsb.cat_all_rep [of s t "[CHR 0x22] # map repr_char p @ [[CHR 0x22]]"] by (simp add: sdscatrepr_cat quoted_def)

lemma sds_read_rep:
  assumes "sds_rep s t" "sds_ok (Op_read u) t"
  shows "\<exists>s'. sds_exec (Op_read u) s = Some s' \<and> sds_rep s' (t @ u)"
proof -
  obtain s1 where "sdsMakeRoomFor (length u) s = Some s1" "sds_rep s1 t" "length u \<le> sdsavail s1"
    using sdsMakeRoomFor_rep [of s t "length u"] assms by auto
  then show ?thesis
    using sdsIncrLen_grow [of s1 t u] assms(2) by auto
qed

lemma sds_step_refines: "sds_rep s t \<Longrightarrow> sds_ok x t \<Longrightarrow> \<exists>s'. sds_exec x s = Some s' \<and> sds_rep s' (sds_spec x t)"
proof (cases x)
  case (Op_read u)
  then show "sds_rep s t \<Longrightarrow> sds_ok x t \<Longrightarrow> \<exists>s'. sds_exec x s = Some s' \<and> sds_rep s' (sds_spec x t)"
    using sds_read_rep by simp
next
  case (Op_room n)
  then show "sds_rep s t \<Longrightarrow> sds_ok x t \<Longrightarrow> \<exists>s'. sds_exec x s = Some s' \<and> sds_rep s' (sds_spec x t)"
    using sdsMakeRoomFor_rep [of s t n] by auto
next
  case Op_remove_free
  then show "sds_rep s t \<Longrightarrow> sds_ok x t \<Longrightarrow> \<exists>s'. sds_exec x s = Some s' \<and> sds_rep s' (sds_spec x t)"
    using sdsRemoveFreeSpace_rep [of s t] by auto
qed (simp_all add: sdscatlen_rep sdscpylen_rep sdsgrowzero_rep sdstrim_rep sdsrange_rep sdsclear_rep sdsdup_rep
      sdsIncrLen_cut sdscatrepr_rep sdscatfmt_rep split: option.splits)

interpretation sdsr: data_refinement sds_rep sds_exec sds_spec sds_ok
  by unfold_locales (rule sds_step_refines)

text \<open>
  C11. Refinement: every sequence of operations on a string in memory runs without leaving its block,
  without reading a byte that was never written and without a failed assertion, and computes what the
  operations on byte lists compute; the length in the header is right and a null byte follows the contents.
\<close>

theorem sds_refines:
  assumes "sds_rep s t" and "all_ok sds_ok sds_spec ops t"
  shows "\<exists>s'. run_steps sds_exec ops s = Some s' \<and> sds_bytes s' = Some (fold sds_spec ops t) \<and>
    sdslen s' = length (fold sds_spec ops t) \<and> hdr_buf s' ! sdslen s' = Some CHR 0x00 \<and>
    sdsavail s' + sdslen s' < length (hdr_buf s')"
proof -
  obtain s' where s': "run_steps sds_exec ops s = Some s'" "sds_rep s' (fold sds_spec ops t)"
    using sdsr.run_refines [OF assms] by blast
  then show ?thesis
    using sds_rep_null [OF s'(2)] by simp
qed

theorem sds_refines_witness:
  "\<exists>s s'. sdsnew ''redis'' = Some s \<and> sds_bytes s' = Some ''is cache[7]'' \<and>
     run_steps sds_exec [Op_cat ''oo'', Op_range 3 (- 3), Op_read '' cache  '', Op_trim '' '', Op_fmt ''[%i]'' [Arg_int 7]] s = Some s'"
proof -
  let ?ops = "[Op_cat ''oo'', Op_range 3 (- 3), Op_read '' cache  '', Op_trim '' '', Op_fmt ''[%i]'' [Arg_int 7]]"
  obtain s where s: "sdsnew ''redis'' = Some s" "sds_rep s ''redis''"
    using sdsnewlen_rep [of "length ''redis''" "''redis''"] by (auto simp: sdsnew_def strlen_def)
  have f: "fold sds_spec ?ops ''redis'' = ''is cache[7]''"
    by code_simp
  have r: "byte_range 3 (- 3) ''redisoo'' = ''is''" "trimmed '' '' ''is cache  '' = ''is cache''"
      "fmt_output (c_string ''[%i]'') [Arg_int 7] = Some ''[7]''"
    by code_simp+
  have "all_ok sds_ok sds_spec ?ops ''redis''"
    by (simp add: r)
  then show ?thesis
    using sds_refines [OF s(2), of ?ops] s(1) unfolding f by blast
qed

end
