(* ===== verification/Protocol.thy ===== *)
theory Protocol
  imports Sds
begin

text \<open>
  The parser of requests in \<open>src/src/networking.c\<close>: inline requests (a line of text) and multi bulk requests (a
  counted list of counted byte strings), read from a buffer that grows by whatever the system has received.

  The reader is the part of \<open>client\<close> the parser works on.  An error of the protocol is recorded and closes the
  client; a failed assertion is \<^const>\<open>None\<close>.  The commands go to a sink: a function that executes a command and
  tells whether the client was reset after it, and a predicate that says that the client takes no further
  command for now (it waits for the backend, is paused or is to be closed).  What follows in the buffer is then
  left for later.
\<close>

subsection \<open>State\<close>

datatype reqtype = PROTO_REQ_NONE | PROTO_REQ_INLINE | PROTO_REQ_MULTIBULK

datatype proto_error =
    Too_big_inline | Unbalanced_quotes | Too_big_mbulk_count | Invalid_multibulk_length
  | Too_big_bulk_count | Expected_dollar char | Invalid_bulk_length

record reader =
  qbuf :: sds
  qb_pos :: nat
  r_reqtype :: reqtype
  multibulklen :: nat
  bulklen :: int
  r_argv :: "sds list"
  r_error :: "proto_error option"
  r_close :: bool

definition new_reader :: reader where
  "new_reader = \<lparr>qbuf = [], qb_pos = 0, r_reqtype = PROTO_REQ_NONE, multibulklen = 0, bulklen = - 1, r_argv = [],
     r_error = None, r_close = False\<rparr>"

definition PROTO_INLINE_MAX_SIZE :: nat where
  "PROTO_INLINE_MAX_SIZE = 1024 * 64"

definition PROTO_MBULK_BIG_ARG :: int where
  "PROTO_MBULK_BIG_ARG = 1024 * 32"

text \<open>The bytes from \<open>qb_pos\<close> on.\<close>

definition unread :: "reader \<Rightarrow> sds" where
  "unread r = drop (qb_pos r) (qbuf r)"

definition setProtocolError :: "proto_error \<Rightarrow> reader \<Rightarrow> reader" where
  "setProtocolError e r = r\<lparr>r_error := Some e, r_close := True\<rparr>"

definition resetReader :: "reader \<Rightarrow> reader" where
  "resetReader r = r\<lparr>r_argv := [], r_reqtype := PROTO_REQ_NONE, multibulklen := 0, bulklen := - 1\<rparr>"

text \<open>\<open>strchr\<close> on the buffer: it stops at a null byte, also one within the contents.\<close>

definition strchr :: "char \<Rightarrow> sds \<Rightarrow> nat option" where
  "strchr ch t = (let n = length (takeWhile (\<lambda>c. c \<noteq> ch \<and> c \<noteq> CHR 0x00) t) in if n < length t \<and> t ! n = ch then Some n else None)"

abbreviation CR :: char where "CR \<equiv> CHR 0x0D"
abbreviation LF :: char where "LF \<equiv> CHR 0x0A"

subsection \<open>Inline requests\<close>

text \<open>The result tells whether a request is complete (\<open>C_OK\<close>).\<close>

definition processInlineBuffer :: "reader \<Rightarrow> bool \<times> reader" where
  "processInlineBuffer r =
     (let u = unread r
      in case strchr LF u of
           None \<Rightarrow> (False, if length u > PROTO_INLINE_MAX_SIZE then setProtocolError Too_big_inline r else r)
         | Some newline \<Rightarrow>
             let (newline, linefeed_chars) = (if newline \<noteq> 0 \<and> u ! (newline - 1) = CR then (newline - 1, 2) else (newline, 1));
                 aux = take newline u
             in case sdssplitargs aux of
                  None \<Rightarrow> (False, setProtocolError Unbalanced_quotes r)
                | Some argv \<Rightarrow> (True, r\<lparr>qb_pos := qb_pos r + newline + linefeed_chars, r_argv := argv\<rparr>))"

subsection \<open>Multi bulk requests\<close>

text \<open>Where the parser stands: the request is complete, needs more bytes or is in error, or goes on.\<close>

datatype progress = Complete | Wait | Continue

definition mbulk_header :: "reader \<Rightarrow> (progress \<times> reader) option" where
  "mbulk_header r =
     (let u = unread r
      in case strchr CR u of
           None \<Rightarrow> Some (Wait, if length u > PROTO_INLINE_MAX_SIZE then setProtocolError Too_big_mbulk_count r else r)
         | Some newline \<Rightarrow>
             if int newline > int (length u) - 2 then Some (Wait, r)
             else if u ! 0 \<noteq> CHR ''*'' then None
             else case string2ll (take (newline - 1) (drop 1 u)) of
                    None \<Rightarrow> Some (Wait, setProtocolError Invalid_multibulk_length r)
                  | Some ll \<Rightarrow>
                      if ll > 1024 * 1024 then Some (Wait, setProtocolError Invalid_multibulk_length r)
                      else
                        let r = r\<lparr>qb_pos := qb_pos r + newline + 2\<rparr>
                        in if ll \<le> 0 then Some (Complete, r) else Some (Continue, r\<lparr>multibulklen := nat ll\<rparr>))"

text \<open>A large argument is moved to the start of the buffer, so that the buffer can become the argument.\<close>

definition move_to_start :: "reader \<Rightarrow> reader" where
  "move_to_start r = r\<lparr>qbuf := byte_range (int (qb_pos r)) (- 1) (qbuf r), qb_pos := 0\<rparr>"

definition bulk_length :: "int \<Rightarrow> reader \<Rightarrow> progress \<times> reader" where
  "bulk_length proto_max_bulk_len r =
     (if bulklen r \<noteq> - 1 then (Continue, r)
      else
        let u = unread r
        in case strchr CR u of
             None \<Rightarrow> (Wait, if length u > PROTO_INLINE_MAX_SIZE then setProtocolError Too_big_bulk_count r else r)
           | Some newline \<Rightarrow>
               if int newline > int (length u) - 2 then (Wait, r)
               else if u ! 0 \<noteq> CHR ''$'' then (Wait, setProtocolError (Expected_dollar (u ! 0)) r)
               else case string2ll (take (newline - 1) (drop 1 u)) of
                      None \<Rightarrow> (Wait, setProtocolError Invalid_bulk_length r)
                    | Some ll \<Rightarrow>
                        if ll < 0 \<or> ll > proto_max_bulk_len then (Wait, setProtocolError Invalid_bulk_length r)
                        else
                          let r = r\<lparr>qb_pos := qb_pos r + newline + 2\<rparr>;
                              r = (if ll \<ge> PROTO_MBULK_BIG_ARG \<and> int (length (unread r)) \<le> ll + 2 then move_to_start r else r)
                          in (Continue, r\<lparr>bulklen := ll\<rparr>))"

text \<open>The argument: a buffer that holds just it is taken over without its last two bytes, else the bytes are copied.\<close>

definition take_bulk :: "reader \<Rightarrow> reader" where
  "take_bulk r =
     (let n = nat (bulklen r);
          r' = (if qb_pos r = 0 \<and> bulklen r \<ge> PROTO_MBULK_BIG_ARG \<and> length (qbuf r) = n + 2
                then r\<lparr>r_argv := r_argv r @ [take (length (qbuf r) - 2) (qbuf r)], qbuf := []\<rparr>
                else r\<lparr>r_argv := r_argv r @ [take n (unread r)], qb_pos := qb_pos r + n + 2\<rparr>)
      in r'\<lparr>bulklen := - 1, multibulklen := multibulklen r - 1\<rparr>)"

text \<open>The loop over the arguments that are still missing; their number is \<open>multibulklen\<close>.\<close>

fun mbulk_args :: "int \<Rightarrow> nat \<Rightarrow> reader \<Rightarrow> progress \<times> reader" where
  "mbulk_args proto_max_bulk_len 0 r = (Complete, r)"
| "mbulk_args proto_max_bulk_len (Suc n) r =
     (case bulk_length proto_max_bulk_len r of
        (Continue, r) \<Rightarrow>
          if int (length (unread r)) < bulklen r + 2 then (Wait, r) else mbulk_args proto_max_bulk_len n (take_bulk r)
      | (p, r) \<Rightarrow> (Wait, r))"

definition processMultibulkBuffer :: "int \<Rightarrow> reader \<Rightarrow> (bool \<times> reader) option" where
  "processMultibulkBuffer proto_max_bulk_len r = do {
     (p, r) \<leftarrow> (if multibulklen r = 0 then (if r_argv r = [] then mbulk_header r else None) else Some (Continue, r));
     (case p of
        Complete \<Rightarrow> Some (True, r)
      | Wait \<Rightarrow> Some (False, r)
      | Continue \<Rightarrow>
          if multibulklen r = 0 then None
          else let (p, r) = mbulk_args proto_max_bulk_len (multibulklen r) r in Some (p = Complete, r))
   }"

subsection \<open>The input loop\<close>

text \<open>
  What the server makes of the commands: \<open>busy\<close> and \<open>execute\<close> are the sink, \<open>gopher\<close> is the setting of that name;
  a Gopher request ends the connection without a command.
\<close>

record 's sink =
  proto_max_bulk_len :: int
  client_max_querybuf_len :: nat
  gopher_enabled :: bool
  busy :: "'s \<Rightarrow> bool"
  execute :: "sds list \<Rightarrow> 's \<Rightarrow> ('s \<times> bool) option"

definition is_gopher :: "sds list \<Rightarrow> bool" where
  "is_gopher argv \<longleftrightarrow> argv = [] \<or> length argv = 1 \<and> argv ! 0 \<noteq> [] \<and> hd (argv ! 0) = CHR ''/''"

definition request_type :: "reader \<Rightarrow> reader" where
  "request_type r =
     (if r_reqtype r = PROTO_REQ_NONE
      then r\<lparr>r_reqtype := if unread r ! 0 = CHR ''*'' then PROTO_REQ_MULTIBULK else PROTO_REQ_INLINE\<rparr> else r)"

definition next_request :: "int \<Rightarrow> reader \<Rightarrow> (bool \<times> reader) option" where
  "next_request maxbulk r =
     (if r_reqtype r = PROTO_REQ_INLINE then Some (processInlineBuffer r) else processMultibulkBuffer maxbulk r)"

text \<open>A round of the loop takes at least one byte off the buffer or ends it, so that the bytes bound the rounds.\<close>

fun input_loop :: "nat \<Rightarrow> 's sink \<Rightarrow> reader \<Rightarrow> 's \<Rightarrow> (reader \<times> 's) option" where
  "input_loop 0 k r s = Some (r, s)"
| "input_loop (Suc n) k r s =
     (if qb_pos r < length (qbuf r) \<and> \<not> busy k s \<and> \<not> r_close r then do {
        let r = request_type r;
        (ok, r') \<leftarrow> next_request (proto_max_bulk_len k) r;
        if \<not> ok then Some (r', s)
        else if r_reqtype r = PROTO_REQ_INLINE \<and> gopher_enabled k \<and> is_gopher (r_argv r')
        then Some ((resetReader r')\<lparr>r_close := True\<rparr>, s)
        else if r_argv r' = [] then input_loop n k (resetReader r') s
        else do {
          (s, reset) \<leftarrow> execute k (r_argv r') s;
          input_loop n k (if reset then resetReader r' else r') s
        }
      } else Some (r, s))"

definition processInputBytes :: "'s sink \<Rightarrow> reader \<Rightarrow> 's \<Rightarrow> (reader \<times> 's) option" where
  "processInputBytes k r s = do {
     (r, s) \<leftarrow> input_loop (length (unread r)) k r s;
     Some (if qb_pos r \<noteq> 0 then move_to_start r else r, s)
   }"

text \<open>The bytes of one \<open>read\<close> are appended; a buffer beyond the limit closes the client.\<close>

definition readBytes :: "'s sink \<Rightarrow> sds \<Rightarrow> reader \<Rightarrow> 's \<Rightarrow> (reader \<times> 's) option" where
  "readBytes k bytes r s =
     (let r = r\<lparr>qbuf := qbuf r @ bytes\<rparr>
      in if length (qbuf r) > client_max_querybuf_len k then Some (r\<lparr>r_close := True\<rparr>, s)
         else processInputBytes k r s)"

subsection \<open>Requests and their bytes\<close>

datatype request = Multi "sds list" | Inline "sds list"

definition enc_bulk :: "sds \<Rightarrow> sds" where
  "enc_bulk a = CHR ''$'' # dec (length a) @ [CR, LF] @ a @ [CR, LF]"

fun encode :: "request \<Rightarrow> sds" where
  "encode (Multi args) = CHR ''*'' # dec (length args) @ [CR, LF] @ concat (map enc_bulk args)"
| "encode (Inline args) = join_text '' '' (map quoted args) @ [CR, LF]"

fun request_argv :: "request \<Rightarrow> sds list" where
  "request_argv (Multi args) = args"
| "request_argv (Inline args) = args"

fun request_reqtype :: "request \<Rightarrow> reqtype" where
  "request_reqtype (Multi args) = PROTO_REQ_MULTIBULK"
| "request_reqtype (Inline args) = PROTO_REQ_INLINE"

text \<open>The limits a request has to keep.\<close>

fun request_ok :: "int \<Rightarrow> bool \<Rightarrow> request \<Rightarrow> bool" where
  "request_ok maxbulk gopher (Multi args) \<longleftrightarrow>
     length args \<le> 1024 * 1024 \<and> (\<forall>a \<in> set args. int (length a) \<le> maxbulk \<and> int (length a) \<le> LLONG_MAX)"
| "request_ok maxbulk gopher (Inline args) \<longleftrightarrow>
     length (encode (Inline args)) \<le> PROTO_INLINE_MAX_SIZE \<and> (gopher \<longrightarrow> \<not> is_gopher args)"

text \<open>
  The reader has the bytes of the requests \<open>reqs\<close> before it, up to those that are still to be received, \<open>fut\<close>:
  between two requests, or within a multi bulk request, before the length of an argument or before the argument.
\<close>

definition between :: "reader \<Rightarrow> sds \<Rightarrow> request list \<Rightarrow> bool" where
  "between r fut reqs \<longleftrightarrow>
     multibulklen r = 0 \<and> bulklen r = - 1 \<and> r_argv r = [] \<and> unread r @ fut = concat (map encode reqs) \<and>
     (r_reqtype r = PROTO_REQ_NONE \<or> reqs \<noteq> [] \<and> r_reqtype r = request_reqtype (hd reqs))"

definition within :: "reader \<Rightarrow> sds \<Rightarrow> sds list \<Rightarrow> sds \<Rightarrow> bool" where
  "within r fut args rest \<longleftrightarrow>
     multibulklen r = length args \<and> r_reqtype r = PROTO_REQ_MULTIBULK \<and>
     (bulklen r = - 1 \<and> unread r @ fut = concat (map enc_bulk args) @ rest \<or>
      args \<noteq> [] \<and> bulklen r = int (length (hd args)) \<and> unread r @ fut = hd args @ [CR, LF] @ concat (map enc_bulk (tl args)) @ rest)"

definition reader_ok :: "reader \<Rightarrow> bool" where
  "reader_ok r \<longleftrightarrow> qb_pos r \<le> length (qbuf r) \<and> \<not> r_close r \<and> r_error r = None"

definition reading :: "int \<Rightarrow> bool \<Rightarrow> reader \<Rightarrow> sds \<Rightarrow> request list \<Rightarrow> bool" where
  "reading maxbulk gopher r fut reqs \<longleftrightarrow> reader_ok r \<and> (\<forall>q \<in> set reqs. request_ok maxbulk gopher q) \<and>
     (between r fut reqs \<or>
      (\<exists>args rest. reqs = Multi (r_argv r @ args) # rest \<and> args \<noteq> [] \<and> within r fut args (concat (map encode rest))))"

subsection \<open>Lines\<close>

lemma hex_char_print: "n < 16 \<Longrightarrow> isprint (hex_char n)"
proof -
  assume "n < 16"
  then have "n \<in> set [0 ..< 16]"
    by simp
  then show ?thesis
    by (auto simp: upt_rec isprint_def hex_char_def)
qed

lemma repr_printable: "x \<in> set (repr_char c) \<Longrightarrow> isprint x"
proof -
  assume x: "x \<in> set (repr_char c)"
  have p: "\<forall>d \<in> {CHR 0x5C, CHR 0x22, CHR ''n'', CHR ''r'', CHR ''t'', CHR ''a'', CHR ''b'', CHR ''x''}. isprint d"
    by (simp add: isprint_def)
  from repr_char_cases [of c] show ?thesis
  proof (elim disjE bexE)
    fix d
    assume "d \<in> {CHR 0x5C, CHR 0x22, CHR ''n'', CHR ''r'', CHR ''t'', CHR ''a'', CHR ''b''}" "repr_char c = [CHR 0x5C, d]"
    then show ?thesis using x p by auto
  next
    assume "repr_char c = [CHR 0x5C, CHR ''x'', hex_char (of_char c div 16), hex_char (of_char c mod 16)]"
    then show ?thesis
      using x p hex_char_print [OF of_char_halves(1) [of c]] hex_char_print [OF of_char_halves(2) [of c]] by auto
  qed (use x in auto)
qed

lemma join_printable: "x \<in> set (join_text '' '' (map quoted args)) \<Longrightarrow> isprint x"
proof (induction args)
  case (Cons a args)
  have "isprint CHR 0x22" "isprint CHR '' ''"
    by (simp_all add: isprint_def)
  then have "isprint x" if "x \<in> set (quoted a)"
    using that repr_printable by (auto simp: quoted_def)
  then show ?case
    using Cons \<open>isprint CHR '' ''\<close> by (cases "args = []") auto
qed simp

lemma not_isprint: "\<not> isprint CR" "\<not> isprint LF" "\<not> isprint CHR 0x00"
  by (simp_all add: isprint_def)

lemma digit_print: "is_digit c \<Longrightarrow> isprint c"
  by (simp add: is_digit_def isprint_def)

text \<open>The line \<open>h\<close> that starts the bytes to come: either all of it is in the buffer, or its end is not.\<close>

lemma strchr_whole:
  assumes "\<forall>c \<in> set h. c \<noteq> ch \<and> c \<noteq> CHR 0x00" and "u @ fut = h @ ch # rest" and "length h < length u"
  shows "strchr ch u = Some (length h)"
proof -
  obtain v where u: "u = h @ ch # v"
    using assms(2,3) by (auto simp: append_eq_append_conv2 append_eq_Cons_conv)
  have "takeWhile (\<lambda>c. c \<noteq> ch \<and> c \<noteq> CHR 0x00) u = h"
    unfolding u using assms(1) by (subst takeWhile_append2) auto
  then show ?thesis
    by (simp add: strchr_def Let_def u nth_append)
qed

lemma strchr_short:
  assumes "\<forall>c \<in> set h. c \<noteq> ch" and "u @ fut = h @ rest" and "length u \<le> length h"
  shows "strchr ch u = None"
proof -
  have "set u \<subseteq> set h"
    using assms(2,3) by (auto simp: append_eq_append_conv2)
  then show ?thesis
    using assms(1) by (auto simp: strchr_def Let_def dest: nth_mem)
qed

lemma append_whole: "u @ fut = h @ rest \<Longrightarrow> length h \<le> length u \<Longrightarrow> \<exists>v. u = h @ v \<and> v @ fut = rest"
  by (auto simp: append_eq_append_conv2)

lemma append_prefix:
  assumes "u @ fut = h @ rest" and "length h \<le> length u"
  shows "take (length h) u = h" "drop (length h) u @ fut = rest"
  using assms by (auto simp: append_eq_append_conv2)

text \<open>The two lines of a multi bulk request: a mark and a number.\<close>

lemma number_line:
  assumes "u @ fut = (m # dec n) @ [CR, LF] @ rest" and "isprint m"
  shows "length (dec n) + 3 \<le> length u \<and> strchr CR u = Some (length (dec n) + 1) \<and> u ! 0 = m \<and>
      take (length (dec n)) (drop 1 u) = dec n \<and> drop (length (dec n) + 3) u @ fut = rest \<or>
    length u < length (dec n) + 3 \<and> (strchr CR u = None \<and> length u \<le> length (dec n) + 1 \<or>
      strchr CR u = Some (length (dec n) + 1) \<and> length u = length (dec n) + 2)"
proof -
  have h: "\<forall>c \<in> set (m # dec n). c \<noteq> CR \<and> c \<noteq> CHR 0x00"
    using assms(2) dec_digits digit_print not_isprint by auto
  have w: "length (dec n) + 1 < length u \<Longrightarrow> strchr CR u = Some (length (dec n) + 1)"
    using strchr_whole [OF h, of u fut "LF # rest"] assms(1) by simp
  show ?thesis
  proof (cases "length (dec n) + 3 \<le> length u")
    case True
    then obtain v where "u = (m # dec n) @ [CR, LF] @ v" "v @ fut = rest"
      using append_whole [of u fut "(m # dec n) @ [CR, LF]" rest] assms(1) by (auto simp: numeral_3_eq_3)
    then show ?thesis
      using w by (simp add: numeral_3_eq_3)
  next
    case False
    then show ?thesis
      using w strchr_short [of "m # dec n" CR u fut] h assms(1) by (cases "length u \<le> length (dec n) + 1") auto
  qed
qed

lemma string2ll_dec: "int n \<le> LLONG_MAX \<Longrightarrow> string2ll (dec n) = Some (int n)"
  unfolding string2ll_iff by (simp add: is_ll_def dec_int_def LLONG_MIN_def)

lemma length_dec_number: "int n \<le> LLONG_MAX \<Longrightarrow> length (dec n) \<le> 20"
  using length_dec_int [of "int n"] by (simp add: is_ll_def dec_int_def LLONG_MIN_def)

lemma isprint_marks: "isprint CHR ''*''" "isprint CHR ''$''"
  by (simp_all add: isprint_def)

lemma byte_range_drop: "byte_range (int n) (- 1) t = drop n t"
  by (cases t) (simp_all add: byte_range_def index_from_def)

lemma move_to_start_simps [simp]:
  "unread (move_to_start r) = unread r" "qb_pos (move_to_start r) = 0" "multibulklen (move_to_start r) = multibulklen r"
  "bulklen (move_to_start r) = bulklen r" "r_argv (move_to_start r) = r_argv r" "r_reqtype (move_to_start r) = r_reqtype r"
  "r_close (move_to_start r) = r_close r" "r_error (move_to_start r) = r_error r"
  by (simp_all add: move_to_start_def unread_def byte_range_drop)

lemma reader_ok_move [simp]: "reader_ok r \<Longrightarrow> reader_ok (move_to_start r)"
  by (simp add: reader_ok_def)

lemma unread_advance: "unread (r\<lparr>qb_pos := qb_pos r + n\<rparr>) = drop n (unread r)"
  by (simp add: unread_def add.commute)

lemma unread_upd [simp]:
  "unread (r\<lparr>multibulklen := m\<rparr>) = unread r" "unread (r\<lparr>bulklen := b\<rparr>) = unread r" "unread (r\<lparr>r_argv := av\<rparr>) = unread r"
  "unread (r\<lparr>r_reqtype := ty\<rparr>) = unread r" "unread (resetReader r) = unread r"
  by (simp_all add: unread_def resetReader_def)

lemma length_unread: "length (unread r) = length (qbuf r) - qb_pos r"
  by (simp add: unread_def)

text \<open>The fields no step of the parser changes within a request.\<close>

definition same_request :: "reader \<Rightarrow> reader \<Rightarrow> bool" where
  "same_request r r' \<longleftrightarrow> multibulklen r' = multibulklen r \<and> r_argv r' = r_argv r \<and> r_reqtype r' = r_reqtype r"

lemma bulk_length_cases:
  assumes ok: "reader_ok r" and u: "unread r @ fut = enc_bulk a @ rest" and b: "bulklen r = - 1"
    and a: "int (length a) \<le> maxbulk" "int (length a) \<le> LLONG_MAX"
  shows "bulk_length maxbulk r = (Wait, r) \<and> length rest < length fut \<or>
    (\<exists>r'. bulk_length maxbulk r = (Continue, r') \<and> reader_ok r' \<and> same_request r r' \<and> bulklen r' = int (length a) \<and>
      unread r' @ fut = a @ [CR, LF] @ rest \<and> length (unread r') < length (unread r))"
proof -
  let ?u = "unread r" and ?n = "length (dec (length a))"
  have n: "?n \<le> 20"
    using a(2) by (rule length_dec_number)
  have line: "?u @ fut = (CHR ''$'' # dec (length a)) @ [CR, LF] @ (a @ [CR, LF] @ rest)"
    using u by (simp add: enc_bulk_def)
  from number_line [OF line isprint_marks(2)] show ?thesis
  proof
    assume l: "?n + 3 \<le> length ?u \<and> strchr CR ?u = Some (?n + 1) \<and> ?u ! 0 = CHR ''$'' \<and>
      take ?n (drop 1 ?u) = dec (length a) \<and> drop (?n + 3) ?u @ fut = a @ [CR, LF] @ rest"
    define r1 where "r1 = r\<lparr>qb_pos := qb_pos r + (?n + 1) + 2\<rparr>"
    define r2 where "r2 = (if int (length a) \<ge> PROTO_MBULK_BIG_ARG \<and> int (length (unread r1)) \<le> int (length a) + 2 then move_to_start r1 else r1)"
    have r1: "unread r1 = drop (?n + 3) ?u"
      using unread_advance [of r "?n + 3"] by (simp add: r1_def numeral_3_eq_3)
    moreover have "reader_ok r1"
      using ok l by (auto simp: reader_ok_def r1_def length_unread)
    ultimately have r2: "unread r2 = drop (?n + 3) ?u" "reader_ok r2" "same_request r r2"
      by (simp_all add: r2_def same_request_def) (simp_all add: r1_def)
    have "bulk_length maxbulk r = (Continue, r2\<lparr>bulklen := int (length a)\<rparr>)"
      using l b a string2ll_dec [OF a(2)] by (simp add: bulk_length_def Let_def r2_def r1_def)
    then show ?thesis
      using r2 l by (auto simp: reader_ok_def same_request_def)
  next
    assume "length ?u < ?n + 3 \<and> (strchr CR ?u = None \<and> length ?u \<le> ?n + 1 \<or> strchr CR ?u = Some (?n + 1) \<and> length ?u = ?n + 2)"
    moreover from this have "length rest < length fut"
      using arg_cong [OF line, of length] by auto
    ultimately show ?thesis
      using b n by (auto simp: bulk_length_def Let_def PROTO_INLINE_MAX_SIZE_def)
  qed
qed

lemma take_bulk_within:
  assumes ok: "reader_ok r" and b: "bulklen r = int (length a)" and u: "unread r @ fut = a @ [CR, LF] @ rest" and l: "length a + 2 \<le> length (unread r)"
  shows "reader_ok (take_bulk r) \<and> r_argv (take_bulk r) = r_argv r @ [a] \<and> multibulklen (take_bulk r) = multibulklen r - 1 \<and>
    bulklen (take_bulk r) = - 1 \<and> r_reqtype (take_bulk r) = r_reqtype r \<and> unread (take_bulk r) @ fut = rest \<and>
    length (unread (take_bulk r)) < length (unread r)"
proof -
  have t: "take (length a) (unread r) = a"
    using append_prefix(1) [OF u] l by simp
  have d: "drop (length a + 2) (unread r) @ fut = rest"
    using append_prefix(2) [of "unread r" fut "a @ [CR, LF]" rest] u l by simp
  show ?thesis
  proof (cases "qb_pos r = 0 \<and> bulklen r \<ge> PROTO_MBULK_BIG_ARG \<and> length (qbuf r) = length a + 2")
    case True
    then show ?thesis
      using ok t d b by (auto simp: take_bulk_def Let_def reader_ok_def unread_def)
  next
    case False
    then have "take_bulk r = (r\<lparr>r_argv := r_argv r @ [a], qb_pos := qb_pos r + (length a + 2)\<rparr>)\<lparr>bulklen := - 1, multibulklen := multibulklen r - 1\<rparr>"
      using b t by (auto simp: take_bulk_def Let_def)
    then show ?thesis
      using ok d l unread_advance [of r "length a + 2"] by (auto simp: reader_ok_def length_unread unread_def)
  qed
qed

lemma mbulk_args_cases:
  assumes "reader_ok r" and "within r fut args rest" and "\<forall>a \<in> set args. int (length a) \<le> maxbulk \<and> int (length a) \<le> LLONG_MAX"
  shows "(\<exists>r'. mbulk_args maxbulk (length args) r = (Complete, r') \<and> reader_ok r' \<and> r_argv r' = r_argv r @ args \<and>
      unread r' @ fut = rest \<and> (args \<noteq> [] \<longrightarrow> length (unread r') < length (unread r)) \<and> length (unread r') \<le> length (unread r)) \<or>
    (\<exists>r' args'. mbulk_args maxbulk (length args) r = (Wait, r') \<and> reader_ok r' \<and> within r' fut args' rest \<and> args' \<noteq> [] \<and>
      r_argv r' @ args' = r_argv r @ args \<and> length rest < length fut)"
  using assms
proof (induction args arbitrary: r)
  case Nil
  then show ?case by (auto simp: within_def)
next
  case (Cons a args)
  let ?rest = "concat (map enc_bulk args) @ rest"
  have a: "int (length a) \<le> maxbulk" "int (length a) \<le> LLONG_MAX"
    using Cons.prems(3) by auto
  have w: "multibulklen r = Suc (length args)" "r_reqtype r = PROTO_REQ_MULTIBULK"
    using Cons.prems(2) by (auto simp: within_def)
  consider (wait) "bulk_length maxbulk r = (Wait, r)" "length rest < length fut"
    | (go) r' where "bulk_length maxbulk r = (Continue, r')" "reader_ok r'" "same_request r r'" "bulklen r' = int (length a)"
      "unread r' @ fut = a @ [CR, LF] @ ?rest" "length (unread r') \<le> length (unread r)"
  proof (cases "bulklen r = - 1")
    case True
    then have "unread r @ fut = enc_bulk a @ ?rest"
      using Cons.prems(2) by (auto simp: within_def)
    then show ?thesis
      using bulk_length_cases [OF Cons.prems(1) _ True a, of fut ?rest] that by fastforce
  next
    case False
    then show ?thesis
      using Cons.prems(1,2) that(2) [of r] by (auto simp: within_def bulk_length_def same_request_def)
  qed
  then show ?case
  proof cases
    case wait
    then show ?thesis
      using Cons.prems(1,2) by auto
  next
    case (go r')
    show ?thesis
    proof (cases "length a + 2 \<le> length (unread r')")
      case True
      let ?t = "take_bulk r'"
      have t: "reader_ok ?t" "r_argv ?t = r_argv r @ [a]" "multibulklen ?t = length args" "bulklen ?t = - 1"
          "r_reqtype ?t = PROTO_REQ_MULTIBULK" "unread ?t @ fut = ?rest" "length (unread ?t) < length (unread r')"
        using take_bulk_within [OF go(2,4,5) True] go(3) w by (simp_all add: same_request_def)
      have eq: "mbulk_args maxbulk (length (a # args)) r = mbulk_args maxbulk (length args) ?t"
        using go(1,4) True by simp
      have "within ?t fut args rest"
        using t by (simp add: within_def)
      then show ?thesis
        using Cons.IH [of ?t] Cons.prems(3) t go(6) unfolding eq by fastforce
    next
      case False
      then have "mbulk_args maxbulk (length (a # args)) r = (Wait, r')"
        using go(1,4) by simp
      moreover have "within r' fut (a # args) rest"
        using go(3-5) w by (simp add: within_def same_request_def)
      moreover have "length rest < length fut"
        using False arg_cong [OF go(5), of length] by auto
      ultimately show ?thesis
        using go(2,3) by (auto simp: same_request_def)
    qed
  qed
qed

subsection \<open>A request\<close>

lemma mbulk_header_cases:
  assumes ok: "reader_ok r" and u: "unread r @ fut = encode (Multi args) @ rest" and a: "length args \<le> 1024 * 1024"
  shows "mbulk_header r = Some (Wait, r) \<and> length rest < length fut \<or>
    (\<exists>r'. mbulk_header r = Some (if args = [] then Complete else Continue, r') \<and> reader_ok r' \<and> multibulklen r' = (if args = [] then multibulklen r else length args) \<and>
      r_argv r' = r_argv r \<and> r_reqtype r' = r_reqtype r \<and> bulklen r' = bulklen r \<and>
      unread r' @ fut = concat (map enc_bulk args) @ rest \<and> length (unread r') < length (unread r))"
proof -
  let ?u = "unread r" and ?n = "length (dec (length args))"
  have ll: "int (length args) \<le> LLONG_MAX"
    using a by (simp add: LLONG_MAX_def)
  have n: "?n \<le> 20"
    using ll by (rule length_dec_number)
  have line: "?u @ fut = (CHR ''*'' # dec (length args)) @ [CR, LF] @ (concat (map enc_bulk args) @ rest)"
    using u by simp
  from number_line [OF line isprint_marks(1)] show ?thesis
  proof
    assume l: "?n + 3 \<le> length ?u \<and> strchr CR ?u = Some (?n + 1) \<and> ?u ! 0 = CHR ''*'' \<and>
      take ?n (drop 1 ?u) = dec (length args) \<and> drop (?n + 3) ?u @ fut = concat (map enc_bulk args) @ rest"
    define r1 where "r1 = r\<lparr>qb_pos := qb_pos r + (?n + 1) + 2\<rparr>"
    have r1: "unread r1 = drop (?n + 3) ?u"
      using unread_advance [of r "?n + 3"] by (simp add: r1_def numeral_3_eq_3)
    moreover have "reader_ok r1"
      using ok l by (auto simp: reader_ok_def r1_def length_unread)
    moreover have "mbulk_header r = (if args = [] then Some (Complete, r1) else Some (Continue, r1\<lparr>multibulklen := length args\<rparr>))"
      using l a string2ll_dec [OF ll] by (auto simp: mbulk_header_def Let_def r1_def)
    ultimately show ?thesis
      using l by (auto simp: reader_ok_def) (auto simp: r1_def)
  next
    assume "length ?u < ?n + 3 \<and> (strchr CR ?u = None \<and> length ?u \<le> ?n + 1 \<or> strchr CR ?u = Some (?n + 1) \<and> length ?u = ?n + 2)"
    moreover from this have "length rest < length fut"
      using arg_cong [OF line, of length] by auto
    ultimately show ?thesis
      using n by (auto simp: mbulk_header_def Let_def PROTO_INLINE_MAX_SIZE_def)
  qed
qed

text \<open>
  What a step of the parser does with the request \<open>q\<close> at the head: it is complete and its bytes are gone, or it
  needs bytes that are still to be received.
\<close>

definition parsed :: "int \<Rightarrow> bool \<Rightarrow> reader \<Rightarrow> sds \<Rightarrow> request \<Rightarrow> request list \<Rightarrow> bool \<Rightarrow> reader \<Rightarrow> bool" where
  "parsed maxbulk gopher r fut q reqs ok r' \<longleftrightarrow>
     (if ok then r_argv r' = request_argv q \<and> reading maxbulk gopher (resetReader r') fut reqs \<and> length (unread r') < length (unread r)
      else reading maxbulk gopher r' fut (q # reqs) \<and> length (concat (map encode reqs)) < length fut)"

lemma reading_reset:
  assumes "reader_ok r" and "\<forall>q \<in> set reqs. request_ok maxbulk gopher q" and "unread r @ fut = concat (map encode reqs)"
  shows "reading maxbulk gopher (resetReader r) fut reqs"
  using assms by (auto simp: reading_def between_def reader_ok_def resetReader_def unread_def)

lemma processMultibulkBuffer_within:
  assumes ok: "reader_ok r" and qs: "\<forall>q \<in> set (Multi (r_argv r @ args) # reqs). request_ok maxbulk gopher q"
    and w: "within r fut args (concat (map encode reqs))" "args \<noteq> []"
  shows "\<exists>p r'. mbulk_args maxbulk (multibulklen r) r = (p, r') \<and> parsed maxbulk gopher r fut (Multi (r_argv r @ args)) reqs (p = Complete) r'"
proof -
  have m: "multibulklen r = length args" and a: "\<forall>a \<in> set args. int (length a) \<le> maxbulk \<and> int (length a) \<le> LLONG_MAX"
    using w(1) qs by (auto simp: within_def)
  from mbulk_args_cases [OF ok w(1) a] show ?thesis
  proof (elim disjE exE conjE)
    fix r'
    assume "mbulk_args maxbulk (length args) r = (Complete, r')" "reader_ok r'" "r_argv r' = r_argv r @ args"
      "unread r' @ fut = concat (map encode reqs)" "args \<noteq> [] \<longrightarrow> length (unread r') < length (unread r)"
    then show ?thesis
      using w(2) qs m reading_reset [of r' reqs maxbulk gopher fut] by (auto simp: parsed_def)
  next
    fix r' args'
    assume h: "mbulk_args maxbulk (length args) r = (Wait, r')" "reader_ok r'" "within r' fut args' (concat (map encode reqs))"
      "args' \<noteq> []" "r_argv r' @ args' = r_argv r @ args" "length (concat (map encode reqs)) < length fut"
    have "reading maxbulk gopher r' fut (Multi (r_argv r @ args) # reqs)"
      unfolding reading_def h(5) [symmetric] using h(2,3,4) qs [folded h(5)] by blast
    then show ?thesis
      using h(1,6) m by (simp add: parsed_def)
  qed
qed

lemma processMultibulkBuffer_parsed:
  assumes r: "reading maxbulk gopher r fut (q # reqs)" and ty: "r_reqtype r = PROTO_REQ_MULTIBULK"
  shows "\<exists>b r'. processMultibulkBuffer maxbulk r = Some (b, r') \<and> parsed maxbulk gopher r fut q reqs b r'"
proof (cases "multibulklen r = 0")
  case False
  then obtain args where q: "q = Multi (r_argv r @ args)" "args \<noteq> []" "within r fut args (concat (map encode reqs))"
    using r by (auto simp: reading_def between_def)
  then show ?thesis
    using processMultibulkBuffer_within [of r args reqs maxbulk gopher fut] r False
    by (auto simp: reading_def processMultibulkBuffer_def)
next
  case True
  then have btw: "between r fut (q # reqs)" and ok: "reader_ok r" and qs: "\<forall>q \<in> set (q # reqs). request_ok maxbulk gopher q"
    using r by (auto simp: reading_def within_def)
  then obtain args where q: "q = Multi args"
    using ty by (cases q) (auto simp: between_def)
  have u: "unread r @ fut = encode (Multi args) @ concat (map encode reqs)" and r0: "r_argv r = []" "bulklen r = - 1"
    using btw q by (auto simp: between_def)
  have "length args \<le> 1024 * 1024"
    using qs q by simp
  from mbulk_header_cases [OF ok u this] show ?thesis
  proof (elim disjE exE conjE)
    assume "mbulk_header r = Some (Wait, r)" "length (concat (map encode reqs)) < length fut"
    then show ?thesis
      using r True r0 by (auto simp: parsed_def processMultibulkBuffer_def)
  next
    fix r'
    assume h: "mbulk_header r = Some (if args = [] then Complete else Continue, r')" "reader_ok r'"
      "multibulklen r' = (if args = [] then multibulklen r else length args)" "r_argv r' = r_argv r" "r_reqtype r' = r_reqtype r"
      "bulklen r' = bulklen r" "unread r' @ fut = concat (map enc_bulk args) @ concat (map encode reqs)" "length (unread r') < length (unread r)"
    show ?thesis
    proof (cases "args = []")
      case nil: True
      then show ?thesis
        using h True r0 q qs reading_reset [of r' reqs maxbulk gopher fut] by (auto simp: parsed_def processMultibulkBuffer_def)
    next
      case False
      then have "within r' fut args (concat (map encode reqs))"
        using h r0 ty by (simp add: within_def)
      then obtain p r2 where "mbulk_args maxbulk (multibulklen r') r' = (p, r2)" "parsed maxbulk gopher r' fut q reqs (p = Complete) r2"
        using processMultibulkBuffer_within [of r' args reqs maxbulk gopher fut] h(2,4) r0 qs q False by auto
      then show ?thesis
        using h True r0 False by (auto simp: parsed_def processMultibulkBuffer_def split: if_splits)
    qed
  qed
qed

lemma processInlineBuffer_parsed:
  assumes r: "reading maxbulk gopher r fut (Inline args # reqs)"
  shows "\<exists>b r'. processInlineBuffer r = (b, r') \<and> parsed maxbulk gopher r fut (Inline args) reqs b r'"
proof -
  let ?u = "unread r" and ?h = "join_text '' '' (map quoted args)"
  have ok: "reader_ok r" and qs: "\<forall>q \<in> set (Inline args # reqs). request_ok maxbulk gopher q" and "between r fut (Inline args # reqs)"
    using r by (auto simp: reading_def)
  then have u: "?u @ fut = ?h @ [CR, LF] @ concat (map encode reqs)"
    by (simp add: between_def)
  have h: "\<forall>c \<in> set (?h @ [CR]). c \<noteq> LF \<and> c \<noteq> CHR 0x00" "\<forall>c \<in> set (?h @ [CR]). c \<noteq> LF"
    using join_printable not_isprint by auto
  show ?thesis
  proof (cases "length ?h + 2 \<le> length ?u")
    case True
    then obtain v where v: "?u = ?h @ [CR, LF] @ v" "v @ fut = concat (map encode reqs)"
      using append_whole [of ?u fut "?h @ [CR, LF]"] u by auto
    have "strchr LF ?u = Some (length ?h + 1)"
      using strchr_whole [OF h(1), of ?u fut "concat (map encode reqs)"] u True by simp
    then have eq: "processInlineBuffer r = (True, r\<lparr>qb_pos := qb_pos r + (length ?h + 2), r_argv := args\<rparr>)"
      using v sdssplitargs_quoted [of args] by (simp add: processInlineBuffer_def Let_def nth_append)
    have "unread (r\<lparr>qb_pos := qb_pos r + (length ?h + 2), r_argv := args\<rparr>) = drop (length ?h + 2) ?u"
      by (simp add: unread_def add.commute)
    then have "unread (r\<lparr>qb_pos := qb_pos r + (length ?h + 2), r_argv := args\<rparr>) = v"
      using v(1) by simp
    moreover have "reader_ok (r\<lparr>qb_pos := qb_pos r + (length ?h + 2), r_argv := args\<rparr>)"
      using ok True by (auto simp: reader_ok_def length_unread)
    ultimately show ?thesis
      using eq v qs reading_reset [of _ reqs maxbulk gopher fut] by (auto simp: parsed_def)
  next
    case False
    then have "strchr LF ?u = None"
      using strchr_short [OF h(2), of ?u fut "LF # concat (map encode reqs)"] u by simp
    moreover have "length (concat (map encode reqs)) < length fut"
      using False arg_cong [OF u, of length] by auto
    ultimately show ?thesis
      using False qs r by (auto simp: processInlineBuffer_def parsed_def)
  qed
qed

subsection \<open>The loop\<close>

lemma encode_nonempty: "encode q \<noteq> []" "encode q ! 0 = CHR ''*'' \<longleftrightarrow> (\<exists>args. q = Multi args)"
proof -
  show "encode q \<noteq> []"
    by (cases q) simp_all
  show "encode q ! 0 = CHR ''*'' \<longleftrightarrow> (\<exists>args. q = Multi args)"
  proof (cases q)
    case (Inline args)
    have "join_text '' '' (map quoted (a # list)) ! 0 = CHR 0x22" for a list
      by (cases "list = []") (simp_all add: quoted_def)
    then show ?thesis
      using Inline by (cases args) (auto simp: nth_append quoted_def)
  qed simp
qed

lemma request_type_unread [simp]: "unread (request_type r) = unread r"
  by (simp add: request_type_def)

lemma request_type_reading:
  assumes r: "reading maxbulk gopher r fut (q # reqs)" and u: "unread r \<noteq> []"
  shows "reading maxbulk gopher (request_type r) fut (q # reqs)" "r_reqtype (request_type r) = request_reqtype q"
proof -
  have "reading maxbulk gopher (request_type r) fut (q # reqs) \<and> r_reqtype (request_type r) = request_reqtype q"
  proof (cases "r_reqtype r = PROTO_REQ_NONE")
    case True
    then have btw: "between r fut (q # reqs)"
      using r by (auto simp: reading_def within_def)
    have "(unread r @ fut) ! 0 = (encode q @ concat (map encode reqs)) ! 0"
      using btw by (simp add: between_def)
    then have "unread r ! 0 = encode q ! 0"
      using u encode_nonempty(1) [of q] by (simp add: nth_append)
    then have "r_reqtype (request_type r) = request_reqtype q"
      using True encode_nonempty(2) [of q] by (cases q) (auto simp: request_type_def)
    then show ?thesis
      using r btw by (auto simp: reading_def between_def reader_ok_def request_type_def split: if_splits)
  next
    case False
    then show ?thesis
      using r by (auto simp: reading_def between_def within_def request_type_def)
  qed
  then show "reading maxbulk gopher (request_type r) fut (q # reqs)" "r_reqtype (request_type r) = request_reqtype q"
    by simp_all
qed

lemma next_request_parsed:
  assumes "reading maxbulk gopher r fut (q # reqs)" and "unread r \<noteq> []"
  shows "\<exists>b r'. next_request maxbulk (request_type r) = Some (b, r') \<and> parsed maxbulk gopher r fut q reqs b r'"
proof (cases q)
  case (Multi args)
  then have "parsed maxbulk gopher r = parsed maxbulk gopher (request_type r)"
    by (intro ext) (simp add: parsed_def)
  then show ?thesis
    using processMultibulkBuffer_parsed [of maxbulk gopher "request_type r" fut q reqs] request_type_reading [OF assms] Multi
    by (simp add: next_request_def)
next
  case (Inline args)
  then have "parsed maxbulk gopher r = parsed maxbulk gopher (request_type r)"
    by (intro ext) (simp add: parsed_def)
  then show ?thesis
    using processInlineBuffer_parsed [of maxbulk gopher "request_type r" fut args reqs] request_type_reading [OF assms] Inline
    by (auto simp: next_request_def)
qed

text \<open>The requests one after the other, until the client takes no more; the result has what is left.\<close>

fun serve :: "'s sink \<Rightarrow> request list \<Rightarrow> 's \<Rightarrow> (request list \<times> 's) option" where
  "serve k [] s = Some ([], s)"
| "serve k (q # reqs) s =
     (if busy k s then Some (q # reqs, s)
      else if request_argv q = [] then serve k reqs s
      else do { (s, reset) \<leftarrow> execute k (request_argv q) s; serve k reqs s })"

text \<open>The contract of a sink: a client that is not reset after a command takes no further one.\<close>

locale command_sink =
  fixes k :: "'s sink"
  assumes not_reset_busy: "execute k argv s = Some (s', False) \<Longrightarrow> busy k s'"
begin

abbreviation reads :: "reader \<Rightarrow> sds \<Rightarrow> request list \<Rightarrow> bool" where
  "reads \<equiv> reading (proto_max_bulk_len k) (gopher_enabled k)"

definition stands :: "reader \<Rightarrow> 's \<Rightarrow> sds \<Rightarrow> request list \<Rightarrow> bool" where
  "stands r s fut reqs \<longleftrightarrow> reads r fut reqs \<or> busy k s \<and> reads (resetReader r) fut reqs"

lemma input_loop_busy: "busy k s \<Longrightarrow> input_loop n k r s = Some (r, s)"
  by (cases n) simp_all

lemma serve_busy: "busy k s \<Longrightarrow> serve k reqs s = Some (reqs, s)"
  by (cases reqs) simp_all

text \<open>
  What has become of the requests: the complete ones were served, and the first of the others is not complete,
  since the bytes to be received are more than those of the requests after it.
\<close>

definition served :: "(reader \<times> 's) option \<Rightarrow> 's \<Rightarrow> sds \<Rightarrow> request list \<Rightarrow> bool" where
  "served res s fut reqs \<longleftrightarrow>
     (\<exists>now later. reqs = now @ later \<and> (later \<noteq> [] \<longrightarrow> length (concat (map encode (tl later))) < length fut) \<and>
        (case serve k now s of
           None \<Rightarrow> res = None
         | Some (left, s') \<Rightarrow> \<exists>r'. res = Some (r', s') \<and> stands r' s' fut (left @ later)))"

lemma served_later:
  assumes "res = Some (r', s)" and "stands r' s fut reqs" and "reqs \<noteq> [] \<longrightarrow> length (concat (map encode (tl reqs))) < length fut"
  shows "served res s fut reqs"
  unfolding served_def using assms by (intro exI [of _ "[]"] exI [of _ reqs]) simp

lemma served_busy: "res = Some (r', s) \<Longrightarrow> stands r' s fut reqs \<Longrightarrow> busy k s \<Longrightarrow> served res s fut reqs"
  unfolding served_def using serve_busy [of s reqs] by (intro exI [of _ reqs] exI [of _ "[]"]) simp

lemma served_empty:
  assumes "served res s fut reqs" and "request_argv q = []" and "\<not> busy k s"
  shows "served res s fut (q # reqs)"
proof -
  obtain now later where "reqs = now @ later" "later \<noteq> [] \<longrightarrow> length (concat (map encode (tl later))) < length fut"
      "case serve k now s of None \<Rightarrow> res = None | Some (left, s') \<Rightarrow> \<exists>r'. res = Some (r', s') \<and> stands r' s' fut (left @ later)"
    using assms(1) unfolding served_def by blast
  then show ?thesis
    unfolding served_def using assms(2,3) by (intro exI [of _ "q # now"] exI [of _ later]) simp
qed

lemma served_execute:
  assumes "served res s1 fut reqs" and "execute k (request_argv q) s = Some (s1, reset)" and "request_argv q \<noteq> []" and "\<not> busy k s"
  shows "served res s fut (q # reqs)"
proof -
  obtain now later where "reqs = now @ later" "later \<noteq> [] \<longrightarrow> length (concat (map encode (tl later))) < length fut"
      "case serve k now s1 of None \<Rightarrow> res = None | Some (left, s') \<Rightarrow> \<exists>r'. res = Some (r', s') \<and> stands r' s' fut (left @ later)"
    using assms(1) unfolding served_def by blast
  then show ?thesis
    unfolding served_def using assms(2-4) by (intro exI [of _ "q # now"] exI [of _ later]) simp
qed

lemma served_abort:
  "execute k (request_argv q) s = None \<Longrightarrow> request_argv q \<noteq> [] \<Longrightarrow> \<not> busy k s \<Longrightarrow> served None s fut (q # reqs)"
  unfolding served_def by (intro exI [of _ "q # reqs"] exI [of _ "[]"]) simp

text \<open>One round.\<close>

lemma input_loop_round:
  assumes r: "reads r fut (q # reqs)" and u: "unread r \<noteq> []" and b: "\<not> busy k s"
  shows "(\<exists>r'. input_loop (Suc m) k r s = Some (r', s) \<and> reads r' fut (q # reqs) \<and> length (concat (map encode reqs)) < length fut) \<or>
    (\<exists>r'. reads (resetReader r') fut reqs \<and> length (unread r') < length (unread r) \<and>
      input_loop (Suc m) k r s =
        (if request_argv q = [] then input_loop m k (resetReader r') s
         else do { (s, reset) \<leftarrow> execute k (request_argv q) s; input_loop m k (if reset then resetReader r' else r') s }))"
proof -
  have open_reader: "qb_pos r < length (qbuf r)" "\<not> r_close r"
    using u r by (auto simp: unread_def reading_def reader_ok_def)
  obtain ok r' where p: "next_request (proto_max_bulk_len k) (request_type r) = Some (ok, r')"
      "parsed (proto_max_bulk_len k) (gopher_enabled k) r fut q reqs ok r'"
    using next_request_parsed [OF r u] by blast
  have "\<not> (r_reqtype (request_type r) = PROTO_REQ_INLINE \<and> gopher_enabled k \<and> is_gopher (request_argv q))"
    using request_type_reading(2) [OF r u] r by (cases q) (auto simp: reading_def)
  then show ?thesis
    using p open_reader b by (cases ok) (auto simp: parsed_def)
qed

lemma input_loop_serves: "reads r fut reqs \<Longrightarrow> length (unread r) \<le> n \<Longrightarrow> served (input_loop n k r s) s fut reqs"
proof (induction reqs arbitrary: r n s)
  case Nil
  then have "unread r = []"
    by (auto simp: reading_def between_def)
  then have "input_loop n k r s = Some (r, s)"
    by (cases n) (auto simp: unread_def)
  then show ?case
    using Nil served_later [of _ r s fut "[]"] by (simp add: stands_def)
next
  case (Cons q reqs)
  consider (busy) "busy k s" | (empty) "unread r = []" | (go) m where "\<not> busy k s" "unread r \<noteq> []" "n = Suc m"
    using Cons.prems(2) by (cases n) auto
  then show ?case
  proof cases
    case busy
    then show ?thesis
      using Cons.prems(1) input_loop_busy served_busy [of _ r s fut "q # reqs"] by (simp add: stands_def)
  next
    case empty
    then have "input_loop n k r s = Some (r, s)"
      by (cases n) (auto simp: unread_def)
    moreover have "length (concat (map encode reqs)) < length fut"
      using empty Cons.prems(1) encode_nonempty(1) [of q] by (auto simp: reading_def between_def within_def enc_bulk_def neq_Nil_conv)
    ultimately show ?thesis
      using Cons.prems(1) served_later [of _ r s fut "q # reqs"] by (simp add: stands_def)
  next
    case (go m)
    from input_loop_round [OF Cons.prems(1) go(2,1), of m] show ?thesis
    proof (elim disjE exE conjE)
      fix r'
      assume "input_loop (Suc m) k r s = Some (r', s)" "reads r' fut (q # reqs)" "length (concat (map encode reqs)) < length fut"
      then show ?thesis
        using go(3) served_later [of _ r' s fut "q # reqs"] by (simp add: stands_def)
    next
      fix r'
      assume r': "reads (resetReader r') fut reqs" "length (unread r') < length (unread r)"
        "input_loop (Suc m) k r s = (if request_argv q = [] then input_loop m k (resetReader r') s
          else do { (s, reset) \<leftarrow> execute k (request_argv q) s; input_loop m k (if reset then resetReader r' else r') s })"
      have ih: "served (input_loop m k (resetReader r') t) t fut reqs" for t
        using Cons.IH [OF r'(1)] r'(2) Cons.prems(2) go(3) by simp
      show ?thesis
      proof (cases "request_argv q = []")
        case True
        then show ?thesis
          using served_empty [OF ih True go(1)] r'(3) go(3) by simp
      next
        case args: False
        show ?thesis
        proof (cases "execute k (request_argv q) s")
          case None
          then show ?thesis
            using served_abort [OF None args go(1)] r'(3) go(3) args by simp
        next
          case (Some x)
          then obtain s1 reset where x: "execute k (request_argv q) s = Some (s1, reset)"
            by (cases x) simp
          have "served (input_loop m k (if reset then resetReader r' else r') s1) s1 fut reqs"
          proof (cases reset)
            case True
            then show ?thesis using ih by simp
          next
            case False
            then have "busy k s1"
              using not_reset_busy x by simp
            then show ?thesis
              using r'(1) input_loop_busy False served_busy [of _ r' s1 fut reqs] by (simp add: stands_def)
          qed
          then show ?thesis
            using served_execute [OF _ x args go(1)] r'(3) go(3) args x by simp
        qed
      qed
    qed
  qed
qed

end

subsection \<open>Reading\<close>

lemma reading_move: "reading maxbulk gopher r fut reqs \<Longrightarrow> reading maxbulk gopher (move_to_start r) fut reqs"
  by (auto simp: reading_def between_def within_def)

lemma reset_move: "resetReader (move_to_start r) = move_to_start (resetReader r)"
  by (simp add: resetReader_def move_to_start_def)

lemma reading_append:
  assumes "reading maxbulk gopher r (bytes @ fut) reqs"
  shows "reading maxbulk gopher (r\<lparr>qbuf := qbuf r @ bytes\<rparr>) fut reqs"
proof -
  have "qb_pos r \<le> length (qbuf r)"
    using assms by (simp add: reading_def reader_ok_def)
  then have "unread (r\<lparr>qbuf := qbuf r @ bytes\<rparr>) = unread r @ bytes"
    by (simp add: unread_def)
  then show ?thesis
    using assms by (auto simp: reading_def between_def within_def reader_ok_def)
qed

lemma reset_append: "resetReader (r\<lparr>qbuf := b\<rparr>) = (resetReader r)\<lparr>qbuf := b\<rparr>" "qbuf (resetReader r) = qbuf r"
  by (simp_all add: resetReader_def)

lemma reading_length:
  assumes "reading maxbulk gopher r fut reqs"
  shows "length (unread r) + length fut \<le> length (concat (map encode reqs))"
proof -
  from assms consider "between r fut reqs"
    | args rest where "reqs = Multi (r_argv r @ args) # rest" "args \<noteq> []" "within r fut args (concat (map encode rest))"
    by (auto simp: reading_def)
  then show ?thesis
  proof cases
    case 1
    then have "length (unread r @ fut) = length (concat (map encode reqs))"
      by (simp add: between_def)
    then show ?thesis by simp
  next
    case 2
    then obtain a as where a: "args = a # as"
      by (cases args) auto
    have "length (unread r @ fut) \<le> length (concat (map enc_bulk args) @ concat (map encode rest))"
      using 2(3) unfolding within_def a by (elim conjE disjE) (simp_all add: enc_bulk_def)
    then show ?thesis
      using 2(1) by simp
  qed
qed

context command_sink begin

lemma stands_append: "stands r s (bytes @ fut) reqs \<Longrightarrow> stands (r\<lparr>qbuf := qbuf r @ bytes\<rparr>) s fut reqs"
  unfolding stands_def reset_append(1)
  using reading_append [of "proto_max_bulk_len k" "gopher_enabled k" r bytes fut reqs]
    reading_append [of "proto_max_bulk_len k" "gopher_enabled k" "resetReader r" bytes fut reqs] by (auto simp: reset_append(2))

lemma processInputBytes_serves:
  assumes "stands r s fut reqs"
  shows "served (processInputBytes k r s) s fut reqs"
proof -
  have "served (input_loop (length (unread r)) k r s) s fut reqs"
    using assms input_loop_serves [of r fut reqs] input_loop_busy [of s] served_busy [of _ r s fut reqs] by (auto simp: stands_def)
  then obtain now later where n: "reqs = now @ later" "later \<noteq> [] \<longrightarrow> length (concat (map encode (tl later))) < length fut"
      "case serve k now s of None \<Rightarrow> input_loop (length (unread r)) k r s = None
       | Some (left, s') \<Rightarrow> \<exists>r'. input_loop (length (unread r)) k r s = Some (r', s') \<and> stands r' s' fut (left @ later)"
    unfolding served_def by blast
  have m: "stands r' s' fut rs \<Longrightarrow> stands (move_to_start r') s' fut rs" for r' s' rs
    by (auto simp: stands_def reset_move reading_move)
  show ?thesis
    unfolding served_def using n by (intro exI [of _ now] exI [of _ later]) (auto simp: processInputBytes_def m split: option.splits)
qed

lemma readBytes_serves:
  assumes "stands r s (bytes @ fut) reqs" and "length (qbuf r) + length bytes \<le> client_max_querybuf_len k"
  shows "served (readBytes k bytes r s) s fut reqs"
  using processInputBytes_serves [OF stands_append [OF assms(1)]] assms(2) by (simp add: readBytes_def)

end

text \<open>After a read the buffer starts with the first byte that was not taken.\<close>

lemma readBytes_pos:
  assumes "readBytes k bytes r s = Some (r', s')" and "length (qbuf r) + length bytes \<le> client_max_querybuf_len k"
  shows "qb_pos r' = 0"
  using assms by (auto simp: readBytes_def processInputBytes_def Let_def split: bind_splits if_splits)

subsection \<open>A sink that collects the commands\<close>

definition collector :: "int \<Rightarrow> nat \<Rightarrow> bool \<Rightarrow> sds list list sink" where
  "collector maxbulk maxbuf gopher =
     \<lparr>proto_max_bulk_len = maxbulk, client_max_querybuf_len = maxbuf, gopher_enabled = gopher,
      busy = \<lambda>_. False, execute = \<lambda>argv cmds. Some (cmds @ [argv], True)\<rparr>"

lemma collector_sel [simp]:
  "proto_max_bulk_len (collector maxbulk maxbuf gopher) = maxbulk" "client_max_querybuf_len (collector maxbulk maxbuf gopher) = maxbuf"
  "gopher_enabled (collector maxbulk maxbuf gopher) = gopher" "\<not> busy (collector maxbulk maxbuf gopher) cmds"
  "execute (collector maxbulk maxbuf gopher) argv cmds = Some (cmds @ [argv], True)"
  by (simp_all add: collector_def)

interpretation coll: command_sink "collector maxbulk maxbuf gopher" for maxbulk maxbuf gopher
  by unfold_locales simp

definition commands :: "request list \<Rightarrow> sds list list" where
  "commands reqs = filter (\<lambda>argv. argv \<noteq> []) (map request_argv reqs)"

lemma serve_collector: "serve (collector maxbulk maxbuf gopher) reqs cmds = Some ([], cmds @ commands reqs)"
  by (induction reqs arbitrary: cmds) (simp_all add: commands_def)

definition read_all :: "'s sink \<Rightarrow> sds list \<Rightarrow> reader \<times> 's \<Rightarrow> (reader \<times> 's) option" where
  "read_all k = run_steps (\<lambda>bytes (r, s). readBytes k bytes r s)"

lemma commands_append: "commands (xs @ ys) = commands xs @ commands ys"
  by (simp add: commands_def)

lemma read_collects:
  assumes r: "reading maxbulk gopher r (bytes @ fut) reqs" and len: "length (qbuf r) + length bytes \<le> maxbuf"
  shows "\<exists>r' now later. readBytes (collector maxbulk maxbuf gopher) bytes r cmds = Some (r', cmds @ commands now) \<and> reqs = now @ later \<and>
    reading maxbulk gopher r' fut later \<and> (later \<noteq> [] \<longrightarrow> length (concat (map encode (tl later))) < length fut)"
proof -
  have "coll.stands maxbulk maxbuf gopher r cmds (bytes @ fut) reqs"
    using r by (simp add: coll.stands_def)
  then have "coll.served maxbulk maxbuf gopher (readBytes (collector maxbulk maxbuf gopher) bytes r cmds) cmds fut reqs"
    using len by (intro coll.readBytes_serves) simp_all
  then show ?thesis
    unfolding coll.served_def serve_collector by (auto simp: coll.stands_def)
qed

lemma read_all_collects:
  assumes "reading maxbulk gopher r (concat chunks) reqs" and "qb_pos r = 0" and "length (concat (map encode reqs)) \<le> maxbuf"
    and "reqs \<noteq> [] \<longrightarrow> length (concat (map encode (tl reqs))) < length (concat chunks)"
  shows "\<exists>r'. read_all (collector maxbulk maxbuf gopher) chunks (r, cmds) = Some (r', cmds @ commands reqs) \<and> reading maxbulk gopher r' [] [] \<and> qb_pos r' = 0"
  using assms
proof (induction chunks arbitrary: r reqs cmds)
  case Nil
  then show ?case
    by (simp add: read_all_def commands_def)
next
  case (Cons bytes chunks)
  have len: "length (qbuf r) + length bytes \<le> maxbuf"
    using reading_length [OF Cons.prems(1)] Cons.prems(2,3) by (simp add: unread_def)
  obtain r' now later where r': "readBytes (collector maxbulk maxbuf gopher) bytes r cmds = Some (r', cmds @ commands now)"
      "reqs = now @ later" "reading maxbulk gopher r' (concat chunks) later" "later \<noteq> [] \<longrightarrow> length (concat (map encode (tl later))) < length (concat chunks)"
    using read_collects [of maxbulk gopher r bytes "concat chunks" reqs maxbuf cmds] Cons.prems(1) len by auto
  have "qb_pos r' = 0"
    using readBytes_pos [OF r'(1)] len by simp
  then show ?case
    using Cons.IH [OF r'(3) _ _ r'(4), of "cmds @ commands now"] r'(1,2) Cons.prems(3) by (auto simp: read_all_def commands_append)
qed

lemma reading_new:
  assumes "\<forall>q \<in> set reqs. request_ok maxbulk gopher q"
  shows "reading maxbulk gopher new_reader (concat (map encode reqs)) reqs"
  using assms by (simp add: reading_def between_def reader_ok_def new_reader_def unread_def)

text \<open>
  C8. The request parser does not depend on how the network cuts the stream: whatever the pieces in which the
  bytes of a sequence of requests arrive, be they inline or multi bulk requests, each command is handed over
  exactly once, complete and in order, without an error, and nothing stays in the buffer.
\<close>

theorem protocol_chunks:
  assumes "\<forall>q \<in> set reqs. request_ok maxbulk gopher q" and "concat chunks = concat (map encode reqs)"
    and "length (concat chunks) \<le> maxbuf"
  shows "\<exists>r. read_all (collector maxbulk maxbuf gopher) chunks (new_reader, []) = Some (r, commands reqs) \<and>
    qbuf r = [] \<and> r_error r = None \<and> \<not> r_close r \<and> r_argv r = []"
proof -
  have s: "reqs \<noteq> [] \<longrightarrow> length (concat (map encode (tl reqs))) < length (concat chunks)"
    using encode_nonempty(1) [of "hd reqs"] assms(2) by (cases reqs) simp_all
  obtain r where r: "read_all (collector maxbulk maxbuf gopher) chunks (new_reader, []) = Some (r, [] @ commands reqs)"
      "reading maxbulk gopher r [] []" "qb_pos r = 0"
    using read_all_collects [OF _ _ _ s, of maxbulk gopher new_reader maxbuf "[]"] reading_new [OF assms(1)] assms(2,3)
    by (auto simp: new_reader_def)
  then show ?thesis
    by (auto simp: reading_def between_def reader_ok_def unread_def)
qed

theorem protocol_chunks_witness:
  "\<exists>r. read_all (collector 512 1024 False) [''*2'' @ [CR], [LF] @ ''$3'' @ [CR, LF] @ ''ge'', ''t'' @ [CR, LF] @ ''$1'' @ [CR], LF # ''k'' @ [CR, LF, CR], [LF]]
     (new_reader, []) = Some (r, [[''get'', ''k'']]) \<and> qbuf r = []"
proof -
  let ?c = "[''*2'' @ [CR], [LF] @ ''$3'' @ [CR, LF] @ ''ge'', ''t'' @ [CR, LF] @ ''$1'' @ [CR], LF # ''k'' @ [CR, LF, CR], [LF]]"
  let ?q = "[Multi [''get'', ''k''], Inline []]"
  have "dec 2 = ''2''" "dec 3 = ''3''" "dec 1 = ''1''"
    by code_simp+
  then have e: "concat ?c = concat (map encode ?q)"
    by (simp add: enc_bulk_def numeral_2_eq_2 numeral_3_eq_3)
  have ok: "\<forall>q \<in> set ?q. request_ok 512 False q"
    by (simp add: PROTO_INLINE_MAX_SIZE_def LLONG_MAX_def)
  have c: "commands ?q = [[''get'', ''k'']]"
    by (simp add: commands_def)
  show ?thesis
    using protocol_chunks [OF ok e, of 1024] unfolding c by auto
qed

subsection \<open>Arbitrary bytes\<close>

text \<open>What holds of the reader between two reads whatever the bytes are.\<close>

definition sane :: "reader \<Rightarrow> bool" where
  "sane r \<longleftrightarrow> qb_pos r \<le> length (qbuf r) \<and> - 1 \<le> bulklen r \<and> (r_error r \<noteq> None \<longrightarrow> r_close r) \<and>
     (multibulklen r \<noteq> 0 \<longrightarrow> r_reqtype r = PROTO_REQ_MULTIBULK) \<and> (r_reqtype r = PROTO_REQ_NONE \<longrightarrow> r_argv r = []) \<and>
     (r_reqtype r = PROTO_REQ_MULTIBULK \<and> multibulklen r = 0 \<longrightarrow> r_argv r = [] \<and> unread r \<noteq> [] \<and> unread r ! 0 = CHR ''*'')"

lemma unread_error [simp]: "unread (setProtocolError e r) = unread r"
  by (simp add: setProtocolError_def unread_def)

lemma sane_error: "sane r \<Longrightarrow> sane (setProtocolError e r)"
  by (simp add: sane_def) (simp add: setProtocolError_def)

lemma sane_reset: "qb_pos r \<le> length (qbuf r) \<Longrightarrow> (r_error r \<noteq> None \<longrightarrow> r_close r) \<Longrightarrow> sane (resetReader r)"
  by (simp add: sane_def resetReader_def)

lemma strchr_bound: "strchr ch u = Some n \<Longrightarrow> n < length u \<and> u ! n = ch"
  by (auto simp: strchr_def Let_def split: if_splits)

text \<open>The state within a multi bulk request.\<close>

definition sane_args :: "reader \<Rightarrow> bool" where
  "sane_args r \<longleftrightarrow> qb_pos r \<le> length (qbuf r) \<and> - 1 \<le> bulklen r \<and> (r_error r \<noteq> None \<longrightarrow> r_close r) \<and> r_reqtype r = PROTO_REQ_MULTIBULK"

lemma sane_args_error [simp]: "sane_args r \<Longrightarrow> sane_args (setProtocolError e r)"
  by (simp add: sane_args_def setProtocolError_def)

lemma sane_args_advance: "sane_args r \<Longrightarrow> n \<le> length (unread r) \<Longrightarrow> sane_args (r\<lparr>qb_pos := qb_pos r + n\<rparr>)"
  by (auto simp: sane_args_def length_unread)

lemma sane_args_move [simp]: "sane_args r \<Longrightarrow> sane_args (move_to_start r)"
  by (simp add: sane_args_def)

text \<open>A line with a length: it is not there yet, it is wrong, or the position moves behind it.\<close>

lemma bulk_length_shape:
  obtains (known) "bulklen r \<noteq> - 1" "bulk_length maxbulk r = (Continue, r)"
  | (wait) "bulk_length maxbulk r = (Wait, r)"
  | (error) e where "bulk_length maxbulk r = (Wait, setProtocolError e r)"
  | (line) n ll r1 where "n + 2 \<le> length (unread r)" "0 \<le> ll" "r1 = r\<lparr>qb_pos := qb_pos r + (n + 2)\<rparr>"
      "bulk_length maxbulk r = (Continue, r1\<lparr>bulklen := ll\<rparr>) \<or> bulk_length maxbulk r = (Continue, (move_to_start r1)\<lparr>bulklen := ll\<rparr>)"
proof (cases "bulklen r = - 1")
  case False
  then show ?thesis
    by (intro known) (simp_all add: bulk_length_def)
next
  case True
  show ?thesis
  proof (cases "strchr CR (unread r)")
    case None
    then show ?thesis
      using wait error True by (cases "length (unread r) > PROTO_INLINE_MAX_SIZE") (simp_all add: bulk_length_def)
  next
    case (Some n)
    let ?ll = "string2ll (take (n - 1) (drop 1 (unread r)))"
    consider "\<not> n + 2 \<le> length (unread r)" | "n + 2 \<le> length (unread r)" "unread r ! 0 \<noteq> CHR ''$'' \<or> ?ll = None"
      | ll where "n + 2 \<le> length (unread r)" "unread r ! 0 = CHR ''$''" "?ll = Some ll"
      by (cases ?ll) auto
    then show ?thesis
    proof cases
      case 1
      then have "int n > int (length (unread r)) - 2"
        by linarith
      then show ?thesis
        using wait True Some by (simp add: bulk_length_def)
    next
      case 2
      then show ?thesis
        using error True Some by (cases "unread r ! 0 = CHR ''$''") (auto simp: bulk_length_def Let_def)
    next
      case (3 ll)
      then show ?thesis
        using error line [of n ll] True Some by (cases "ll < 0 \<or> ll > maxbulk") (auto simp: bulk_length_def Let_def)
    qed
  qed
qed

lemma mbulk_header_shape:
  assumes "unread r ! 0 = CHR ''*''"
  obtains (wait) "mbulk_header r = Some (Wait, r)"
  | (error) e where "mbulk_header r = Some (Wait, setProtocolError e r)"
  | (line) n where "n + 2 \<le> length (unread r)" "mbulk_header r = Some (Complete, r\<lparr>qb_pos := qb_pos r + (n + 2)\<rparr>)"
  | (args) n m where "n + 2 \<le> length (unread r)" "mbulk_header r = Some (Continue, (r\<lparr>qb_pos := qb_pos r + (n + 2)\<rparr>)\<lparr>multibulklen := m\<rparr>)" "m \<noteq> 0"
proof (cases "strchr CR (unread r)")
  case None
  then show ?thesis
    using wait error by (cases "length (unread r) > PROTO_INLINE_MAX_SIZE") (simp_all add: mbulk_header_def)
next
  case (Some n)
  let ?ll = "string2ll (take (n - 1) (drop 1 (unread r)))"
  consider "\<not> n + 2 \<le> length (unread r)" | "n + 2 \<le> length (unread r)" "?ll = None"
    | ll where "n + 2 \<le> length (unread r)" "?ll = Some ll"
    by (cases ?ll) auto
  then show ?thesis
  proof cases
    case 1
    then have "int n > int (length (unread r)) - 2"
      by linarith
    then show ?thesis
      using wait Some by (simp add: mbulk_header_def)
  next
    case 2
    then show ?thesis
      using error Some assms by (simp add: mbulk_header_def Let_def)
  next
    case (3 ll)
    consider "ll > 1024 * 1024" | "ll \<le> 0" | "0 < ll" "ll \<le> 1024 * 1024"
      by linarith
    then show ?thesis
      using error line [of n] args [of n "nat ll"] Some assms 3 by cases (simp_all add: mbulk_header_def Let_def)
  qed
qed

lemma bulk_length_sane:
  assumes "sane_args r"
  shows "\<exists>p r'. bulk_length maxbulk r = (p, r') \<and> sane_args r' \<and> multibulklen r' = multibulklen r \<and>
    length (unread r') \<le> length (unread r) \<and> (p = Continue \<longrightarrow> 0 \<le> bulklen r')"
proof (cases rule: bulk_length_shape [of r maxbulk])
  case known
  then show ?thesis
    using assms by (auto simp: sane_args_def)
next
  case (error e)
  then show ?thesis
    using assms sane_args_error [OF assms, of e] by (simp add: setProtocolError_def unread_def)
next
  case (line n ll r1)
  have r1: "sane_args r1" "unread r1 = drop (n + 2) (unread r)" "multibulklen r1 = multibulklen r"
    unfolding line(3) by (rule sane_args_advance [OF assms line(1)], rule unread_advance, simp)
  have "sane_args (r2\<lparr>bulklen := ll\<rparr>)" if "sane_args r2" for r2
    using that line(2) by (simp add: sane_args_def)
  then show ?thesis
    using line(2,4) r1 by auto
qed (use assms in auto)

lemma take_bulk_sane:
  assumes "sane_args r" and "0 \<le> bulklen r" and "bulklen r + 2 \<le> int (length (unread r))"
  shows "sane_args (take_bulk r) \<and> multibulklen (take_bulk r) = multibulklen r - 1 \<and> length (unread (take_bulk r)) < length (unread r)"
proof -
  have "nat (bulklen r) + 2 \<le> length (qbuf r) - qb_pos r"
    using assms(2,3) by (simp add: length_unread)
  then show ?thesis
    using assms(1) by (auto simp: take_bulk_def Let_def sane_args_def length_unread)
qed

lemma mbulk_args_sane:
  "sane_args r \<Longrightarrow> multibulklen r = n \<Longrightarrow>
    \<exists>p r'. mbulk_args maxbulk n r = (p, r') \<and> sane_args r' \<and> length (unread r') \<le> length (unread r) \<and>
      (p = Complete \<longrightarrow> 0 < n \<longrightarrow> length (unread r') < length (unread r)) \<and> (p \<noteq> Complete \<longrightarrow> multibulklen r' \<noteq> 0)"
proof (induction n arbitrary: r)
  case 0
  then show ?case by simp
next
  case (Suc n)
  obtain p r1 where r1: "bulk_length maxbulk r = (p, r1)" "sane_args r1" "multibulklen r1 = Suc n"
      "length (unread r1) \<le> length (unread r)" "p = Continue \<longrightarrow> 0 \<le> bulklen r1"
    using bulk_length_sane [OF Suc.prems(1), of maxbulk] Suc.prems(2) by auto
  show ?case
  proof (cases "p = Continue \<and> bulklen r1 + 2 \<le> int (length (unread r1))")
    case True
    then have t: "sane_args (take_bulk r1)" "multibulklen (take_bulk r1) = n" "length (unread (take_bulk r1)) < length (unread r1)"
      using take_bulk_sane [OF r1(2)] r1(3,5) by simp_all
    show ?thesis
      using Suc.IH [OF t(1,2)] t(3) r1(1,4) True by fastforce
  next
    case False
    then show ?thesis
      using r1 by (cases p) auto
  qed
qed

lemma processMultibulkBuffer_sane:
  assumes s: "sane r" and ty: "r_reqtype r = PROTO_REQ_MULTIBULK"
  shows "\<exists>ok r'. processMultibulkBuffer maxbulk r = Some (ok, r') \<and> sane (if ok then resetReader r' else r') \<and>
    length (unread r') \<le> length (unread r) \<and> (ok \<longrightarrow> length (unread r') < length (unread r))"
proof -
  have args: "\<exists>ok r'. (let (p, r) = mbulk_args maxbulk (multibulklen r1) r1 in Some (p = Complete, r)) = Some (ok, r') \<and>
      sane (if ok then resetReader r' else r') \<and> length (unread r') \<le> length (unread r1) \<and> (ok \<longrightarrow> length (unread r') < length (unread r1))"
    if m: "sane_args r1" "multibulklen r1 \<noteq> 0" for r1
  proof -
    obtain p r2 where r2: "mbulk_args maxbulk (multibulklen r1) r1 = (p, r2)" "sane_args r2" "length (unread r2) \<le> length (unread r1)"
        "p = Complete \<longrightarrow> length (unread r2) < length (unread r1)" "p \<noteq> Complete \<longrightarrow> multibulklen r2 \<noteq> 0"
      using mbulk_args_sane [OF m(1) refl, of maxbulk] m(2) by auto
    have "sane (if p = Complete then resetReader r2 else r2)"
      using r2(2,5) sane_reset [of r2] by (cases "p = Complete") (simp_all add: sane_args_def, simp add: sane_def)
    then show ?thesis
      using r2 by simp
  qed
  show ?thesis
  proof (cases "multibulklen r = 0")
    case False
    moreover have "sane_args r"
      using s ty by (simp add: sane_def sane_args_def)
    ultimately show ?thesis
      using args [of r] by (simp add: processMultibulkBuffer_def)
  next
    case True
    then have r: "r_argv r = []" "unread r \<noteq> []" "unread r ! 0 = CHR ''*''" "sane_args r"
      using s ty by (auto simp: sane_def sane_args_def)
    have adv: "sane_args r1 \<and> unread r1 = drop (n + 2) (unread r)" if "n + 2 \<le> length (unread r)" "r1 = r\<lparr>qb_pos := qb_pos r + (n + 2)\<rparr>" for n r1
      using sane_args_advance [OF r(4) that(1)] unread_advance [of r "n + 2"] that(2) by simp
    from r(3) show ?thesis
    proof (cases rule: mbulk_header_shape)
      case (line n)
      let ?r = "r\<lparr>qb_pos := qb_pos r + (n + 2)\<rparr>"
      have "processMultibulkBuffer maxbulk r = Some (True, ?r)"
        using line True r(1) by (simp add: processMultibulkBuffer_def)
      then show ?thesis
        using adv [OF line(1) refl] sane_reset [of ?r] r(2) by (auto simp: sane_args_def)
    next
      case a: (args n m)
      let ?m = "(r\<lparr>qb_pos := qb_pos r + (n + 2)\<rparr>)\<lparr>multibulklen := m\<rparr>"
      have "processMultibulkBuffer maxbulk r = (let (p, r) = mbulk_args maxbulk (multibulklen ?m) ?m in Some (p = Complete, r))"
        using a True r(1) by (simp add: processMultibulkBuffer_def)
      moreover have "sane_args ?m" "multibulklen ?m \<noteq> 0" "length (unread ?m) < length (unread r)"
        using adv [OF a(1) refl] a(3) r(2) by (auto simp: sane_args_def)
      ultimately show ?thesis
        using args [of ?m] by fastforce
    qed (use True r(1) s in \<open>auto simp: processMultibulkBuffer_def sane_error\<close>)
  qed
qed

lemma processInlineBuffer_sane:
  assumes s: "sane r"
  shows "case processInlineBuffer r of (ok, r') \<Rightarrow> sane (if ok then resetReader r' else r') \<and>
    length (unread r') \<le> length (unread r) \<and> (ok \<longrightarrow> length (unread r') < length (unread r))"
proof (cases "strchr LF (unread r)")
  case None
  then show ?thesis
    using s by (simp add: processInlineBuffer_def sane_error)
next
  case (Some n)
  define nl where "nl = (if n \<noteq> 0 \<and> unread r ! (n - 1) = CR then (n - 1, 2) else (n, 1 :: nat))"
  have nl: "fst nl + snd nl = n + 1"
    by (simp add: nl_def)
  have n: "n < length (unread r)"
    using strchr_bound [OF Some] by simp
  let ?r = "r\<lparr>qb_pos := qb_pos r + (n + 1)\<rparr>"
  have u: "unread ?r = drop (n + 1) (unread r)" "qb_pos ?r \<le> length (qbuf ?r)"
    using unread_advance [of r "n + 1"] n s by (simp_all add: length_unread)
  have eq: "processInlineBuffer r = (case sdssplitargs (take (fst nl) (unread r)) of
      None \<Rightarrow> (False, setProtocolError Unbalanced_quotes r)
    | Some argv \<Rightarrow> (True, r\<lparr>qb_pos := qb_pos r + fst nl + snd nl, r_argv := argv\<rparr>))"
    unfolding processInlineBuffer_def Let_def Some nl_def by (simp add: case_prod_unfold)
  show ?thesis
  proof (cases "sdssplitargs (take (fst nl) (unread r))")
    case None
    then show ?thesis
      using eq s by (simp add: sane_error)
  next
    case (Some argv)
    have "r\<lparr>qb_pos := qb_pos r + fst nl + snd nl, r_argv := argv\<rparr> = ?r\<lparr>r_argv := argv\<rparr>"
      using nl by (simp add: add.assoc)
    then have "processInlineBuffer r = (True, ?r\<lparr>r_argv := argv\<rparr>)"
      using eq Some by simp
    moreover have "sane (resetReader (?r\<lparr>r_argv := argv\<rparr>))"
      using u(2) s by (intro sane_reset) (simp_all add: sane_def)
    ultimately show ?thesis
      using u(1) n by simp
  qed
qed

lemma next_request_sane:
  assumes s: "sane r" and u: "unread r \<noteq> []"
  shows "\<exists>ok r'. next_request maxbulk (request_type r) = Some (ok, r') \<and> sane (if ok then resetReader r' else r') \<and>
    length (unread r') \<le> length (unread r) \<and> (ok \<longrightarrow> length (unread r') < length (unread r))"
proof -
  have "sane (request_type r)" "r_reqtype (request_type r) \<noteq> PROTO_REQ_NONE"
    using s u by (auto simp: sane_def request_type_def)
  note t = this
  show ?thesis
  proof (cases "r_reqtype (request_type r) = PROTO_REQ_INLINE")
    case True
    obtain ok r' where p: "processInlineBuffer (request_type r) = (ok, r')"
      by (cases "processInlineBuffer (request_type r)")
    then show ?thesis
      using processInlineBuffer_sane [OF t(1)] True by (intro exI [of _ ok] exI [of _ r']) (simp add: next_request_def)
  next
    case False
    then have "r_reqtype (request_type r) = PROTO_REQ_MULTIBULK"
      using t(2) by (cases "r_reqtype (request_type r)") simp_all
    then show ?thesis
      using processMultibulkBuffer_sane [OF t(1), of maxbulk] False by (simp add: next_request_def)
  qed
qed

text \<open>A sink that never aborts.\<close>

locale total_sink = command_sink k for k :: "'s sink" +
  assumes execute_total: "execute k argv s \<noteq> None"
begin

definition rests :: "reader \<Rightarrow> 's \<Rightarrow> bool" where
  "rests r s \<longleftrightarrow> sane r \<or> busy k s \<and> sane (resetReader r)"

text \<open>
  The loop ends for its own reasons: the buffer is used up, the client takes no more, it is closed, or the rest of
  the buffer is no complete request.
\<close>

definition stops :: "reader \<Rightarrow> 's \<Rightarrow> bool" where
  "stops r s \<longleftrightarrow> unread r = [] \<or> busy k s \<or> r_close r \<or> (\<exists>r'. next_request (proto_max_bulk_len k) (request_type r') = Some (False, r))"

definition ends :: "(reader \<times> 's) option \<Rightarrow> bool" where
  "ends res \<longleftrightarrow> (\<exists>r s. res = Some (r, s) \<and> rests r s \<and> stops r s)"

lemma complete_ends:
  assumes run: "qb_pos r < length (qbuf r)" "\<not> busy k s" "\<not> r_close r"
    and next_req: "next_request (proto_max_bulk_len k) (request_type r) = Some (True, r')" "sane (resetReader r')"
    and go: "\<And>t. ends (input_loop n k (resetReader r') t)"
  shows "ends (input_loop (Suc n) k r s)"
proof -
  let ?gopher = "r_reqtype (request_type r) = PROTO_REQ_INLINE \<and> gopher_enabled k \<and> is_gopher (r_argv r')"
  consider (gopher) ?gopher | (empty) "\<not> ?gopher" "r_argv r' = []" | (exec) "\<not> ?gopher" "r_argv r' \<noteq> []"
    by blast
  then show ?thesis
  proof cases
    case gopher
    then have "input_loop (Suc n) k r s = Some ((resetReader r')\<lparr>r_close := True\<rparr>, s)"
      using run next_req(1) by simp
    moreover have "sane ((resetReader r')\<lparr>r_close := True\<rparr>)"
      using next_req(2) by (simp add: sane_def resetReader_def)
    ultimately show ?thesis
      by (simp add: ends_def rests_def stops_def)
  next
    case empty
    then have "input_loop (Suc n) k r s = input_loop n k (resetReader r') s"
      using run next_req(1) by auto
    then show ?thesis
      using go by simp
  next
    case exec
    obtain s1 reset where x: "execute k (r_argv r') s = Some (s1, reset)"
      using execute_total [of "r_argv r'" s] by auto
    then have "input_loop (Suc n) k r s = input_loop n k (if reset then resetReader r' else r') s1"
      using run next_req(1) exec by auto
    moreover have "\<not> reset \<Longrightarrow> busy k s1"
      using not_reset_busy x by auto
    ultimately show ?thesis
      using go [of s1] input_loop_busy [of s1 n r'] next_req(2) by (cases reset) (auto simp: ends_def rests_def stops_def)
  qed
qed

lemma input_loop_total: "sane r \<Longrightarrow> length (unread r) \<le> n \<Longrightarrow> ends (input_loop n k r s)"
proof (induction n arbitrary: r s)
  case 0
  then show ?case by (simp add: ends_def rests_def stops_def)
next
  case (Suc n)
  show ?case
  proof (cases "qb_pos r < length (qbuf r) \<and> \<not> busy k s \<and> \<not> r_close r")
    case False
    then show ?thesis
      using Suc.prems(1) by (auto simp: ends_def rests_def stops_def unread_def)
  next
    case True
    then have "unread r \<noteq> []"
      by (simp add: unread_def)
    then obtain ok r' where r': "next_request (proto_max_bulk_len k) (request_type r) = Some (ok, r')"
        "sane (if ok then resetReader r' else r')" "ok \<longrightarrow> length (unread r') < length (unread r)"
      using next_request_sane [OF Suc.prems(1)] by blast
    show ?thesis
    proof (cases ok)
      case False
      then show ?thesis
        using True r'(1,2) by (auto simp: ends_def rests_def stops_def)
    next
      case ok: True
      then have "ends (input_loop n k (resetReader r') t)" for t
        using Suc.IH [of "resetReader r'" t] Suc.prems(2) r'(2,3) by simp
      then show ?thesis
        using complete_ends [of r s r' n] True r'(1,2) ok by simp
    qed
  qed
qed

end

lemma sane_move: "sane r \<Longrightarrow> sane (move_to_start r)"
  by (simp add: sane_def)

lemma sane_append: "sane r \<Longrightarrow> sane (r\<lparr>qbuf := qbuf r @ bytes\<rparr>)"
  by (auto simp: sane_def unread_def nth_append)

lemma sane_close: "sane r \<Longrightarrow> sane (r\<lparr>r_close := True\<rparr>)"
  by (auto simp: sane_def unread_def)

interpretation collt: total_sink "collector maxbulk maxbuf gopher" for maxbulk maxbuf gopher
  by unfold_locales simp

lemma input_loop_nonempty:
  "input_loop n (collector maxbulk maxbuf gopher) r cmds = Some (r', cmds') \<Longrightarrow> [] \<notin> set cmds \<Longrightarrow> [] \<notin> set cmds'"
proof (induction n arbitrary: r cmds)
  case (Suc n)
  from Suc.prems show ?case
    by (auto split: if_splits bind_splits simp: Let_def dest!: Suc.IH)
qed simp

lemma readBytes_total:
  assumes "sane r" and "[] \<notin> set cmds"
  shows "\<exists>r' cmds'. readBytes (collector maxbulk maxbuf gopher) bytes r cmds = Some (r', cmds') \<and> sane r' \<and> [] \<notin> set cmds'"
proof (cases "length (qbuf r @ bytes) > maxbuf")
  case True
  then show ?thesis
    using assms sane_close [OF sane_append [OF assms(1), of bytes]] by (simp add: readBytes_def)
next
  case False
  let ?r = "r\<lparr>qbuf := qbuf r @ bytes\<rparr>"
  obtain r' cmds' where r': "input_loop (length (unread ?r)) (collector maxbulk maxbuf gopher) ?r cmds = Some (r', cmds')" "sane r'"
    using collt.input_loop_total [OF sane_append [OF assms(1), of bytes] order_refl, of maxbulk maxbuf gopher cmds]
    by (auto simp: collt.ends_def collt.rests_def)
  then show ?thesis
    using False input_loop_nonempty [OF r'(1) assms(2)] sane_move [OF r'(2)] by (auto simp: readBytes_def processInputBytes_def)
qed

lemma read_all_total:
  "sane r \<Longrightarrow> [] \<notin> set cmds \<Longrightarrow>
    \<exists>r' cmds'. read_all (collector maxbulk maxbuf gopher) chunks (r, cmds) = Some (r', cmds') \<and> sane r' \<and> [] \<notin> set cmds'"
proof (induction chunks arbitrary: r cmds)
  case (Cons bytes chunks)
  obtain r' cmds' where "readBytes (collector maxbulk maxbuf gopher) bytes r cmds = Some (r', cmds')" "sane r'" "[] \<notin> set cmds'"
    using readBytes_total [OF Cons.prems] by blast
  then show ?case
    using Cons.IH [of r' cmds'] by (simp add: read_all_def)
qed (simp add: read_all_def)

text \<open>
  C9. No input makes the parser fail: whatever bytes arrive, in whatever pieces, no assertion of
  \<open>processMultibulkBuffer\<close> fails and the position stays within the buffer; every command that is handed over has
  arguments, and an error of the protocol closes the client.
\<close>

theorem protocol_never_aborts:
  "\<exists>r cmds. read_all (collector maxbulk maxbuf gopher) chunks (new_reader, []) = Some (r, cmds) \<and>
    qb_pos r \<le> length (qbuf r) \<and> [] \<notin> set cmds \<and> (r_error r = None \<or> r_close r)"
proof -
  have "sane new_reader"
    by (simp add: sane_def new_reader_def)
  then show ?thesis
    using read_all_total [of new_reader "[]" maxbulk maxbuf gopher chunks] by (auto simp: sane_def)
qed

lemma read_closed:
  assumes "r_close r" and "length (qbuf r @ bytes) \<le> maxbuf"
  shows "\<exists>r'. readBytes (collector maxbulk maxbuf gopher) bytes r cmds = Some (r', cmds) \<and> r_error r' = r_error r \<and> r_close r'"
proof -
  have "input_loop n (collector maxbulk maxbuf gopher) (r\<lparr>qbuf := b\<rparr>) cmds = Some (r\<lparr>qbuf := b\<rparr>, cmds)" for n b
    using assms(1) by (cases n) simp_all
  then show ?thesis
    using assms by (simp add: readBytes_def processInputBytes_def Let_def)
qed

text \<open>
  C10. A multi bulk request whose count is not the decimal representation of a number up to 1048576 is refused with
  the error for an invalid length and closes the client, and no later byte leads to a command.
\<close>

theorem protocol_invalid_count:
  assumes cnt: "\<forall>c \<in> set cnt. c \<noteq> CR \<and> c \<noteq> CHR 0x00" "\<not> (\<exists>n. n \<le> 1024 * 1024 \<and> is_ll n \<and> cnt = dec_int n)"
    and len: "length cnt + length rest + length further + 3 \<le> maxbuf"
  shows "\<exists>r r'. readBytes (collector maxbulk maxbuf gopher) (''*'' @ cnt @ [CR, LF] @ rest) new_reader [] = Some (r, []) \<and>
    r_error r = Some Invalid_multibulk_length \<and> r_close r \<and>
    readBytes (collector maxbulk maxbuf gopher) further r [] = Some (r', []) \<and> r_error r' = Some Invalid_multibulk_length"
proof -
  let ?b = "''*'' @ cnt @ [CR, LF] @ rest" and ?k = "collector maxbulk maxbuf gopher"
  let ?r = "new_reader\<lparr>qbuf := ?b\<rparr>" and ?e = "new_reader\<lparr>qbuf := ?b, r_reqtype := PROTO_REQ_MULTIBULK, r_error := Some Invalid_multibulk_length, r_close := True\<rparr>"
  have h: "\<forall>c \<in> set (''*'' @ cnt). c \<noteq> CR \<and> c \<noteq> CHR 0x00"
    using cnt(1) by simp
  have c: "strchr CR ?b = Some (length cnt + 1)"
    using strchr_whole [OF h, of ?b "[]" "LF # rest"] by simp
  have ll: "case string2ll cnt of None \<Rightarrow> True | Some ll \<Rightarrow> ll > 1024 * 1024"
    using cnt(2) by (auto simp: string2ll_iff split: option.split)
  have u: "unread ?r = ?b" "request_type ?r = ?r\<lparr>r_reqtype := PROTO_REQ_MULTIBULK\<rparr>"
    by (simp_all add: unread_def new_reader_def request_type_def)
  have "next_request maxbulk (request_type ?r) = Some (False, ?e)"
    using c ll u(1) unfolding u(2) by (auto simp: next_request_def processMultibulkBuffer_def mbulk_header_def setProtocolError_def
        new_reader_def unread_def split: option.splits)
  then have "input_loop (Suc n) ?k ?r [] = Some (?e, [])" for n
    by (simp add: new_reader_def)
  then have "readBytes ?k ?b new_reader [] = Some (?e, [])"
    using len u(1) by (simp add: readBytes_def processInputBytes_def Let_def new_reader_def unread_def)
  moreover have "\<exists>r'. readBytes ?k further ?e [] = Some (r', []) \<and> r_error r' = r_error ?e \<and> r_close r'"
    using len by (intro read_closed) simp_all
  ultimately show ?thesis
    by auto
qed

theorem protocol_invalid_count_witness:
  "\<exists>r. readBytes (collector 512 1024 False) (''*'' @ ''01'' @ [CR, LF] @ []) new_reader [] = Some (r, []) \<and>
    r_error r = Some Invalid_multibulk_length \<and> r_close r"
proof -
  have "string2ll ''01'' = None"
    by code_simp
  then have "\<not> (\<exists>n. n \<le> 1024 * 1024 \<and> is_ll n \<and> ''01'' = dec_int n)"
    using string2ll_iff [of "''01''"] by auto
  then show ?thesis
    using protocol_invalid_count [of "''01''" "[]" "[]" 1024 512 False] by auto
qed

end
