(* ===== verification/Dict.thy ===== *)
theory Dict
  imports Prelude
begin

text \<open>
  The hash table of \<open>src/src/dict.c\<close>: chained buckets in one table, or in two while the
  table is being rehashed incrementally.

  A bucket chain (\<open>dictEntry\<close> nodes linked by \<open>next\<close>) is the list of its key/value pairs
  from the head on; \<open>table = NULL\<close> is the empty list of buckets.  A pointer to an entry,
  through which C callers read or overwrite the value, is the entry's key: a dictionary
  holds a key at most once.  The \<open>hashFunction\<close> of the \<open>dictType\<close> is a field of the
  dictionary, and \<open>keyCompare\<close> is equality of the keys.  \<open>dict_can_resize\<close>, a static
  variable of the C file, is an argument of the operations that read it.
\<close>

subsection \<open>State\<close>

record ('k, 'v) dictht =
  table :: "('k \<times> 'v) list list"
  ht_size :: nat
  sizemask :: nat
  used :: nat

record ('k, 'v) dict =
  hashFunction :: "'k \<Rightarrow> u64"
  ht0 :: "('k, 'v) dictht"
  ht1 :: "('k, 'v) dictht"
  rehashidx :: int
  iterators :: nat

definition dictReset :: "('k, 'v) dictht" where
  "dictReset = \<lparr>table = [], ht_size = 0, sizemask = 0, used = 0\<rparr>"

definition dictCreate :: "('k \<Rightarrow> u64) \<Rightarrow> ('k, 'v) dict" where
  "dictCreate hf = \<lparr>hashFunction = hf, ht0 = dictReset, ht1 = dictReset, rehashidx = -1, iterators = 0\<rparr>"

definition dictIsRehashing :: "('k, 'v) dict \<Rightarrow> bool" where
  "dictIsRehashing d \<longleftrightarrow> rehashidx d \<noteq> -1"

definition dictSize :: "('k, 'v) dict \<Rightarrow> nat" where
  "dictSize d = used (ht0 d) + used (ht1 d)"

text \<open>\<open>dictHashKey(d, key) & sizemask\<close>.\<close>

definition bucket_index :: "('k \<Rightarrow> u64) \<Rightarrow> ('k, 'v) dictht \<Rightarrow> 'k \<Rightarrow> nat" where
  "bucket_index hf ht k = unat (hf k AND of_nat (sizemask ht))"

subsection \<open>Growing the table\<close>

definition LONG_MAX :: nat where
  "LONG_MAX = 2 ^ 63 - 1"

definition DICT_HT_INITIAL_SIZE :: nat where
  "DICT_HT_INITIAL_SIZE = 4"

text \<open>The loop of \<open>_dictNextPower\<close>; \<open>i\<close> is never 0, and doubling it ends it.\<close>

function next_power_loop :: "nat \<Rightarrow> nat \<Rightarrow> nat" where
  "next_power_loop sz i = (if sz \<le> i \<or> i = 0 then i else next_power_loop sz (i * 2))"
  by pat_completeness auto
termination
  by (relation "measure (\<lambda>(sz, i). sz - i)") auto

declare next_power_loop.simps [simp del]

definition dictNextPower :: "nat \<Rightarrow> nat" where
  "dictNextPower sz =
     (if LONG_MAX \<le> sz then LONG_MAX + 1 else next_power_loop sz DICT_HT_INITIAL_SIZE)"

text \<open>\<open>DICT_OK\<close> is \<^const>\<open>True\<close>, \<open>DICT_ERR\<close> is \<^const>\<open>False\<close>.\<close>

definition dictExpand :: "('k, 'v) dict \<Rightarrow> nat \<Rightarrow> ('k, 'v) dict \<times> bool" where
  "dictExpand d sz =
     (if dictIsRehashing d \<or> sz < used (ht0 d) then (d, False)
      else let realsize = dictNextPower sz in
        if realsize = ht_size (ht0 d) then (d, False)
        else let n = \<lparr>table = replicate realsize [], ht_size = realsize,
                      sizemask = realsize - 1, used = 0\<rparr> in
          if table (ht0 d) = [] then (d\<lparr>ht0 := n\<rparr>, True)
          else (d\<lparr>ht1 := n, rehashidx := 0\<rparr>, True))"

definition dictResize :: "bool \<Rightarrow> ('k, 'v) dict \<Rightarrow> ('k, 'v) dict \<times> bool" where
  "dictResize can_resize d =
     (if \<not> can_resize \<or> dictIsRehashing d then (d, False)
      else dictExpand d (max (used (ht0 d)) DICT_HT_INITIAL_SIZE))"

definition dict_force_resize_ratio :: nat where
  "dict_force_resize_ratio = 5"

definition dictExpandIfNeeded :: "bool \<Rightarrow> ('k, 'v) dict \<Rightarrow> ('k, 'v) dict \<times> bool" where
  "dictExpandIfNeeded can_resize d =
     (if dictIsRehashing d then (d, True)
      else if ht_size (ht0 d) = 0 then dictExpand d DICT_HT_INITIAL_SIZE
      else if ht_size (ht0 d) \<le> used (ht0 d) \<and>
              (can_resize \<or> dict_force_resize_ratio < used (ht0 d) div ht_size (ht0 d))
        then dictExpand d (used (ht0 d) * 2)
      else (d, True))"

subsection \<open>Incremental rehashing\<close>

text \<open>
  The inner loop of \<open>dictRehash\<close> skips empty buckets.  It is given the buckets from
  \<open>rehashidx\<close> on and either gives up after \<open>empty_visits\<close> of them (the early
  \<open>return 1\<close>) or stops at a non-empty one.  \<open>SkipEnd\<close> is the loop reading past the
  table, which \<open>rehash_skip_found\<close> below rules out for a table that is in use.
\<close>

datatype rehash_skip = SkipStop nat | SkipAt nat nat | SkipEnd

fun rehash_skip_empty :: "'e list list \<Rightarrow> nat \<Rightarrow> nat \<Rightarrow> rehash_skip" where
  "rehash_skip_empty [] idx empty_visits = SkipEnd"
| "rehash_skip_empty (b # bs) idx empty_visits =
     (if b = []
      then if empty_visits - 1 = 0 then SkipStop (idx + 1)
           else rehash_skip_empty bs (idx + 1) (empty_visits - 1)
      else SkipAt idx empty_visits)"

text \<open>\<open>entry->next = ht->table[i]; ht->table[i] = entry; ht->used++\<close>\<close>

definition ht_push :: "('k \<Rightarrow> u64) \<Rightarrow> 'k \<times> 'v \<Rightarrow> ('k, 'v) dictht \<Rightarrow> ('k, 'v) dictht" where
  "ht_push hf e ht =
     (let i = bucket_index hf ht (fst e)
      in ht\<lparr>table := (table ht)[i := e # table ht ! i], used := used ht + 1\<rparr>)"

text \<open>One bucket moves: its entries, head first, are pushed onto the second table.\<close>

definition rehash_bucket :: "('k, 'v) dict \<Rightarrow> nat \<Rightarrow> ('k, 'v) dict" where
  "rehash_bucket d i =
     (let b = table (ht0 d) ! i in
      d\<lparr>ht0 := (ht0 d)\<lparr>table := (table (ht0 d))[i := []], used := used (ht0 d) - length b\<rparr>,
        ht1 := fold (ht_push (hashFunction d)) b (ht1 d),
        rehashidx := int i + 1\<rparr>)"

text \<open>The outer loop; the flag says that it was left by the early \<open>return 1\<close>.\<close>

fun rehash_loop :: "nat \<Rightarrow> nat \<Rightarrow> ('k, 'v) dict \<Rightarrow> ('k, 'v) dict \<times> bool" where
  "rehash_loop 0 empty_visits d = (d, False)"
| "rehash_loop (Suc n) empty_visits d =
     (if used (ht0 d) = 0 then (d, False)
      else case rehash_skip_empty (drop (nat (rehashidx d)) (table (ht0 d)))
                  (nat (rehashidx d)) empty_visits of
             SkipStop i \<Rightarrow> (d\<lparr>rehashidx := int i\<rparr>, True)
           | SkipAt i ev \<Rightarrow> rehash_loop n ev (rehash_bucket d i)
           | SkipEnd \<Rightarrow> (d, True))"

definition dictRehash :: "('k, 'v) dict \<Rightarrow> nat \<Rightarrow> ('k, 'v) dict \<times> bool" where
  "dictRehash d n =
     (if \<not> dictIsRehashing d then (d, False)
      else case rehash_loop n (n * 10) d of
             (d', True) \<Rightarrow> (d', True)
           | (d', False) \<Rightarrow>
               if used (ht0 d') = 0
               then (d'\<lparr>ht0 := ht1 d', ht1 := dictReset, rehashidx := -1\<rparr>, False)
               else (d', True))"

definition dictRehashStep :: "('k, 'v) dict \<Rightarrow> ('k, 'v) dict" where
  "dictRehashStep d = (if iterators d = 0 then fst (dictRehash d 1) else d)"

subsection \<open>Lookup, insertion, deletion\<close>

text \<open>The chain of the bucket that \<open>key\<close> hashes to.\<close>

definition chain :: "('k, 'v) dict \<Rightarrow> ('k, 'v) dictht \<Rightarrow> 'k \<Rightarrow> ('k \<times> 'v) list" where
  "chain d ht k = table ht ! bucket_index (hashFunction d) ht k"

text \<open>The search of both tables that \<open>dictFind\<close> and \<open>_dictKeyIndex\<close> share.\<close>

definition search_tables :: "('k, 'v) dict \<Rightarrow> 'k \<Rightarrow> 'v option" where
  "search_tables d k =
     (case map_of (chain d (ht0 d) k) k of
        Some v \<Rightarrow> Some v
      | None \<Rightarrow> if \<not> dictIsRehashing d then None else map_of (chain d (ht1 d) k) k)"

definition dictFind :: "('k, 'v) dict \<Rightarrow> 'k \<Rightarrow> ('k, 'v) dict \<times> 'v option" where
  "dictFind d k =
     (if dictSize d = 0 then (d, None)
      else let d1 = (if dictIsRehashing d then dictRehashStep d else d)
           in (d1, search_tables d1 k))"

text \<open>
  \<open>_dictKeyIndex\<close>: \<open>Inl None\<close> is -1 without an existing entry (the table could not be
  expanded), \<open>Inl (Some v)\<close> is -1 with the existing entry, and \<open>Inr\<close> says that the slot
  of \<open>k\<close> in the table that takes new keys is free for it.
\<close>

definition dictKeyIndex :: "bool \<Rightarrow> ('k, 'v) dict \<Rightarrow> 'k \<Rightarrow> ('k, 'v) dict \<times> ('v option + nat)" where
  "dictKeyIndex can_resize d k =
     (case dictExpandIfNeeded can_resize d of
        (d1, False) \<Rightarrow> (d1, Inl None)
      | (d1, True) \<Rightarrow>
          (case search_tables d1 k of
             Some v \<Rightarrow> (d1, Inl (Some v))
           | None \<Rightarrow>
               (d1, Inr (bucket_index (hashFunction d1)
                          (if dictIsRehashing d1 then ht1 d1 else ht0 d1) k))))"

text \<open>
  \<open>dictAddRaw\<close> with the value the caller stores into the entry it gets back: the first
  result says that a new entry was made, the second is the value of the existing one.
\<close>

definition dictAddRaw :: "bool \<Rightarrow> ('k, 'v) dict \<Rightarrow> 'k \<Rightarrow> 'v \<Rightarrow> ('k, 'v) dict \<times> bool \<times> 'v option" where
  "dictAddRaw can_resize d k v =
     (let d1 = (if dictIsRehashing d then dictRehashStep d else d) in
      case dictKeyIndex can_resize d1 k of
        (d2, Inl existing) \<Rightarrow> (d2, False, existing)
      | (d2, Inr i) \<Rightarrow>
          (if dictIsRehashing d2
           then (d2\<lparr>ht1 := (ht1 d2)\<lparr>table := (table (ht1 d2))[i := (k, v) # table (ht1 d2) ! i],
                                     used := used (ht1 d2) + 1\<rparr>\<rparr>, True, None)
           else (d2\<lparr>ht0 := (ht0 d2)\<lparr>table := (table (ht0 d2))[i := (k, v) # table (ht0 d2) ! i],
                                     used := used (ht0 d2) + 1\<rparr>\<rparr>, True, None)))"

definition dictAdd :: "bool \<Rightarrow> ('k, 'v) dict \<Rightarrow> 'k \<Rightarrow> 'v \<Rightarrow> ('k, 'v) dict \<times> bool" where
  "dictAdd can_resize d k v =
     (case dictAddRaw can_resize d k v of (d', added, _) \<Rightarrow> (d', added))"

text \<open>\<open>dictSetVal(d, entry, val)\<close> for the entry of key \<open>k\<close>.\<close>

definition chain_set :: "'k \<Rightarrow> 'v \<Rightarrow> ('k \<times> 'v) list \<Rightarrow> ('k \<times> 'v) list" where
  "chain_set k v = map (\<lambda>(k', v'). if k' = k then (k', v) else (k', v'))"

definition dictSetVal :: "('k, 'v) dict \<Rightarrow> 'k \<Rightarrow> 'v \<Rightarrow> ('k, 'v) dict" where
  "dictSetVal d k v =
     d\<lparr>ht0 := (ht0 d)\<lparr>table := map (chain_set k v) (table (ht0 d))\<rparr>,
       ht1 := (ht1 d)\<lparr>table := map (chain_set k v) (table (ht1 d))\<rparr>\<rparr>"

definition dictReplace :: "bool \<Rightarrow> ('k, 'v) dict \<Rightarrow> 'k \<Rightarrow> 'v \<Rightarrow> ('k, 'v) dict \<times> bool" where
  "dictReplace can_resize d k v =
     (case dictAddRaw can_resize d k v of
        (d', True, _) \<Rightarrow> (d', True)
      | (d', False, _) \<Rightarrow> (dictSetVal d' k v, False))"

text \<open>Unlinking the first entry of the chain with key \<open>k\<close>.\<close>

fun chain_unlink :: "'k \<Rightarrow> ('k \<times> 'v) list \<Rightarrow> ('k \<times> 'v) list" where
  "chain_unlink k [] = []"
| "chain_unlink k (e # es) = (if fst e = k then es else e # chain_unlink k es)"

definition ht_unlink :: "('k \<Rightarrow> u64) \<Rightarrow> 'k \<Rightarrow> ('k, 'v) dictht \<Rightarrow> ('k, 'v) dictht" where
  "ht_unlink hf k ht =
     (let i = bucket_index hf ht k
      in ht\<lparr>table := (table ht)[i := chain_unlink k (table ht ! i)], used := used ht - 1\<rparr>)"

text \<open>\<open>dictGenericDelete\<close> returns the unlinked entry, here its value.\<close>

definition dictGenericDelete :: "('k, 'v) dict \<Rightarrow> 'k \<Rightarrow> ('k, 'v) dict \<times> 'v option" where
  "dictGenericDelete d k =
     (if used (ht0 d) = 0 \<and> used (ht1 d) = 0 then (d, None)
      else let d1 = (if dictIsRehashing d then dictRehashStep d else d) in
        case map_of (chain d1 (ht0 d1) k) k of
          Some v \<Rightarrow> (d1\<lparr>ht0 := ht_unlink (hashFunction d1) k (ht0 d1)\<rparr>, Some v)
        | None \<Rightarrow>
            if \<not> dictIsRehashing d1 then (d1, None)
            else case map_of (chain d1 (ht1 d1) k) k of
                   Some v \<Rightarrow> (d1\<lparr>ht1 := ht_unlink (hashFunction d1) k (ht1 d1)\<rparr>, Some v)
                 | None \<Rightarrow> (d1, None))"

definition dictDelete :: "('k, 'v) dict \<Rightarrow> 'k \<Rightarrow> ('k, 'v) dict \<times> bool" where
  "dictDelete d k = (case dictGenericDelete d k of (d', e) \<Rightarrow> (d', e \<noteq> None))"

definition dictUnlink :: "('k, 'v) dict \<Rightarrow> 'k \<Rightarrow> ('k, 'v) dict \<times> 'v option" where
  "dictUnlink d k = dictGenericDelete d k"

definition dictEmpty :: "('k, 'v) dict \<Rightarrow> ('k, 'v) dict" where
  "dictEmpty d = d\<lparr>ht0 := dictReset, ht1 := dictReset, rehashidx := -1, iterators := 0\<rparr>"


subsection \<open>Iterators\<close>

text \<open>
  \<open>entry\<close> and \<open>nextEntry\<close> are pointers into a chain: here the rest of the chain from that
  node on, with the empty list for \<open>NULL\<close>.  The fingerprint of an unsafe iterator, a
  check for misuse that is made of addresses, is left out.
\<close>

record ('k, 'v) dictIterator =
  it_index :: int
  it_table :: nat
  it_safe :: bool
  it_entry :: "('k \<times> 'v) list"
  it_nextEntry :: "('k \<times> 'v) list"

definition dictGetIterator :: "('k, 'v) dictIterator" where
  "dictGetIterator = \<lparr>it_index = -1, it_table = 0, it_safe = False, it_entry = [], it_nextEntry = []\<rparr>"

definition dictGetSafeIterator :: "('k, 'v) dictIterator" where
  "dictGetSafeIterator = dictGetIterator\<lparr>it_safe := True\<rparr>"

definition ht_of :: "('k, 'v) dict \<Rightarrow> nat \<Rightarrow> ('k, 'v) dictht" where
  "ht_of d t = (if t = 0 then ht0 d else ht1 d)"

text \<open>
  One round of the loop of \<open>dictNext\<close> up to its last \<open>if\<close>: the iterator with its new
  \<open>entry\<close>, or \<open>None\<close> for the \<open>break\<close> that ends the iteration.
\<close>

definition dictNext_advance :: "('k, 'v) dict \<Rightarrow> ('k, 'v) dictIterator \<Rightarrow>
    ('k, 'v) dict \<times> ('k, 'v) dictIterator \<times> bool" where
  "dictNext_advance d it =
     (if it_entry it = []
      then let d1 = (if it_index it = -1 \<and> it_table it = 0 \<and> it_safe it
                     then d\<lparr>iterators := iterators d + 1\<rparr> else d);
               i = it_index it + 1
           in if int (ht_size (ht_of d (it_table it))) \<le> i
              then if dictIsRehashing d \<and> it_table it = 0
                   then (d1, it\<lparr>it_table := 1, it_index := 0, it_entry := table (ht1 d) ! 0\<rparr>, True)
                   else (d1, it\<lparr>it_index := i\<rparr>, False)
              else (d1, it\<lparr>it_index := i, it_entry := table (ht_of d (it_table it)) ! nat i\<rparr>, True)
      else (d, it\<lparr>it_entry := it_nextEntry it\<rparr>, True))"

text \<open>What bounds the rounds: the buckets and tables ahead, and a chain that may just have ended.\<close>

definition iter_measure :: "('k, 'v) dict \<Rightarrow> ('k, 'v) dictIterator \<Rightarrow> nat" where
  "iter_measure d it =
     2 * (nat (int (ht_size (ht_of d (it_table it))) - it_index it)
          + (if it_table it = 0 then ht_size (ht1 d) + 2 else 0))
     + (if it_entry it = [] then 0 else 1)"

function dictNext :: "('k, 'v) dict \<Rightarrow> ('k, 'v) dictIterator \<Rightarrow>
    ('k, 'v) dict \<times> ('k, 'v) dictIterator \<times> ('k \<times> 'v) option" where
  "dictNext d it =
     (case dictNext_advance d it of
        (d1, it1, False) \<Rightarrow> (d1, it1, None)
      | (d1, it1, True) \<Rightarrow>
          (case it_entry it1 of
             [] \<Rightarrow> dictNext d1 it1
           | e # es \<Rightarrow> (d1, it1\<lparr>it_nextEntry := es\<rparr>, Some e)))"
  by pat_completeness auto
termination
  by (relation "measure (\<lambda>(d, it). iter_measure d it)")
    (auto simp: dictNext_advance_def iter_measure_def ht_of_def Let_def split: if_splits)

declare dictNext.simps [simp del]

definition dictReleaseIterator :: "('k, 'v) dict \<Rightarrow> ('k, 'v) dictIterator \<Rightarrow> ('k, 'v) dict" where
  "dictReleaseIterator d it =
     (if \<not> (it_index it = -1 \<and> it_table it = 0) \<and> it_safe it
      then d\<lparr>iterators := iterators d - 1\<rparr> else d)"

text \<open>
  The loop \<open>while ((de = dictNext(it)) != NULL)\<close> of the clients, with the entries it meets;
  \<open>dictSize(d)+1\<close> rounds are enough.
\<close>

fun dict_iterate :: "nat \<Rightarrow> ('k, 'v) dict \<Rightarrow> ('k, 'v) dictIterator \<Rightarrow> ('k \<times> 'v) list" where
  "dict_iterate 0 d it = []"
| "dict_iterate (Suc n) d it =
     (case dictNext d it of
        (d', it', None) \<Rightarrow> []
      | (d', it', Some e) \<Rightarrow> e # dict_iterate n d' it')"

subsection \<open>Abstraction and invariant\<close>

text \<open>The entries of a dictionary, in the order an iterator meets them, and the map they are.\<close>

definition dict_entries :: "('k, 'v) dict \<Rightarrow> ('k \<times> 'v) list" where
  "dict_entries d = concat (table (ht0 d)) @ concat (table (ht1 d))"

definition dict_map :: "('k, 'v) dict \<Rightarrow> 'k \<rightharpoonup> 'v" where
  "dict_map d = map_of (dict_entries d)"

text \<open>
  One table: the size is 0 or a power of two that fits the mask arithmetic, the counters
  agree with the buckets, and every entry is in the bucket its key hashes to.
\<close>

definition ht_ok :: "('k \<Rightarrow> u64) \<Rightarrow> ('k, 'v) dictht \<Rightarrow> bool" where
  "ht_ok hf ht \<longleftrightarrow>
     length (table ht) = ht_size ht \<and>
     sizemask ht = ht_size ht - 1 \<and>
     used ht = length (concat (table ht)) \<and>
     (ht_size ht = 0 \<or> (\<exists>n \<le> 63. ht_size ht = 2 ^ n)) \<and>
     (\<forall>i < length (table ht). \<forall>e \<in> set (table ht ! i). bucket_index hf ht (fst e) = i)"

text \<open>
  The dictionary: no key occurs twice, and the second table is in use exactly during
  rehashing, when the buckets below \<open>rehashidx\<close> of the first table are already empty.
\<close>

definition dict_inv :: "('k, 'v) dict \<Rightarrow> bool" where
  "dict_inv d \<longleftrightarrow>
     ht_ok (hashFunction d) (ht0 d) \<and> ht_ok (hashFunction d) (ht1 d) \<and>
     distinct (map fst (dict_entries d)) \<and>
     (if rehashidx d = -1 then ht1 d = dictReset
      else 0 \<le> rehashidx d \<and> 0 < ht_size (ht0 d) \<and> 0 < ht_size (ht1 d) \<and>
           (\<forall>i < nat (rehashidx d). i < length (table (ht0 d)) \<longrightarrow> table (ht0 d) ! i = []))"

subsection \<open>One table\<close>

lemma ht_ok_size_le: "ht_ok hf ht \<Longrightarrow> ht_size ht \<le> 2 ^ 63"
  using power_increasing [of _ 63 "2 :: nat"] by (auto simp: ht_ok_def)

lemma ht_ok_bucket:
  "ht_ok hf ht \<Longrightarrow> i < length (table ht) \<Longrightarrow> e \<in> set (table ht ! i) \<Longrightarrow> bucket_index hf ht (fst e) = i"
  by (simp add: ht_ok_def)

lemma ht_ok_dictReset [simp]: "ht_ok hf dictReset"
  by (simp add: ht_ok_def dictReset_def)

lemma dictReset_simps [simp]:
  "table dictReset = []" "ht_size dictReset = 0" "used dictReset = 0" "sizemask dictReset = 0"
  by (simp_all add: dictReset_def)

lemma bucket_index_less:
  assumes "ht_ok hf ht" and "0 < ht_size ht"
  shows "bucket_index hf ht k < length (table ht)"
proof -
  have "sizemask ht < 2 ^ 64"
    using ht_ok_size_le [OF assms(1)] assms by (auto simp: ht_ok_def)
  then have "bucket_index hf ht k \<le> sizemask ht"
    unfolding bucket_index_def by (rule unat_and_of_nat_le)
  then show ?thesis
    using assms by (auto simp: ht_ok_def)
qed

lemma bucket_index_table [simp]:
  "bucket_index hf (ht\<lparr>table := t\<rparr>) k = bucket_index hf ht k"
  "bucket_index hf (ht\<lparr>used := u\<rparr>) k = bucket_index hf ht k"
  by (simp_all add: bucket_index_def)

text \<open>A search of the chain of a key is a search of the whole table.\<close>

lemma ht_chain_lookup:
  assumes ok: "ht_ok hf ht" and pos: "0 < ht_size ht" and dist: "distinct (map fst (concat (table ht)))"
  shows "map_of (table ht ! bucket_index hf ht k) k = map_of (concat (table ht)) k"
proof -
  let ?i = "bucket_index hf ht k"
  have i: "?i < length (table ht)"
    using ok pos by (rule bucket_index_less)
  have mem: "(k, v) \<in> set (concat (table ht)) \<longleftrightarrow> (k, v) \<in> set (table ht ! ?i)" for v
    using i ht_ok_bucket [OF ok] unfolding in_concat_nth by fastforce
  have "mset (concat (table ht)) = mset (table ht ! ?i @ concat ((table ht)[?i := []]))"
    using mset_concat_clear [OF i] by simp
  then have "distinct (map fst (table ht ! ?i @ concat ((table ht)[?i := []])))"
    using dist distinct_map_mset_eq by blast
  then have "distinct (map fst (table ht ! ?i))"
    by simp
  with dist mem have "map_of (table ht ! ?i) k = Some v \<longleftrightarrow> map_of (concat (table ht)) k = Some v" for v
    by simp
  then show ?thesis
    by (metis not_Some_eq)
qed

lemma ht_ok_push:
  assumes "ht_ok hf ht" and "0 < ht_size ht"
  shows "ht_ok hf (ht_push hf e ht)"
    and "mset (concat (table (ht_push hf e ht))) = add_mset e (mset (concat (table ht)))"
    and "ht_size (ht_push hf e ht) = ht_size ht"
proof -
  let ?i = "bucket_index hf ht (fst e)"
  have i: "?i < length (table ht)"
    using assms by (rule bucket_index_less)
  show m: "mset (concat (table (ht_push hf e ht))) = add_mset e (mset (concat (table ht)))"
    using mset_concat_cons [OF i] by (simp add: ht_push_def Let_def)
  have "length (concat (table (ht_push hf e ht))) = Suc (length (concat (table ht)))"
    using arg_cong [OF m, of size] by simp
  then show "ht_ok hf (ht_push hf e ht)"
    using assms i by (auto simp: ht_ok_def ht_push_def Let_def nth_list_update)
  show "ht_size (ht_push hf e ht) = ht_size ht"
    by (simp add: ht_push_def Let_def)
qed

lemma ht_ok_fold_push:
  assumes "ht_ok hf ht" and "0 < ht_size ht"
  shows "ht_ok hf (fold (ht_push hf) b ht)
    \<and> mset (concat (table (fold (ht_push hf) b ht))) = mset b + mset (concat (table ht))
    \<and> ht_size (fold (ht_push hf) b ht) = ht_size ht"
  using assms
  by (induction b arbitrary: ht) (auto simp: ht_ok_push)

lemma ht_ok_clear:
  assumes "ht_ok hf ht" and "i < length (table ht)"
  shows "ht_ok hf (ht\<lparr>table := (table ht)[i := []], used := used ht - length (table ht ! i)\<rparr>)"
  using assms length_concat_clear [OF assms(2)]
  by (auto simp: ht_ok_def nth_list_update)

lemma chain_unlink_absent: "map_of c k = None \<Longrightarrow> chain_unlink k c = c"
  by (induction c) (auto split: if_splits)

lemma chain_unlink_mset: "map_of c k = Some v \<Longrightarrow> mset c = add_mset (k, v) (mset (chain_unlink k c))"
  by (induction c) (auto split: if_splits)

lemma set_chain_unlink: "set (chain_unlink k c) \<subseteq> set c"
  by (induction c) auto

lemma ht_ok_unlink:
  assumes ok: "ht_ok hf ht" and pos: "0 < ht_size ht"
    and found: "map_of (table ht ! bucket_index hf ht k) k = Some v"
  shows "ht_ok hf (ht_unlink hf k ht)"
    and "mset (concat (table ht)) = add_mset (k, v) (mset (concat (table (ht_unlink hf k ht))))"
    and "ht_size (ht_unlink hf k ht) = ht_size ht"
proof -
  let ?i = "bucket_index hf ht k"
  have i: "?i < length (table ht)"
    using ok pos by (rule bucket_index_less)
  show m: "mset (concat (table ht)) = add_mset (k, v) (mset (concat (table (ht_unlink hf k ht))))"
    using mset_concat_update [OF i, of "chain_unlink k (table ht ! ?i)"] chain_unlink_mset [OF found]
    by (simp add: ht_unlink_def Let_def)
  have "length (concat (table ht)) = Suc (length (concat (table (ht_unlink hf k ht))))"
    using arg_cong [OF m, of size] by simp
  moreover have "bucket_index hf ht (fst e) = ?i" if "e \<in> set (chain_unlink k (table ht ! ?i))" for e
    using that ht_ok_bucket [OF ok i] set_chain_unlink [of k "table ht ! ?i"] by blast
  ultimately show "ht_ok hf (ht_unlink hf k ht)"
    using ok i by (auto simp: ht_ok_def ht_unlink_def Let_def nth_list_update)
  show "ht_size (ht_unlink hf k ht) = ht_size ht"
    by (simp add: ht_unlink_def Let_def)
qed


subsection \<open>Growing and rehashing keep the invariant and the map\<close>

lemma next_power_loop_pow2:
  assumes "m \<le> 63" and "sz \<le> 2 ^ 63"
  shows "\<exists>n \<le> 63. next_power_loop sz (2 ^ m) = 2 ^ n \<and> sz \<le> 2 ^ n"
  using assms
proof (induction "63 - m" arbitrary: m)
  case 0
  then show ?case by (subst next_power_loop.simps) auto
next
  case (Suc x)
  show ?case
  proof (cases "sz \<le> 2 ^ m")
    case True
    with Suc.prems show ?thesis by (subst next_power_loop.simps) auto
  next
    case False
    have "x = 63 - Suc m" and "Suc m \<le> 63"
      using Suc.hyps(2) by auto
    then have "\<exists>n \<le> 63. next_power_loop sz (2 ^ Suc m) = 2 ^ n \<and> sz \<le> 2 ^ n"
      using Suc.hyps(1) Suc.prems(2) by blast
    with False show ?thesis
      by (subst next_power_loop.simps) (simp add: mult.commute)
  qed
qed

lemma dictNextPower_pow2:
  "\<exists>n \<le> 63. dictNextPower sz = 2 ^ n \<and> (sz \<le> 2 ^ 63 \<longrightarrow> sz \<le> 2 ^ n)"
proof (cases "LONG_MAX \<le> sz")
  case True
  then show ?thesis
    by (intro exI [of _ 63]) (simp add: dictNextPower_def LONG_MAX_def)
next
  case False
  then have "sz \<le> 2 ^ 63" by (simp add: LONG_MAX_def)
  with False show ?thesis
    using next_power_loop_pow2 [of 2 sz] by (auto simp: dictNextPower_def DICT_HT_INITIAL_SIZE_def)
qed

lemma dictExpand_frame [frame]:
  "hashFunction (fst (dictExpand d n)) = hashFunction d"
  "iterators (fst (dictExpand d n)) = iterators d"
  "dict_inv d \<Longrightarrow> dict_entries (fst (dictExpand d n)) = dict_entries d"
  by (auto simp: dictExpand_def Let_def dict_entries_def dict_inv_def ht_ok_def dictIsRehashing_def)

lemma dictExpand_inv [inv_intros]:
  assumes "dict_inv d"
  shows "dict_inv (fst (dictExpand d sz))"
proof -
  obtain n where n: "n \<le> 63" "dictNextPower sz = 2 ^ n"
    using dictNextPower_pow2 by blast
  let ?t = "\<lparr>table = replicate (2 ^ n) [], ht_size = 2 ^ n, sizemask = 2 ^ n - 1, used = 0\<rparr>"
  have ok: "ht_ok (hashFunction d) ?t"
    using n(1) by (auto simp: ht_ok_def)
  have pos: "0 < ht_size (ht0 d)" if "table (ht0 d) \<noteq> []"
    using that assms by (auto simp: dict_inv_def ht_ok_def)
  have dist: "distinct (map fst (concat (table (ht0 d))))"
    using assms by (simp add: dict_inv_def dict_entries_def)
  have new: "hashFunction (fst (dictExpand d sz)) = hashFunction d" by (rule dictExpand_frame)
  show ?thesis
  proof (cases "dictIsRehashing d \<or> sz < used (ht0 d) \<or> 2 ^ n = ht_size (ht0 d)")
    case True
    with assms n show ?thesis by (auto simp: dictExpand_def Let_def)
  next
    case False
    then have "dictExpand d sz = (if table (ht0 d) = [] then (d\<lparr>ht0 := ?t\<rparr>, True) else (d\<lparr>ht1 := ?t, rehashidx := 0\<rparr>, True))"
      using n by (auto simp: dictExpand_def Let_def)
    with False assms ok pos dist show ?thesis
      by (auto simp: dict_inv_def dictIsRehashing_def dict_entries_def)
  qed
qed

lemma dictExpandIfNeeded_cases:
  "\<exists>n. fst (dictExpandIfNeeded cr d) = d \<or> fst (dictExpandIfNeeded cr d) = fst (dictExpand d n)"
  by (auto simp: dictExpandIfNeeded_def)

lemma dictExpandIfNeeded_inv [inv_intros]:
  "dict_inv d \<Longrightarrow> dict_inv (fst (dictExpandIfNeeded cr d))"
  by (metis dictExpandIfNeeded_cases dictExpand_inv)

lemma dictExpandIfNeeded_frame [frame]:
  "hashFunction (fst (dictExpandIfNeeded cr d)) = hashFunction d"
  "iterators (fst (dictExpandIfNeeded cr d)) = iterators d"
  "dict_inv d \<Longrightarrow> dict_entries (fst (dictExpandIfNeeded cr d)) = dict_entries d"
  by (metis dictExpandIfNeeded_cases dictExpand_frame)+

text \<open>
  Expansion never fails where \<open>_dictKeyIndex\<close> asks for it as long as the table is below
  its maximal size: the new size differs from the old one and covers the entries.
\<close>

lemma dictExpandIfNeeded_ok:
  assumes "dict_inv d" and "used (ht0 d) < 2 ^ 62"
  shows "snd (dictExpandIfNeeded cr d)"
    and "dictIsRehashing (fst (dictExpandIfNeeded cr d)) \<or> 0 < ht_size (ht0 (fst (dictExpandIfNeeded cr d)))"
proof -
  let ?u = "used (ht0 d)"
  have big: "ht_size (ht0 d) < dictNextPower (?u * 2)" if "ht_size (ht0 d) \<le> ?u" "0 < ht_size (ht0 d)"
  proof -
    have "?u * 2 \<le> 2 ^ 63" using assms(2) by simp
    then have "?u * 2 \<le> dictNextPower (?u * 2)"
      using dictNextPower_pow2 [of "?u * 2"] by auto
    with that show ?thesis by linarith
  qed
  have four: "dictNextPower DICT_HT_INITIAL_SIZE = 4"
    by (simp add: dictNextPower_def DICT_HT_INITIAL_SIZE_def LONG_MAX_def next_power_loop.simps)
  have zero: "?u = 0 \<and> table (ht0 d) = []" if "ht_size (ht0 d) = 0"
    using that assms(1) by (simp add: dict_inv_def ht_ok_def)
  show "snd (dictExpandIfNeeded cr d)"
    using big four zero
    by (auto simp: dictExpandIfNeeded_def dictExpand_def Let_def DICT_HT_INITIAL_SIZE_def)
  show "dictIsRehashing (fst (dictExpandIfNeeded cr d)) \<or> 0 < ht_size (ht0 (fst (dictExpandIfNeeded cr d)))"
    using big four zero
    by (auto simp: dictExpandIfNeeded_def dictExpand_def Let_def DICT_HT_INITIAL_SIZE_def dictIsRehashing_def)
qed


lemma rehash_skip_spec:
  "case rehash_skip_empty bs idx ev of
     SkipStop i \<Rightarrow> idx < i \<and> i \<le> idx + length bs \<and> (\<forall>j < i - idx. bs ! j = [])
   | SkipAt i ev' \<Rightarrow> idx \<le> i \<and> i < idx + length bs \<and> bs ! (i - idx) \<noteq> [] \<and> (\<forall>j < i - idx. bs ! j = [])
   | SkipEnd \<Rightarrow> concat bs = []"
proof (induction bs idx ev rule: rehash_skip_empty.induct)
  case (1 idx ev)
  then show ?case by simp
next
  case (2 b bs idx ev)
  show ?case
  proof (cases "b = [] \<and> ev - 1 \<noteq> 0")
    case True
    have step: "\<forall>j < i - idx. ([] # bs) ! j = []"
      if "idx + 1 \<le> i" "\<forall>j < i - (idx + 1). bs ! j = []" for i
    proof -
      have "i - idx = Suc (i - (idx + 1))" using that by simp
      with that show ?thesis by (auto simp: less_Suc_eq_0_disj)
    qed
    from 2 True show ?thesis
      by (cases "rehash_skip_empty bs (idx + 1) (ev - 1)") (simp_all add: step nth_Cons')
  next
    case False
    then show ?thesis by auto
  qed
qed

text \<open>
  The move of one bucket: the buckets before it are empty already, so afterwards all up
  to and including it are.
\<close>

lemma rehash_bucket_inv:
  assumes inv: "dict_inv d" and re: "dictIsRehashing d"
    and i: "i < length (table (ht0 d))" and before: "\<forall>j < i. table (ht0 d) ! j = []"
  shows "dict_inv (rehash_bucket d i)"
    and "dictIsRehashing (rehash_bucket d i)"
    and "mset (dict_entries (rehash_bucket d i)) = mset (dict_entries d)"
    and "hashFunction (rehash_bucket d i) = hashFunction d"
    and "iterators (rehash_bucket d i) = iterators d"
proof -
  let ?b = "table (ht0 d) ! i" and ?hf = "hashFunction d"
  have ok: "ht_ok ?hf (ht0 d)" "ht_ok ?hf (ht1 d)" and pos: "0 < ht_size (ht1 d)" "0 < ht_size (ht0 d)"
    using inv re by (auto simp: dict_inv_def dictIsRehashing_def)
  note push = ht_ok_fold_push [OF ok(2) pos(1), of ?b]
  show m: "mset (dict_entries (rehash_bucket d i)) = mset (dict_entries d)"
    using push mset_concat_clear [OF i] by (simp add: rehash_bucket_def Let_def dict_entries_def)
  have "distinct (map fst (dict_entries (rehash_bucket d i)))"
    using inv distinct_map_mset_eq [OF m, of fst] by (simp add: dict_inv_def)
  moreover have "ht_ok ?hf ((ht0 d)\<lparr>table := (table (ht0 d))[i := []], used := used (ht0 d) - length ?b\<rparr>)"
    using ok(1) i by (rule ht_ok_clear)
  ultimately show "dict_inv (rehash_bucket d i)"
    using push pos before i
    by (auto simp: dict_inv_def rehash_bucket_def Let_def nth_list_update)
  show "dictIsRehashing (rehash_bucket d i)"
    by (simp add: rehash_bucket_def dictIsRehashing_def Let_def)
  show "hashFunction (rehash_bucket d i) = ?hf" "iterators (rehash_bucket d i) = iterators d"
    by (simp_all add: rehash_bucket_def Let_def)
qed

lemma rehash_skip_in_dict:
  assumes inv: "dict_inv d" and re: "dictIsRehashing d"
  shows "case rehash_skip_empty (drop (nat (rehashidx d)) (table (ht0 d))) (nat (rehashidx d)) ev of
           SkipStop i \<Rightarrow> nat (rehashidx d) < i \<and> (\<forall>j < i. j < length (table (ht0 d)) \<longrightarrow> table (ht0 d) ! j = [])
         | SkipAt i ev' \<Rightarrow> nat (rehashidx d) \<le> i \<and> i < length (table (ht0 d)) \<and> table (ht0 d) ! i \<noteq> [] \<and> (\<forall>j < i. table (ht0 d) ! j = [])
         | SkipEnd \<Rightarrow> used (ht0 d) = 0"
proof -
  let ?r = "nat (rehashidx d)" and ?t = "table (ht0 d)"
  have low: "?t ! j = []" if "j < ?r" "j < length ?t" for j
    using inv re that by (simp add: dict_inv_def dictIsRehashing_def)
  have high: "?t ! j = drop ?r ?t ! (j - ?r)" if "?r \<le> j" "j < length ?t" for j
    using that by simp
  have all: "?t ! j = []" if "\<forall>x < m - ?r. drop ?r ?t ! x = []" "j < m" "j < length ?t" for m j
  proof (cases "j < ?r")
    case True
    then show ?thesis using low that(3) by blast
  next
    case False
    then have "?r \<le> j" and "j - ?r < m - ?r" using that(2) by auto
    then have "drop ?r ?t ! (j - ?r) = []" using that(1) by blast
    then show ?thesis using high [OF \<open>?r \<le> j\<close> that(3)] by (rule trans [rotated])
  qed
  have unused: "used (ht0 d) = 0" if none: "concat (drop ?r ?t) = []"
  proof -
    have "\<forall>x < length ?t - ?r. drop ?r ?t ! x = []"
    proof (intro allI impI)
      fix x assume "x < length ?t - ?r"
      then have "drop ?r ?t ! x \<in> set (drop ?r ?t)" by (intro nth_mem) simp
      then show "drop ?r ?t ! x = []" using none by simp
    qed
    then have "?t ! j = []" if "j < length ?t" for j
      using all that by blast
    then have "concat ?t = []"
      by (simp add: all_set_conv_all_nth)
    with inv show ?thesis by (simp add: dict_inv_def ht_ok_def)
  qed
  note spec = rehash_skip_spec [where bs = "drop ?r ?t" and idx = ?r and ev = ev]
  show ?thesis
  proof (cases "rehash_skip_empty (drop ?r ?t) ?r ev")
    case (SkipStop i)
    from spec show ?thesis
      unfolding SkipStop rehash_skip.case using all by blast
  next
    case (SkipAt i ev')
    from spec have "?r \<le> i" "i < ?r + length (drop ?r ?t)"
      "drop ?r ?t ! (i - ?r) \<noteq> []" and e: "\<forall>j < i - ?r. drop ?r ?t ! j = []"
      unfolding SkipAt rehash_skip.case by blast+
    moreover from this have "i < length ?t" by simp
    ultimately show ?thesis
      unfolding SkipAt rehash_skip.case using high [of i] all [OF e]
      by (metis order_less_trans)
  next
    case SkipEnd
    from spec show ?thesis
      unfolding SkipEnd rehash_skip.case by (rule unused)
  qed
qed

text \<open>The loop of \<open>dictRehash\<close> never reads past the first table.\<close>

lemma rehash_skip_found:
  assumes "dict_inv d" and "dictIsRehashing d" and "used (ht0 d) \<noteq> 0"
  shows "rehash_skip_empty (drop (nat (rehashidx d)) (table (ht0 d))) (nat (rehashidx d)) ev \<noteq> SkipEnd"
  using rehash_skip_in_dict [OF assms(1,2), of ev] assms(3) by auto

lemma rehash_loop_inv:
  assumes "dict_inv d" and "dictIsRehashing d"
  shows "dict_inv (fst (rehash_loop n ev d)) \<and> dictIsRehashing (fst (rehash_loop n ev d))
    \<and> mset (dict_entries (fst (rehash_loop n ev d))) = mset (dict_entries d)
    \<and> hashFunction (fst (rehash_loop n ev d)) = hashFunction d
    \<and> iterators (fst (rehash_loop n ev d)) = iterators d"
  using assms
proof (induction n ev d rule: rehash_loop.induct)
  case (1 ev d)
  then show ?case by simp
next
  case (2 n ev d)
  note skip = rehash_skip_in_dict [OF "2.prems", of ev]
  show ?case
  proof (cases "used (ht0 d) = 0")
    case True
    with "2.prems" show ?thesis by simp
  next
    case used: False
    show ?thesis
    proof (cases "rehash_skip_empty (drop (nat (rehashidx d)) (table (ht0 d))) (nat (rehashidx d)) ev")
      case (SkipStop i)
      with used skip "2.prems" show ?thesis
        by (auto simp: dict_inv_def dictIsRehashing_def dict_entries_def)
    next
      case (SkipAt i ev')
      with skip have "i < length (table (ht0 d))" "\<forall>j < i. table (ht0 d) ! j = []"
        by auto
      note b = rehash_bucket_inv [OF "2.prems" this]
      show ?thesis
        using "2.IH" [OF used SkipAt b(1,2)] used SkipAt b by simp
    next
      case SkipEnd
      with used "2.prems" show ?thesis by simp
    qed
  qed
qed

lemma dictRehash_props:
  assumes "dict_inv d"
  shows "dict_inv (fst (dictRehash d n))"
    and "mset (dict_entries (fst (dictRehash d n))) = mset (dict_entries d)"
    and "hashFunction (fst (dictRehash d n)) = hashFunction d"
    and "iterators (fst (dictRehash d n)) = iterators d"
proof -
  have *: "dict_inv (fst (dictRehash d n)) \<and> mset (dict_entries (fst (dictRehash d n))) = mset (dict_entries d)
    \<and> hashFunction (fst (dictRehash d n)) = hashFunction d \<and> iterators (fst (dictRehash d n)) = iterators d"
  proof (cases "dictIsRehashing d")
    case True
    obtain d' b where l: "rehash_loop n (n * 10) d = (d', b)" by fastforce
    with rehash_loop_inv [OF assms True, of n "n * 10"]
    have "dict_inv d'" "mset (dict_entries d') = mset (dict_entries d)" "hashFunction d' = hashFunction d"
      "iterators d' = iterators d" by auto
    moreover have "dict_inv (d'\<lparr>ht0 := ht1 d', ht1 := dictReset, rehashidx := -1\<rparr>)
        \<and> dict_entries (d'\<lparr>ht0 := ht1 d', ht1 := dictReset, rehashidx := -1\<rparr>) = dict_entries d'"
      if "used (ht0 d') = 0"
      using that calculation
      by (simp add: dict_inv_def ht_ok_def dict_entries_def split: if_splits del: concat_eq_Nil_conv)
    ultimately show ?thesis
      using True l by (cases b) (simp_all add: dictRehash_def)
  qed (use assms in \<open>simp add: dictRehash_def\<close>)
  then show "dict_inv (fst (dictRehash d n))"
    and "mset (dict_entries (fst (dictRehash d n))) = mset (dict_entries d)"
    and "hashFunction (fst (dictRehash d n)) = hashFunction d"
    and "iterators (fst (dictRehash d n)) = iterators d"
    by blast+
qed

lemma dict_inv_distinct: "dict_inv d \<Longrightarrow> distinct (map fst (dict_entries d))"
  by (simp add: dict_inv_def)

lemma dict_map_mset_eq:
  assumes "dict_inv d" and "mset (dict_entries d') = mset (dict_entries d)"
  shows "dict_map d' = dict_map d"
  using map_of_mset_eq [OF assms(2) [symmetric] dict_inv_distinct [OF assms(1)]]
  by (simp add: dict_map_def)

lemma dictRehash_map [refines]: "dict_inv d \<Longrightarrow> dict_map (fst (dictRehash d n)) = dict_map d"
  by (rule dict_map_mset_eq) (auto simp: dictRehash_props)

lemma dictRehashStep_props:
  assumes "dict_inv d"
  shows "dict_inv (dictRehashStep d)" and "dict_map (dictRehashStep d) = dict_map d"
    and "hashFunction (dictRehashStep d) = hashFunction d"
    and "mset (dict_entries (dictRehashStep d)) = mset (dict_entries d)"
  using assms by (auto simp: dictRehashStep_def dictRehash_props dictRehash_map)


subsection \<open>The operations refine the operations of a map\<close>

text \<open>
  A dictionary is searchable when the table the search starts in has buckets; every
  dictionary with an entry is.
\<close>

lemma dict_inv_tables:
  assumes "dict_inv d"
  shows "ht_ok (hashFunction d) (ht0 d)" "ht_ok (hashFunction d) (ht1 d)"
    and "distinct (map fst (concat (table (ht0 d))))" "distinct (map fst (concat (table (ht1 d))))"
    and "dictIsRehashing d \<Longrightarrow> 0 < ht_size (ht0 d) \<and> 0 < ht_size (ht1 d)"
    and "\<not> dictIsRehashing d \<Longrightarrow> ht1 d = dictReset"
  using assms by (auto simp: dict_inv_def dict_entries_def dictIsRehashing_def split: if_splits)

lemma search_tables_map [refines]:
  assumes inv: "dict_inv d" and srch: "dictIsRehashing d \<or> 0 < ht_size (ht0 d)"
  shows "search_tables d k = dict_map d k"
proof -
  note t = dict_inv_tables [OF inv]
  have p0: "0 < ht_size (ht0 d)" using srch t(5) by blast
  have c0: "map_of (chain d (ht0 d) k) k = map_of (concat (table (ht0 d))) k"
    unfolding chain_def using t(1) p0 t(3) by (rule ht_chain_lookup)
  have c1: "map_of (chain d (ht1 d) k) k = map_of (concat (table (ht1 d))) k" if "dictIsRehashing d"
    unfolding chain_def using t(2) t(5) [OF that] t(4) by (intro ht_chain_lookup) auto
  show ?thesis
    using c0 c1 t(6)
    by (auto simp: search_tables_def dict_map_def dict_entries_def map_add_def split: option.splits)
qed

lemma dictSize_entries: "dict_inv d \<Longrightarrow> dictSize d = length (dict_entries d)"
  using dict_inv_tables(1,2) [of d] by (simp add: dictSize_def dict_entries_def ht_ok_def)

lemma dictSize_zero: "dict_inv d \<Longrightarrow> dictSize d = 0 \<longleftrightarrow> dict_map d = Map.empty"
  by (auto simp: dictSize_entries dict_map_def)

lemma dictSize_card:
  assumes "dict_inv d"
  shows "dictSize d = card (dom (dict_map d))"
proof -
  have "card (set (map fst (dict_entries d))) = length (dict_entries d)"
    using distinct_card [OF dict_inv_distinct [OF assms]] by simp
  then show ?thesis
    using assms by (simp add: dictSize_entries dict_map_def dom_map_of_conv_image_fst)
qed

lemma dict_inv_searchable:
  assumes "dict_inv d" and "dictSize d \<noteq> 0"
  shows "dictIsRehashing d \<or> 0 < ht_size (ht0 d)"
proof (rule ccontr)
  assume "\<not> (dictIsRehashing d \<or> 0 < ht_size (ht0 d))"
  then have "table (ht0 d) = []" "table (ht1 d) = []"
    using dict_inv_tables [OF assms(1)] by (auto simp: ht_ok_def)
  then have "dict_entries d = []" by (simp add: dict_entries_def)
  with assms show False by (simp add: dictSize_entries)
qed

lemma dictFind_refines [refines]:
  assumes inv: "dict_inv d"
  shows "snd (dictFind d k) = dict_map d k"
    and "dict_map (fst (dictFind d k)) = dict_map d"
    and "dict_inv (fst (dictFind d k))"
    and "hashFunction (fst (dictFind d k)) = hashFunction d"
proof -
  let ?d1 = "if dictIsRehashing d then dictRehashStep d else d"
  have d1: "dict_inv ?d1" "dict_map ?d1 = dict_map d" "hashFunction ?d1 = hashFunction d"
    using dictRehashStep_props [OF inv] inv by simp_all
  have "search_tables ?d1 k = dict_map d k" if "dictSize d \<noteq> 0"
  proof -
    have "dict_map ?d1 \<noteq> Map.empty"
      using that inv d1(2) dictSize_zero by metis
    then have "dictSize ?d1 \<noteq> 0"
      using d1(1) dictSize_zero by blast
    then show ?thesis
      using search_tables_map [OF d1(1) dict_inv_searchable [OF d1(1)]] d1(2) by simp
  qed
  then show "snd (dictFind d k) = dict_map d k" "dict_map (fst (dictFind d k)) = dict_map d"
    "dict_inv (fst (dictFind d k))" "hashFunction (fst (dictFind d k)) = hashFunction d"
    using inv d1 dictSize_zero [OF inv] by (simp_all add: dictFind_def Let_def)
qed

text \<open>The entries that two tables with permuted buckets hold.\<close>

lemma dict_map_add_entry:
  assumes "mset (dict_entries d') = add_mset (k, v) (mset (dict_entries d))"
    and "distinct (map fst (dict_entries d))" and "dict_map d k = None"
  shows "dict_map d' = (dict_map d)(k \<mapsto> v)" and "distinct (map fst (dict_entries d'))"
proof -
  have m: "mset (dict_entries d') = mset ((k, v) # dict_entries d)"
    using assms(1) by simp
  have k: "distinct (map fst ((k, v) # dict_entries d))"
    using assms(2,3) by (auto simp: dict_map_def map_of_eq_None_iff)
  then show "distinct (map fst (dict_entries d'))"
    using distinct_map_mset_eq [OF m] by blast
  show "dict_map d' = (dict_map d)(k \<mapsto> v)"
    using map_of_mset_eq [OF m [symmetric] k] by (simp add: dict_map_def)
qed

definition dict_room :: "('k, 'v) dict \<Rightarrow> bool" where
  "dict_room d \<longleftrightarrow> dictSize d < 2 ^ 62"

lemma dict_push_entry:
  assumes inv: "dict_inv d" and new: "dict_map d k = None"
    and srch: "dictIsRehashing d \<or> 0 < ht_size (ht0 d)"
    and d': "d' = (if dictIsRehashing d then d\<lparr>ht1 := ht_push (hashFunction d) (k, v) (ht1 d)\<rparr>
                   else d\<lparr>ht0 := ht_push (hashFunction d) (k, v) (ht0 d)\<rparr>)"
  shows "dict_inv d'" and "dict_map d' = (dict_map d)(k \<mapsto> v)"
proof -
  note t = dict_inv_tables [OF inv]
  have p: "0 < ht_size (ht0 d)" "dictIsRehashing d \<Longrightarrow> 0 < ht_size (ht1 d)"
    using srch t(5) by auto
  note push0 = ht_ok_push [OF t(1) p(1), of "(k, v)"] and push1 = ht_ok_push [OF t(2) p(2), of "(k, v)"]
  have m: "mset (dict_entries d') = add_mset (k, v) (mset (dict_entries d))"
    using push0 push1 by (simp add: d' dict_entries_def)
  show "dict_map d' = (dict_map d)(k \<mapsto> v)"
    using m dict_inv_distinct [OF inv] new by (rule dict_map_add_entry)
  have dist: "distinct (map fst (dict_entries d'))"
    using m dict_inv_distinct [OF inv] new by (rule dict_map_add_entry)
  then show "dict_inv d'"
    using inv push0 push1 by (auto simp: d' dict_inv_def dictIsRehashing_def)
qed

lemma dictAddRaw_refines:
  assumes inv: "dict_inv d" and room: "dict_room d"
  shows "dictAddRaw cr d k v = (d', added, ex) \<Longrightarrow>
     dict_inv d' \<and> hashFunction d' = hashFunction d \<and>
     added = (dict_map d k = None) \<and> ex = dict_map d k \<and>
     dict_map d' = (if dict_map d k = None then (dict_map d)(k \<mapsto> v) else dict_map d)"
proof -
  define d1 where "d1 = (if dictIsRehashing d then dictRehashStep d else d)"
  define d2 where "d2 = fst (dictExpandIfNeeded cr d1)"
  have d1: "dict_inv d1" "dict_map d1 = dict_map d" "hashFunction d1 = hashFunction d"
    "mset (dict_entries d1) = mset (dict_entries d)"
    using dictRehashStep_props [OF inv] inv by (simp_all add: d1_def)
  have "dictSize d1 = dictSize d"
    using arg_cong [OF d1(4), of size] inv d1(1) by (simp add: dictSize_entries)
  then have "used (ht0 d1) < 2 ^ 62"
    using room by (simp add: dict_room_def dictSize_def)
  note e = dictExpandIfNeeded_ok [OF d1(1) this, of cr]
  have d2: "dict_inv d2" "hashFunction d2 = hashFunction d" "dict_map d2 = dict_map d"
    using d1 dictExpandIfNeeded_inv dictExpandIfNeeded_frame(1,3) [where cr = cr and d = d1]
    by (simp_all add: d2_def dict_map_def)
  have srch: "dictIsRehashing d2 \<or> 0 < ht_size (ht0 d2)"
    using e(2) by (simp add: d2_def)
  have x: "dictExpandIfNeeded cr d1 = (d2, True)"
    using e(1) by (simp add: d2_def prod_eq_iff)
  have s: "search_tables d2 k = dict_map d k"
    using search_tables_map [OF d2(1) srch] d2(3) by simp
  show ?thesis if a: "dictAddRaw cr d k v = (d', added, ex)"
  proof (cases "dict_map d k")
    case (Some w)
    then have "dictAddRaw cr d k v = (d2, False, Some w)"
      using s x by (simp add: dictAddRaw_def dictKeyIndex_def flip: d1_def)
    with a have "d' = d2" "\<not> added" "ex = Some w" by auto
    with Some d2 show ?thesis by simp
  next
    case None
    have "d' = (if dictIsRehashing d2 then d2\<lparr>ht1 := ht_push (hashFunction d2) (k, v) (ht1 d2)\<rparr>
                else d2\<lparr>ht0 := ht_push (hashFunction d2) (k, v) (ht0 d2)\<rparr>)" and "added" and "ex = None"
      using a x s None
      by (auto simp: dictAddRaw_def Let_def dictKeyIndex_def ht_push_def simp flip: d1_def split: if_splits)
    with dict_push_entry [OF d2(1) _ srch this(1)] None d2 show ?thesis by auto
  qed
qed

lemma dictAdd_refines [refines]:
  assumes "dict_inv d" and "dict_room d"
  shows "dict_inv (fst (dictAdd cr d k v))"
    and "snd (dictAdd cr d k v) = (dict_map d k = None)"
    and "dict_map (fst (dictAdd cr d k v)) = (if dict_map d k = None then (dict_map d)(k \<mapsto> v) else dict_map d)"
    and "hashFunction (fst (dictAdd cr d k v)) = hashFunction d"
proof -
  obtain d' added ex where r: "dictAddRaw cr d k v = (d', added, ex)"
    by (rule prod_cases3)
  with dictAddRaw_refines [OF assms r]
  show "dict_inv (fst (dictAdd cr d k v))" "snd (dictAdd cr d k v) = (dict_map d k = None)"
    "dict_map (fst (dictAdd cr d k v)) = (if dict_map d k = None then (dict_map d)(k \<mapsto> v) else dict_map d)"
    "hashFunction (fst (dictAdd cr d k v)) = hashFunction d"
    by (auto simp: dictAdd_def)
qed


lemma map_of_chain_set:
  "map_of (chain_set k v xs) = (if map_of xs k = None then map_of xs else (map_of xs)(k \<mapsto> v))"
  by (induction xs) (auto simp: chain_set_def fun_eq_iff)

lemma fst_chain_set [simp]: "map fst (chain_set k v xs) = map fst xs"
  by (induction xs) (auto simp: chain_set_def)

lemma concat_chain_set: "concat (map (chain_set k v) t) = chain_set k v (concat t)"
  by (simp add: chain_set_def map_concat)

lemma length_chain_set [simp]: "length (chain_set k v xs) = length xs"
  by (simp add: chain_set_def)

lemma ht_ok_chain_set:
  assumes "ht_ok hf ht"
  shows "ht_ok hf (ht\<lparr>table := map (chain_set k v) (table ht)\<rparr>)"
proof -
  have "bucket_index hf ht (fst e) = i"
    if "i < length (table ht)" "e \<in> set (chain_set k v (table ht ! i))" for i e
  proof -
    have "fst e \<in> fst ` set (chain_set k v (table ht ! i))"
      using that(2) by blast
    then show ?thesis
      using ht_ok_bucket [OF assms that(1)] by (metis fst_chain_set imageE list.set_map)
  qed
  then show ?thesis
    using assms by (auto simp: ht_ok_def concat_chain_set)
qed

lemma dictSetVal_refines [refines]:
  assumes "dict_inv d"
  shows "dict_inv (dictSetVal d k v)"
    and "dict_map (dictSetVal d k v) = (if dict_map d k = None then dict_map d else (dict_map d)(k \<mapsto> v))"
    and "hashFunction (dictSetVal d k v) = hashFunction d"
proof -
  have e: "dict_entries (dictSetVal d k v) = chain_set k v (dict_entries d)"
    by (simp add: dictSetVal_def dict_entries_def concat_chain_set) (simp add: chain_set_def)
  show "dict_map (dictSetVal d k v) = (if dict_map d k = None then dict_map d else (dict_map d)(k \<mapsto> v))"
    by (simp add: dict_map_def e map_of_chain_set)
  have "distinct (map fst (dict_entries (dictSetVal d k v)))"
    using dict_inv_distinct [OF assms] by (simp add: e)
  moreover have "(dictReset :: ('a, 'b) dictht)\<lparr>table := map (chain_set k v) (table (dictReset :: ('a, 'b) dictht))\<rparr> = dictReset"
    by (simp add: dictReset_def)
  moreover have "chain_set k v [] = []"
    by (simp add: chain_set_def)
  ultimately show "dict_inv (dictSetVal d k v)"
    using assms ht_ok_chain_set
    by (auto simp: dict_inv_def dictSetVal_def dictReset_def)
  show "hashFunction (dictSetVal d k v) = hashFunction d"
    by (simp add: dictSetVal_def)
qed

lemma dictReplace_refines [refines]:
  assumes "dict_inv d" and "dict_room d"
  shows "dict_inv (fst (dictReplace cr d k v))"
    and "dict_map (fst (dictReplace cr d k v)) = (dict_map d)(k \<mapsto> v)"
    and "snd (dictReplace cr d k v) = (dict_map d k = None)"
proof -
  obtain d' added ex where r: "dictAddRaw cr d k v = (d', added, ex)"
    by (rule prod_cases3)
  with dictAddRaw_refines [OF assms r] dictSetVal_refines [of d' k v]
  show "dict_inv (fst (dictReplace cr d k v))"
    "dict_map (fst (dictReplace cr d k v)) = (dict_map d)(k \<mapsto> v)"
    "snd (dictReplace cr d k v) = (dict_map d k = None)"
    by (auto simp: dictReplace_def split: bool.splits)
qed

lemma dict_map_remove_entry:
  assumes "mset (dict_entries d) = add_mset (k, v) (mset (dict_entries d'))"
    and "distinct (map fst (dict_entries d))"
  shows "dict_map d' = (dict_map d)(k := None)" and "distinct (map fst (dict_entries d'))"
proof -
  have m: "mset (dict_entries d) = mset ((k, v) # dict_entries d')"
    using assms(1) by simp
  then have k: "distinct (map fst ((k, v) # dict_entries d'))"
    using assms(2) distinct_map_mset_eq by blast
  then show "distinct (map fst (dict_entries d'))" by simp
  have "map_of (dict_entries d') k = None"
    using k by (simp add: map_of_eq_None_iff)
  then show "dict_map d' = (dict_map d)(k := None)"
    using map_of_mset_eq [OF m assms(2)] by (auto simp: dict_map_def fun_eq_iff)
qed

lemma dict_unlink_entry:
  assumes inv: "dict_inv d"
  shows "map_of (chain d (ht0 d) k) k = Some v \<Longrightarrow> 0 < ht_size (ht0 d) \<Longrightarrow>
      d' = d\<lparr>ht0 := ht_unlink (hashFunction d) k (ht0 d)\<rparr> \<Longrightarrow>
      dict_inv d' \<and> dict_map d' = (dict_map d)(k := None)"
    and "map_of (chain d (ht1 d) k) k = Some v \<Longrightarrow> dictIsRehashing d \<Longrightarrow>
      d' = d\<lparr>ht1 := ht_unlink (hashFunction d) k (ht1 d)\<rparr> \<Longrightarrow>
      dict_inv d' \<and> dict_map d' = (dict_map d)(k := None)"
proof -
  note t = dict_inv_tables [OF inv]
  show "dict_inv d' \<and> dict_map d' = (dict_map d)(k := None)"
    if found: "map_of (chain d (ht0 d) k) k = Some v" and pos: "0 < ht_size (ht0 d)"
      and d': "d' = d\<lparr>ht0 := ht_unlink (hashFunction d) k (ht0 d)\<rparr>"
  proof -
    note u = ht_ok_unlink [OF t(1) pos found [unfolded chain_def]]
    have m: "mset (dict_entries d) = add_mset (k, v) (mset (dict_entries d'))"
      using u(2) by (simp add: d' dict_entries_def)
    note r = dict_map_remove_entry [OF m dict_inv_distinct [OF inv]]
    have "table (ht_unlink (hashFunction d) k (ht0 d)) ! i = []"
      if "table (ht0 d) ! i = []" "i < length (table (ht0 d))" for i
      using that by (cases "i = bucket_index (hashFunction d) (ht0 d) k") (auto simp: ht_unlink_def Let_def)
    moreover have "length (table (ht_unlink (hashFunction d) k (ht0 d))) = length (table (ht0 d))"
      by (simp add: ht_unlink_def Let_def)
    ultimately show ?thesis
      using inv u r by (auto simp: d' dict_inv_def)
  qed
  show "dict_inv d' \<and> dict_map d' = (dict_map d)(k := None)"
    if found: "map_of (chain d (ht1 d) k) k = Some v" and re: "dictIsRehashing d"
      and d': "d' = d\<lparr>ht1 := ht_unlink (hashFunction d) k (ht1 d)\<rparr>"
  proof -
    note u = ht_ok_unlink [OF t(2) _ found [unfolded chain_def]]
    have m: "mset (dict_entries d) = add_mset (k, v) (mset (dict_entries d'))"
      using u(2) t(5) [OF re] by (simp add: d' dict_entries_def)
    note r = dict_map_remove_entry [OF m dict_inv_distinct [OF inv]]
    show ?thesis
      using inv u r re t(5) [OF re] by (auto simp: d' dict_inv_def dictIsRehashing_def)
  qed
qed

lemma dictGenericDelete_refines [refines]:
  assumes inv: "dict_inv d"
  shows "dict_inv (fst (dictGenericDelete d k))"
    and "snd (dictGenericDelete d k) = dict_map d k"
    and "dict_map (fst (dictGenericDelete d k)) = (dict_map d)(k := None)"
    and "hashFunction (fst (dictGenericDelete d k)) = hashFunction d"
proof -
  define d1 where "d1 = (if dictIsRehashing d then dictRehashStep d else d)"
  have d1: "dict_inv d1" "dict_map d1 = dict_map d" "hashFunction d1 = hashFunction d"
    using dictRehashStep_props [OF inv] inv by (simp_all add: d1_def)
  have "dict_inv (fst (dictGenericDelete d k)) \<and> snd (dictGenericDelete d k) = dict_map d k \<and>
      dict_map (fst (dictGenericDelete d k)) = (dict_map d)(k := None) \<and>
      hashFunction (fst (dictGenericDelete d k)) = hashFunction d"
  proof (cases "dictSize d = 0")
    case True
    then show ?thesis
      using inv dictSize_zero [OF inv] by (simp add: dictGenericDelete_def dictSize_def)
  next
    case False
    then have "dictSize d1 \<noteq> 0"
      using dictSize_zero inv d1 by metis
    then have srch: "dictIsRehashing d1 \<or> 0 < ht_size (ht0 d1)"
      by (rule dict_inv_searchable [OF d1(1)])
    then have pos: "0 < ht_size (ht0 d1)"
      using dict_inv_tables(5) [OF d1(1)] by blast
    note s = search_tables_map [OF d1(1) srch, of k, unfolded search_tables_def d1(2)]
    have e: "dictGenericDelete d k =
       (case map_of (chain d1 (ht0 d1) k) k of
          Some v \<Rightarrow> (d1\<lparr>ht0 := ht_unlink (hashFunction d1) k (ht0 d1)\<rparr>, Some v)
        | None \<Rightarrow> if \<not> dictIsRehashing d1 then (d1, None)
            else case map_of (chain d1 (ht1 d1) k) k of
                   Some v \<Rightarrow> (d1\<lparr>ht1 := ht_unlink (hashFunction d1) k (ht1 d1)\<rparr>, Some v)
                 | None \<Rightarrow> (d1, None))"
      using False unfolding dictGenericDelete_def Let_def d1_def [symmetric] dictSize_def by auto
    show ?thesis
      using s dict_unlink_entry(1) [OF d1(1) _ pos refl, of k] dict_unlink_entry(2) [OF d1(1) _ _ refl, of k] d1
      by (auto simp: e fun_upd_idem split: option.splits if_splits)
  qed
  then show "dict_inv (fst (dictGenericDelete d k))"
    and "snd (dictGenericDelete d k) = dict_map d k"
    and "dict_map (fst (dictGenericDelete d k)) = (dict_map d)(k := None)"
    and "hashFunction (fst (dictGenericDelete d k)) = hashFunction d"
    by blast+
qed

lemma dictDelete_refines [refines]:
  assumes "dict_inv d"
  shows "dict_inv (fst (dictDelete d k))"
    and "dict_map (fst (dictDelete d k)) = (dict_map d)(k := None)"
    and "snd (dictDelete d k) = (dict_map d k \<noteq> None)"
    and "hashFunction (fst (dictDelete d k)) = hashFunction d"
  using dictGenericDelete_refines [OF assms, of k]
  by (simp_all add: dictDelete_def split_beta)


subsection \<open>An iteration meets every entry once\<close>

text \<open>What an iterator has not returned yet.\<close>

definition iter_rest :: "('k, 'v) dict \<Rightarrow> ('k, 'v) dictIterator \<Rightarrow> ('k \<times> 'v) list" where
  "iter_rest d it =
     (if it_entry it = [] then [] else it_nextEntry it)
     @ concat (drop (nat (it_index it + 1)) (table (ht_of d (it_table it))))
     @ (if it_table it = 0 \<and> dictIsRehashing d then concat (table (ht1 d)) else [])"

definition iter_ok :: "('k, 'v) dictIterator \<Rightarrow> bool" where
  "iter_ok it \<longleftrightarrow> -1 \<le> it_index it \<and> it_table it \<le> 1"

definition same_tables :: "('k, 'v) dict \<Rightarrow> ('k, 'v) dict \<Rightarrow> bool" where
  "same_tables d d' \<longleftrightarrow> ht0 d' = ht0 d \<and> ht1 d' = ht1 d \<and> rehashidx d' = rehashidx d \<and>
     hashFunction d' = hashFunction d"

lemma concat_drop_nth: "i < length t \<Longrightarrow> concat (drop i t) = t ! i @ concat (drop (Suc i) t)"
  by (metis Cons_nth_drop_Suc concat.simps(2))

lemma dictNext_advance_rest:
  assumes inv: "dict_inv d" and ok: "iter_ok it" and step: "dictNext_advance d it = (d1, it1, go)"
  shows "same_tables d d1" and "iter_ok it1"
    and "\<not> go \<Longrightarrow> iter_rest d it = []"
    and "go \<Longrightarrow> iter_rest d it = it_entry it1 @ iter_rest d1 (it1\<lparr>it_entry := []\<rparr>)"
proof -
  note t = dict_inv_tables [OF inv]
  have len: "length (table (ht0 d)) = ht_size (ht0 d)" "length (table (ht1 d)) = ht_size (ht1 d)"
    using t(1,2) by (simp_all add: ht_ok_def)
  have first: "concat (table (ht1 d)) = table (ht1 d) ! 0 @ concat (drop (Suc 0) (table (ht1 d)))"
    if "dictIsRehashing d"
    using concat_drop_nth [of 0 "table (ht1 d)"] t(5) [OF that] len by simp
  have next1: "nat (i + 1) = Suc (nat i)" if "0 \<le> i" for i :: int
    using that by simp
  have here: "concat (drop (nat (it_index it + 1)) (table (ht_of d (it_table it)))) =
      table (ht_of d (it_table it)) ! nat (it_index it + 1)
      @ concat (drop (nat (it_index it + 2)) (table (ht_of d (it_table it))))"
    if "it_index it + 1 < int (ht_size (ht_of d (it_table it)))"
    using that ok len concat_drop_nth [of "nat (it_index it + 1)" "table (ht_of d (it_table it))"]
      next1 [of "it_index it + 1"]
    by (auto simp: iter_ok_def ht_of_def ac_simps)
  show "same_tables d d1" "iter_ok it1"
    using step ok by (auto simp: same_tables_def iter_ok_def dictNext_advance_def Let_def split: if_splits)
  show "iter_rest d it = []" if "\<not> go"
    using step that len
    by (auto simp: iter_rest_def dictNext_advance_def ht_of_def Let_def split: if_splits)
  show "iter_rest d it = it_entry it1 @ iter_rest d1 (it1\<lparr>it_entry := []\<rparr>)" if "go"
    using step that len first here
    by (auto simp: iter_rest_def dictNext_advance_def ht_of_def dictIsRehashing_def Let_def ac_simps
        split: if_splits)
qed

lemma same_tables_simps:
  assumes "same_tables d d'"
  shows "dict_inv d' = dict_inv d" "dict_map d' = dict_map d" "dict_entries d' = dict_entries d"
    and "iter_rest d' it = iter_rest d it" "dictSize d' = dictSize d"
  using assms
  by (simp_all add: same_tables_def dict_inv_def dict_map_def dict_entries_def iter_rest_def ht_of_def
      dictIsRehashing_def dictSize_def)

lemma dictNext_rest:
  assumes "dict_inv d" and "iter_ok it" and "dictNext d it = (d', it', r)"
  shows "same_tables d d' \<and> iter_ok it' \<and>
    (case r of None \<Rightarrow> iter_rest d it = [] | Some e \<Rightarrow> iter_rest d it = e # iter_rest d' it')"
  using assms
proof (induction d it arbitrary: d' it' r rule: dictNext.induct)
  case (1 d it)
  obtain d1 it1 go where step: "dictNext_advance d it = (d1, it1, go)"
    by (rule prod_cases3)
  note a = dictNext_advance_rest [OF "1.prems"(1,2) step]
  note st = same_tables_simps [OF a(1)]
  show ?case
  proof (cases go)
    case False
    with "1.prems"(3) step a show ?thesis by (subst (asm) dictNext.simps) auto
  next
    case go: True
    show ?thesis
    proof (cases "it_entry it1")
      case Nil
      have "dictNext d1 it1 = (d', it', r)"
        using "1.prems"(3) step go Nil by (subst (asm) dictNext.simps) simp
      with "1.IH" [OF step [symmetric] refl] go Nil st "1.prems"(1) a(2)
      have "same_tables d1 d' \<and> iter_ok it' \<and>
        (case r of None \<Rightarrow> iter_rest d1 it1 = [] | Some e \<Rightarrow> iter_rest d1 it1 = e # iter_rest d' it')"
        by blast
      moreover have "iter_rest d it = iter_rest d1 it1"
        using a(4) [OF go] Nil by (simp add: iter_rest_def)
      moreover have "same_tables d d'" if "same_tables d1 d'"
        using that a(1) by (simp add: same_tables_def)
      ultimately show ?thesis by (cases r) simp_all
    next
      case (Cons e es)
      then have "d' = d1" "it' = it1\<lparr>it_nextEntry := es\<rparr>" "r = Some e"
        using "1.prems"(3) step go by (subst (asm) dictNext.simps, simp)+
      with a(1,2) a(4) [OF go] Cons show ?thesis
        by (simp add: iter_rest_def iter_ok_def)
    qed
  qed
qed

lemma iter_start: "dict_inv d \<Longrightarrow> iter_ok dictGetIterator \<and> iter_rest d dictGetIterator = dict_entries d"
  using dict_inv_tables(6) [of d]
  by (auto simp: iter_ok_def iter_rest_def dictGetIterator_def dict_entries_def ht_of_def)

text \<open>The entry that \<open>dictNext\<close> returns first.\<close>

definition dict_first :: "('k, 'v) dict \<Rightarrow> ('k \<times> 'v) option" where
  "dict_first d = (case dictNext d dictGetIterator of (_, _, e) \<Rightarrow> e)"

lemma dict_first_entries:
  assumes "dict_inv d"
  shows "dict_first d = (case dict_entries d of [] \<Rightarrow> None | e # _ \<Rightarrow> Some e)"
proof -
  obtain d' it' r where n: "dictNext d dictGetIterator = (d', it', r)"
    by (rule prod_cases3)
  note rest = dictNext_rest [OF assms conjunct1 [OF iter_start [OF assms]] n]
  have "dict_entries d = iter_rest d dictGetIterator"
    by (rule conjunct2 [OF iter_start [OF assms], symmetric])
  then show ?thesis
    using rest n by (cases r) (simp_all add: dict_first_def)
qed

lemma dict_first_mem:
  assumes "dict_inv d"
  shows "dict_first d = None \<longleftrightarrow> dict_map d = Map.empty"
    and "dict_first d = Some (k, v) \<Longrightarrow> dict_map d k = Some v"
  using dict_first_entries [OF assms]
  by (auto simp: dict_map_def split: list.splits)


subsection \<open>The dictionary as its clients see it\<close>

text \<open>
  What the clients of the hash table rely on: \<open>lookup\<close> is the map a dictionary stands for,
  \<open>ok\<close> its invariant, and \<open>room\<close> says that one more key fits.  Lookups may reorganise the
  dictionary (a rehashing step) without changing the map.
\<close>

locale key_dict =
  fixes find :: "'d \<Rightarrow> 'k \<Rightarrow> 'd \<times> 'v option"
    and add :: "'d \<Rightarrow> 'k \<Rightarrow> 'v \<Rightarrow> 'd \<times> bool"
    and set_val :: "'d \<Rightarrow> 'k \<Rightarrow> 'v \<Rightarrow> 'd"
    and delete :: "'d \<Rightarrow> 'k \<Rightarrow> 'd \<times> bool"
    and first :: "'d \<Rightarrow> ('k \<times> 'v) option"
    and lookup :: "'d \<Rightarrow> 'k \<rightharpoonup> 'v"
    and ok :: "'d \<Rightarrow> bool"
    and room :: "'d \<Rightarrow> bool"
  assumes find_law: "ok d \<Longrightarrow>
      ok (fst (find d k)) \<and> lookup (fst (find d k)) = lookup d \<and> snd (find d k) = lookup d k"
    and add_law: "ok d \<Longrightarrow> room d \<Longrightarrow>
      ok (fst (add d k v)) \<and> snd (add d k v) = (lookup d k = None) \<and>
      lookup (fst (add d k v)) = (if lookup d k = None then (lookup d)(k \<mapsto> v) else lookup d)"
    and set_val_law: "ok d \<Longrightarrow>
      ok (set_val d k v) \<and>
      lookup (set_val d k v) = (if lookup d k = None then lookup d else (lookup d)(k \<mapsto> v))"
    and delete_law: "ok d \<Longrightarrow>
      ok (fst (delete d k)) \<and> lookup (fst (delete d k)) = (lookup d)(k := None) \<and>
      snd (delete d k) = (lookup d k \<noteq> None)"
    and first_law: "ok d \<Longrightarrow>
      (case first d of None \<Rightarrow> lookup d = Map.empty | Some (k, v) \<Rightarrow> lookup d k = Some v)"
    and room_find: "ok d \<Longrightarrow> room d \<Longrightarrow> room (fst (find d k))"
begin

text \<open>
  The idiom of the clients: look a key up, add it with a fresh value when it is missing,
  and look it up again.
\<close>

lemma find_or_add:
  assumes "ok d" and "room d" and "find d k = (d1, None)" and "add d1 k v = (d2, b)"
    and "find d2 k = (d3, r)"
  shows "ok d3 \<and> b \<and> r = Some v \<and> lookup d3 = (lookup d)(k \<mapsto> v)"
proof -
  have d1: "ok d1" "lookup d1 = lookup d" "lookup d k = None" "room d1"
    using find_law [OF assms(1), of k] room_find [OF assms(1,2), of k] assms(3) by auto
  with add_law [of d1 k v] assms(4) have "ok d2" "b" "lookup d2 = (lookup d)(k \<mapsto> v)"
    by auto
  with find_law [of d2 k] assms(5) show ?thesis by auto
qed

lemma add_find:
  assumes "ok d" and "room d"
  shows "snd (find (fst (add d k v)) k') =
    (if k' = k \<and> lookup d k = None then Some v else lookup d k')"
  using add_law [OF assms, of k v] find_law [of "fst (add d k v)" k'] by auto

lemma delete_find: "ok d \<Longrightarrow> snd (find (fst (delete d k)) k') = (if k' = k then None else lookup d k')"
  using delete_law [of d k] find_law [of "fst (delete d k)" k'] by auto

end

lemma dict_room_find: "dict_inv d \<Longrightarrow> dict_room d \<Longrightarrow> dict_room (fst (dictFind d k))"
  by (simp add: dict_room_def dictSize_card dictFind_refines)

interpretation hd: key_dict dictFind "dictAdd cr" dictSetVal dictDelete dict_first dict_map dict_inv dict_room for cr
  by unfold_locales
    (auto simp: dictFind_refines dictAdd_refines dictSetVal_refines dictDelete_refines dict_room_find
      dict_first_mem split: option.splits)


subsection \<open>Rehashing ends\<close>

lemma rehash_skip_budget:
  assumes "length bs < ev"
  shows "case rehash_skip_empty bs idx ev of
     SkipStop i \<Rightarrow> False
   | SkipAt i ev' \<Rightarrow> i + ev' = idx + ev
   | SkipEnd \<Rightarrow> True"
  using assms
proof (induction bs idx ev rule: rehash_skip_empty.induct)
  case (2 b bs idx ev)
  show ?case
  proof (cases "b = []")
    case True
    with "2.prems" have "ev - 1 \<noteq> 0" "length bs < ev - 1" by auto
    with True 2 show ?thesis
      by (cases "rehash_skip_empty bs (idx + 1) (ev - 1)") auto
  qed simp
qed simp

text \<open>
  With a budget of as many buckets and empty visits as are ahead, the loop empties the
  first table.
\<close>

lemma rehash_loop_empties:
  assumes "dict_inv d" and "dictIsRehashing d"
    and "ht_size (ht0 d) - nat (rehashidx d) \<le> n" and "ht_size (ht0 d) - nat (rehashidx d) < ev"
  shows "used (ht0 (fst (rehash_loop n ev d))) = 0 \<and> \<not> snd (rehash_loop n ev d)"
  using assms
proof (induction n ev d rule: rehash_loop.induct)
  case (1 ev d)
  then have "\<forall>i < length (table (ht0 d)). table (ht0 d) ! i = []"
    by (auto simp: dict_inv_def dictIsRehashing_def ht_ok_def)
  then have "concat (table (ht0 d)) = []"
    by (simp add: all_set_conv_all_nth)
  with 1 show ?case by (simp add: dict_inv_def ht_ok_def)
next
  case (2 n ev d)
  let ?r = "nat (rehashidx d)" and ?t = "table (ht0 d)"
  show ?case
  proof (cases "used (ht0 d) = 0")
    case used: False
    have len: "length ?t = ht_size (ht0 d)"
      using "2.prems"(1) by (simp add: dict_inv_def ht_ok_def)
    then have "length (drop ?r ?t) < ev"
      using "2.prems"(4) by simp
    note budget = rehash_skip_budget [OF this, of ?r]
    show ?thesis
    proof (cases "rehash_skip_empty (drop ?r ?t) ?r ev")
      case (SkipAt i ev')
      with rehash_skip_in_dict [OF "2.prems"(1,2), of ev]
      have i: "i < length ?t" "\<forall>j < i. ?t ! j = []" and "?r \<le> i" by simp_all
      note b = rehash_bucket_inv [OF "2.prems"(1,2) i]
      have sz: "ht_size (ht0 (rehash_bucket d i)) = ht_size (ht0 d)"
        and ri: "nat (rehashidx (rehash_bucket d i)) = Suc i"
        by (simp_all add: rehash_bucket_def Let_def nat_add_distrib)
      have "i + ev' = ?r + ev"
        using budget SkipAt by simp
      then have "ht_size (ht0 d) - Suc i \<le> n" "ht_size (ht0 d) - Suc i < ev'"
        using "2.prems"(3,4) i(1) len \<open>?r \<le> i\<close> by auto
      then show ?thesis
        using "2.IH" [OF used SkipAt b(1,2)] used SkipAt sz ri by simp
    next
      case (SkipStop i)
      with budget show ?thesis by simp
    next
      case SkipEnd
      with rehash_skip_found [OF "2.prems"(1,2) used, of ev] show ?thesis by simp
    qed
  qed simp
qed

lemma dictRehash_completes:
  assumes "dict_inv d" and "ht_size (ht0 d) \<le> n" and "0 < n"
  shows "\<not> dictIsRehashing (fst (dictRehash d n)) \<and> \<not> snd (dictRehash d n)"
proof (cases "dictIsRehashing d")
  case True
  have "ht_size (ht0 d) - nat (rehashidx d) \<le> n" "ht_size (ht0 d) - nat (rehashidx d) < n * 10"
    using assms(2,3) by auto
  with rehash_loop_empties [OF assms(1) True this]
  obtain d' where "rehash_loop n (n * 10) d = (d', False)" "used (ht0 d') = 0"
    by (metis (full_types) fst_conv snd_conv surj_pair)
  with True show ?thesis
    by (simp add: dictRehash_def) (simp add: dictIsRehashing_def)
qed (simp add: dictRehash_def)

lemma dict_iterate_entries:
  assumes "dict_inv d" and "iter_ok it" and "length (iter_rest d it) < n"
  shows "dict_iterate n d it = iter_rest d it"
  using assms
proof (induction n arbitrary: d it)
  case (Suc n)
  obtain d' it' r where n: "dictNext d it = (d', it', r)"
    by (rule prod_cases3)
  note rest = dictNext_rest [OF Suc.prems(1,2) n]
  then have inv': "dict_inv d'"
    using same_tables_simps(1) Suc.prems(1) by blast
  show ?case
  proof (cases r)
    case None
    with n rest show ?thesis by simp
  next
    case (Some e)
    with rest have r: "iter_rest d it = e # iter_rest d' it'" "iter_ok it'" by simp_all
    moreover have "dict_iterate n d' it' = iter_rest d' it'"
      using Suc.IH [OF inv' r(2)] Suc.prems(3) r(1) by simp
    ultimately show ?thesis using n Some by simp
  qed
qed simp

subsection \<open>Properties of the hash table\<close>

text \<open>
  C32. The hash table behaves as a map under insertion: after \<open>dictAdd\<close>, which reports
  success exactly when the key was absent, a lookup of that key finds the new value (or
  the old one, when the key was there) and a lookup of every other key is as before; this
  holds in every state of an incremental rehashing.
\<close>

theorem dict_add_lookup:
  assumes "dict_inv d" and "dict_room d"
  shows "dict_inv (fst (dictAdd cr d k v)) \<and>
    (snd (dictAdd cr d k v) \<longleftrightarrow> snd (dictFind d k) = None) \<and>
    snd (dictFind (fst (dictAdd cr d k v)) k') =
      (if k' = k \<and> snd (dictFind d k) = None then Some v else snd (dictFind d k'))"
  using assms dictAdd_refines(1,2) [OF assms, where cr = cr and k = k and v = v]
    dictFind_refines(1) [OF assms(1)] hd.add_find [OF assms, of cr k v k']
  by simp

text \<open>A table of four buckets with two keys in one of them, for the witnesses.\<close>

definition dict_ex :: "(nat, nat) dict" where
  "dict_ex = fst (dictAdd True (fst (dictAdd True (dictCreate of_nat) 1 10)) 5 50)"

lemma dict_inv_dictCreate [inv_intros]: "dict_inv (dictCreate hf)"
  by (simp add: dict_inv_def dictCreate_def dict_entries_def)

lemma dict_ex_facts: "dict_inv dict_ex" "dict_room dict_ex" "dict_map dict_ex = [1 \<mapsto> 10, 5 \<mapsto> 50]"
proof -
  let ?d1 = "fst (dictAdd True (dictCreate of_nat :: (nat, nat) dict) 1 10)"
  have c: "dict_inv (dictCreate of_nat :: (nat, nat) dict)" "dict_map (dictCreate of_nat :: (nat, nat) dict) = Map.empty"
    "dict_room (dictCreate of_nat :: (nat, nat) dict)"
    by (simp_all add: dict_inv_dictCreate)
      (simp_all add: dictCreate_def dict_map_def dict_entries_def dict_room_def dictSize_def)
  have d1: "dict_inv ?d1" "dict_map ?d1 = [1 \<mapsto> 10]"
    using dictAdd_refines [OF c(1,3), where cr = True and k = 1 and v = 10] c(2) by simp_all
  have r1: "dict_room ?d1"
    using d1 by (simp add: dict_room_def dictSize_card)
  show "dict_inv dict_ex" "dict_map dict_ex = [1 \<mapsto> 10, 5 \<mapsto> 50]"
    using dictAdd_refines [OF d1(1) r1, where cr = True and k = 5 and v = 50] d1(2)
    by (simp_all add: dict_ex_def)
  then show "dict_room dict_ex" by (simp add: dict_room_def dictSize_card)
qed

theorem dict_add_lookup_witness:
  "snd (dictFind (fst (dictAdd True dict_ex 9 90)) 9) = Some 90 \<and>
   snd (dictFind (fst (dictAdd True dict_ex 9 90)) 5) = Some 50"
  using dict_add_lookup [OF dict_ex_facts(1,2), of True 9 90 9]
    dict_add_lookup [OF dict_ex_facts(1,2), of True 9 90 5] dictFind_refines(1) [OF dict_ex_facts(1)]
  by (simp add: dict_ex_facts(3))

text \<open>
  C33. Deletion: \<open>dictDelete\<close> reports whether the key was there, keeps the table invariant,
  and afterwards a lookup misses that key and finds every other key as before; this holds
  in every state of an incremental rehashing.
\<close>

theorem dict_delete_lookup:
  assumes "dict_inv d"
  shows "dict_inv (fst (dictDelete d k)) \<and>
    (snd (dictDelete d k) \<longleftrightarrow> snd (dictFind d k) \<noteq> None) \<and>
    snd (dictFind (fst (dictDelete d k)) k') = (if k' = k then None else snd (dictFind d k'))"
  using dictDelete_refines(1,3) [OF assms] dictFind_refines(1) [OF assms] hd.delete_find [OF assms, of k k']
  by simp

theorem dict_delete_lookup_witness:
  "snd (dictFind (fst (dictDelete dict_ex 1)) 1) = None \<and> snd (dictFind (fst (dictDelete dict_ex 1)) 5) = Some 50"
  using dict_delete_lookup [OF dict_ex_facts(1), of 1 1] dict_delete_lookup [OF dict_ex_facts(1), of 1 5]
    dictFind_refines(1) [OF dict_ex_facts(1)]
  by (simp add: dict_ex_facts(3))


text \<open>The example table after \<open>dictExpand(d, 8)\<close>: in the middle of a rehashing.\<close>

definition dict_ex_rehashing :: "(nat, nat) dict" where
  "dict_ex_rehashing = fst (dictExpand dict_ex 8)"

lemma dict_ex_rehashing_facts: "dict_inv dict_ex_rehashing" "dict_map dict_ex_rehashing = dict_map dict_ex"
proof -
  show "dict_inv dict_ex_rehashing"
    unfolding dict_ex_rehashing_def by (rule dictExpand_inv [OF dict_ex_facts(1)])
  show "dict_map dict_ex_rehashing = dict_map dict_ex"
    using dictExpand_frame(3) [OF dict_ex_facts(1)] by (simp add: dict_ex_rehashing_def dict_map_def)
qed


text \<open>
  C35. An iterator meets every entry exactly once: the loop over \<open>dictNext\<close>, started on a
  fresh iterator, ends within \<open>dictSize(d) + 1\<close> calls, has then returned each key with its
  value, no key twice, and nothing else.
\<close>

theorem dict_iterate_complete:
  assumes "dict_inv d" and "dictSize d < n"
  shows "distinct (map fst (dict_iterate n d dictGetIterator)) \<and>
    length (dict_iterate n d dictGetIterator) = dictSize d \<and>
    map_of (dict_iterate n d dictGetIterator) k = snd (dictFind d k)"
proof -
  have "dict_iterate n d dictGetIterator = dict_entries d"
    using dict_iterate_entries [OF assms(1), of dictGetIterator n] iter_start [OF assms(1)] assms
    by (simp add: dictSize_entries iter_ok_def dictGetIterator_def)
  with assms(1) show ?thesis
    by (simp add: dict_inv_distinct dictSize_entries dictFind_refines(1) dict_map_def)
qed

theorem dict_iterate_complete_witness:
  "map_of (dict_iterate 3 dict_ex dictGetIterator) 5 = Some 50 \<and> length (dict_iterate 3 dict_ex dictGetIterator) = 2"
proof -
  have "dictSize dict_ex = 2"
    using dictSize_card [OF dict_ex_facts(1)] by (simp add: dict_ex_facts(3))
  then show ?thesis
    using dict_iterate_complete [OF dict_ex_facts(1), of 3 5] dictFind_refines(1) [OF dict_ex_facts(1)]
    by (simp add: dict_ex_facts(3))
qed

end
