(* ===== verification/Db.thy ===== *)
theory Db
  imports Object Dict "HOL-Library.Monad_Syntax"
begin

text \<open>
  A database of \<open>src/src/db.c\<close>: the keyspace, the expire times, and the three dictionaries of
  keys that wait for the backend.  The keyspace and the expire times, whose iteration order
  no modelled code depends on, are maps; that \<open>dict.c\<close> implements maps is shown in
  \<open>Dict\<close>.  The dictionaries of waiting keys, whose first entry in iteration order is the
  next job, are hash tables of \<open>Dict\<close>.

  A \<open>serverAssert\<close> that fails ends the process: an operation that contains one returns an
  option, and \<^const>\<open>None\<close> is the abort.  Statistics, keyspace notifications and the
  propagation to replicas and to the append-only file are not part of the state.
\<close>

subsection \<open>State\<close>

text \<open>A client is identified by a number; a waiting list is the list of its clients.\<close>

type_synonym cid = nat

record backendSetInfo =
  setValue :: sds
  setTtl :: int
  set_clients :: "cid list"

record redisDb =
  db_dict :: "sds \<rightharpoonup> robj"
  db_expires :: "sds \<rightharpoonup> int"
  backendGetKeys :: "(sds, cid list) dict"
  backendSetKeys :: "(sds, backendSetInfo) dict"
  backendDelKeys :: "(sds, cid list) dict"

text \<open>
  What the keyspace code reads of the server: the time in milliseconds, which does not move
  during a command, whether the server is a replica or is loading, whether the current
  client, other than the master, runs a read-only command, and the settings that choose
  between synchronous and asynchronous deletion.
\<close>

record dbenv =
  env_now :: int
  env_slave :: bool
  env_loading :: bool
  env_readonly :: bool
  env_lazy_expire :: bool
  env_lazy_user_del :: bool
  env_lazy_server_del :: bool

subsection \<open>Expire times\<close>

text \<open>The result of \<open>long long\<close> arithmetic, which wraps around.\<close>

definition sll :: "int \<Rightarrow> int" where
  "sll v = (v + 9223372036854775808) mod 18446744073709551616 - 9223372036854775808"

definition getExpire :: "redisDb \<Rightarrow> sds \<Rightarrow> int option" where
  "getExpire db key =
     (case db_expires db key of
        None \<Rightarrow> Some (-1)
      | Some w \<Rightarrow> if db_dict db key = None then None else Some w)"

definition keyIsExpired :: "dbenv \<Rightarrow> redisDb \<Rightarrow> sds \<Rightarrow> bool option" where
  "keyIsExpired e db key = do {
     w \<leftarrow> getExpire db key;
     Some (if w < 0 then False else if env_loading e then False else w < env_now e)
   }"

definition removeExpire :: "redisDb \<Rightarrow> sds \<Rightarrow> (redisDb \<times> bool) option" where
  "removeExpire db key =
     (if db_dict db key = None then None
      else Some (db\<lparr>db_expires := (db_expires db)(key := None)\<rparr>, db_expires db key \<noteq> None))"

definition setExpire :: "redisDb \<Rightarrow> sds \<Rightarrow> int \<Rightarrow> redisDb option" where
  "setExpire db key w =
     (if db_dict db key = None then None
      else Some (db\<lparr>db_expires := (db_expires db)(key \<mapsto> w)\<rparr>))"

subsection \<open>Deleting\<close>

definition dbSyncDelete :: "redisDb \<Rightarrow> sds \<Rightarrow> redisDb \<times> bool" where
  "dbSyncDelete db key =
     (db\<lparr>db_expires := (db_expires db)(key := None), db_dict := (db_dict db)(key := None)\<rparr>,
      db_dict db key \<noteq> None)"

text \<open>\<open>dbAsyncDelete\<close> differs in who frees the memory of the value.\<close>

definition dbAsyncDelete :: "redisDb \<Rightarrow> sds \<Rightarrow> redisDb \<times> bool" where
  "dbAsyncDelete db key =
     (let db = db\<lparr>db_expires := (db_expires db)(key := None)\<rparr>
      in case db_dict db key of
           Some v \<Rightarrow> (db\<lparr>db_dict := (db_dict db)(key := None)\<rparr>, True)
         | None \<Rightarrow> (db, False))"

definition dbDelete :: "dbenv \<Rightarrow> redisDb \<Rightarrow> sds \<Rightarrow> redisDb \<times> bool" where
  "dbDelete e db key = (if env_lazy_server_del e then dbAsyncDelete db key else dbSyncDelete db key)"

definition expireIfNeeded :: "dbenv \<Rightarrow> redisDb \<Rightarrow> sds \<Rightarrow> (redisDb \<times> bool) option" where
  "expireIfNeeded e db key = do {
     expired \<leftarrow> keyIsExpired e db key;
     Some (if \<not> expired then (db, False)
           else if env_slave e then (db, True)
           else if env_lazy_expire e then dbAsyncDelete db key else dbSyncDelete db key)
   }"

subsection \<open>Lookup\<close>

definition lookupKey :: "redisDb \<Rightarrow> sds \<Rightarrow> robj option" where
  "lookupKey db key = db_dict db key"

definition lookupKeyRead :: "dbenv \<Rightarrow> redisDb \<Rightarrow> sds \<Rightarrow> (redisDb \<times> robj option) option" where
  "lookupKeyRead e db key = do {
     (db, expired) \<leftarrow> expireIfNeeded e db key;
     Some (if expired \<and> (\<not> env_slave e \<or> env_readonly e) then (db, None) else (db, lookupKey db key))
   }"

definition lookupKeyWrite :: "dbenv \<Rightarrow> redisDb \<Rightarrow> sds \<Rightarrow> (redisDb \<times> robj option) option" where
  "lookupKeyWrite e db key = do {
     (db, _) \<leftarrow> expireIfNeeded e db key;
     Some (db, lookupKey db key)
   }"

definition dbExists :: "redisDb \<Rightarrow> sds \<Rightarrow> bool" where
  "dbExists db key \<longleftrightarrow> db_dict db key \<noteq> None"

subsection \<open>Storing\<close>

definition dbAdd :: "redisDb \<Rightarrow> sds \<Rightarrow> robj \<Rightarrow> redisDb option" where
  "dbAdd db key val =
     (if db_dict db key \<noteq> None then None else Some (db\<lparr>db_dict := (db_dict db)(key \<mapsto> val)\<rparr>))"

definition dbOverwrite :: "redisDb \<Rightarrow> sds \<Rightarrow> robj \<Rightarrow> redisDb option" where
  "dbOverwrite db key val =
     (if db_dict db key = None then None else Some (db\<lparr>db_dict := (db_dict db)(key \<mapsto> val)\<rparr>))"

definition genericSetKey :: "dbenv \<Rightarrow> redisDb \<Rightarrow> sds \<Rightarrow> robj \<Rightarrow> bool \<Rightarrow> redisDb option" where
  "genericSetKey e db key val keepttl = do {
     (db, o') \<leftarrow> lookupKeyWrite e db key;
     db \<leftarrow> (if o' = None then dbAdd db key val else dbOverwrite db key val);
     (if \<not> keepttl then do { (db, _) \<leftarrow> removeExpire db key; Some db } else Some db)
   }"

definition setKey :: "dbenv \<Rightarrow> redisDb \<Rightarrow> sds \<Rightarrow> robj \<Rightarrow> redisDb option" where
  "setKey e db key val = genericSetKey e db key val False"

text \<open>
  The object is replaced by an unshared raw string; a raw object that nobody shares is kept,
  and is the same value.
\<close>

definition dbUnshareStringValue :: "redisDb \<Rightarrow> sds \<Rightarrow> robj \<Rightarrow> (redisDb \<times> sds) option" where
  "dbUnshareStringValue db key o' = do {
     decoded \<leftarrow> getDecodedObject o';
     s \<leftarrow> obj_ptr decoded;
     db \<leftarrow> dbOverwrite db key (createRawStringObject s);
     Some (db, s)
   }"

subsection \<open>The keyspace as its clients see it\<close>

text \<open>
  Well-formed databases: only existing keys have an expire time, and the objects are valid.
  A key whose time has passed is not there for its readers.
\<close>

definition db_ok :: "redisDb \<Rightarrow> bool" where
  "db_ok db \<longleftrightarrow> dom (db_expires db) \<subseteq> dom (db_dict db) \<and> (\<forall>k o'. db_dict db k = Some o' \<longrightarrow> robj_ok o')"

definition key_expired :: "dbenv \<Rightarrow> redisDb \<Rightarrow> sds \<Rightarrow> bool" where
  "key_expired e db key \<longleftrightarrow>
     (case db_expires db key of None \<Rightarrow> False | Some w \<Rightarrow> 0 \<le> w \<and> \<not> env_loading e \<and> w < env_now e)"

definition live :: "dbenv \<Rightarrow> redisDb \<Rightarrow> sds \<Rightarrow> robj option" where
  "live e db key = (if key_expired e db key then None else db_dict db key)"

text \<open>The expire time of a key that has one.\<close>

definition live_ttl :: "dbenv \<Rightarrow> redisDb \<Rightarrow> sds \<Rightarrow> int option" where
  "live_ttl e db key = (if key_expired e db key then None else db_expires db key)"

text \<open>The operations leave the dictionaries of waiting keys alone.\<close>

definition same_backend :: "redisDb \<Rightarrow> redisDb \<Rightarrow> bool" where
  "same_backend db db' \<longleftrightarrow> backendGetKeys db' = backendGetKeys db \<and> backendSetKeys db' = backendSetKeys db \<and>
     backendDelKeys db' = backendDelKeys db"

lemma same_backend_refl [simp]: "same_backend db db"
  by (simp add: same_backend_def)

lemma same_backend_trans [trans]: "same_backend a b \<Longrightarrow> same_backend b c \<Longrightarrow> same_backend a c"
  by (simp add: same_backend_def)

lemma db_okD:
  assumes "db_ok db"
  shows "db_expires db k = Some w \<Longrightarrow> \<exists>o'. db_dict db k = Some o'"
    and "db_dict db k = Some o' \<Longrightarrow> robj_ok o'"
    and "db_dict db k = None \<Longrightarrow> db_expires db k = None"
  using assms by (auto simp: db_ok_def)

lemma getExpire_ok: "db_ok db \<Longrightarrow> getExpire db key = Some (case db_expires db key of None \<Rightarrow> -1 | Some w \<Rightarrow> w)"
  by (auto simp: getExpire_def dest: db_okD split: option.splits)

lemma keyIsExpired_ok: "db_ok db \<Longrightarrow> keyIsExpired e db key = Some (key_expired e db key)"
  by (simp add: keyIsExpired_def getExpire_ok key_expired_def split: option.splits)

lemma key_expired_present: "db_ok db \<Longrightarrow> key_expired e db key \<Longrightarrow> \<exists>o'. db_dict db key = Some o'"
  by (auto simp: key_expired_def dest: db_okD split: option.splits)

lemma expireIfNeeded_ok:
  assumes "db_ok db"
  shows "expireIfNeeded e db key =
    Some (if key_expired e db key
          then (if env_slave e then db else fst (dbSyncDelete db key), True)
          else (db, False))"
  using assms key_expired_present [OF assms, of e key]
  by (auto simp: expireIfNeeded_def keyIsExpired_ok dbSyncDelete_def dbAsyncDelete_def Let_def)

text \<open>The state after a lookup: on a master an expired key is gone.\<close>

definition purge :: "dbenv \<Rightarrow> redisDb \<Rightarrow> sds \<Rightarrow> redisDb" where
  "purge e db key = (if key_expired e db key \<and> \<not> env_slave e then fst (dbSyncDelete db key) else db)"

lemma dbSyncDelete_simps [simp]:
  "db_dict (fst (dbSyncDelete db key)) = (db_dict db)(key := None)"
  "db_expires (fst (dbSyncDelete db key)) = (db_expires db)(key := None)"
  "same_backend db (fst (dbSyncDelete db key))"
  by (simp_all add: dbSyncDelete_def same_backend_def)

lemma purge_simps [simp]:
  "same_backend db (purge e db key)"
  "key_expired e (purge e db key) k \<longleftrightarrow> key_expired e db k \<and> (k = key \<longrightarrow> env_slave e)"
  "\<not> env_slave e \<Longrightarrow> live e (purge e db key) = live e db"
  "\<not> env_slave e \<Longrightarrow> live_ttl e (purge e db key) = live_ttl e db"
  "\<not> env_slave e \<Longrightarrow> db_dict (purge e db key) key = live e db key"
  "\<not> env_slave e \<Longrightarrow> db_expires (purge e db key) key = live_ttl e db key"
  by (auto simp: purge_def live_def live_ttl_def key_expired_def fun_eq_iff split: option.splits)

lemma db_ok_purge [simp]: "db_ok db \<Longrightarrow> db_ok (purge e db key)"
  by (auto simp: db_ok_def purge_def)

lemma lookupKeyRead_ok:
  assumes "db_ok db" and "env_slave e \<longrightarrow> env_readonly e"
  shows "lookupKeyRead e db key = Some (purge e db key, live e db key)"
  using assms by (auto simp: lookupKeyRead_def expireIfNeeded_ok purge_def live_def lookupKey_def)

lemma lookupKeyWrite_ok:
  assumes "db_ok db"
  shows "lookupKeyWrite e db key = Some (purge e db key, db_dict (purge e db key) key)"
  using assms by (auto simp: lookupKeyWrite_def expireIfNeeded_ok purge_def lookupKey_def)

lemma lookupKeyWrite_master:
  assumes "db_ok db" and "\<not> env_slave e"
  shows "lookupKeyWrite e db key = Some (purge e db key, live e db key)"
  using assms by (simp add: lookupKeyWrite_ok)

lemma dbUnshareStringValue_ok:
  assumes "db_dict db key = Some o'" and "is_string o'" and "robj_ok o'"
  shows "dbUnshareStringValue db key o' =
    Some (db\<lparr>db_dict := (db_dict db)(key \<mapsto> RawStr (obj_string o'))\<rparr>, obj_string o')"
  using assms getDecodedObject_string [OF assms(2,3)]
  by (auto simp: dbUnshareStringValue_def dbOverwrite_def createRawStringObject_def)

text \<open>The three updates that the operations below are made of.\<close>

definition db_put :: "redisDb \<Rightarrow> sds \<Rightarrow> robj \<Rightarrow> redisDb" where
  "db_put db key val = db\<lparr>db_dict := (db_dict db)(key \<mapsto> val)\<rparr>"

definition db_persist :: "redisDb \<Rightarrow> sds \<Rightarrow> redisDb" where
  "db_persist db key = db\<lparr>db_expires := (db_expires db)(key := None)\<rparr>"

definition db_expire_at :: "redisDb \<Rightarrow> sds \<Rightarrow> int \<Rightarrow> redisDb" where
  "db_expire_at db key w = db\<lparr>db_expires := (db_expires db)(key \<mapsto> w)\<rparr>"

lemma db_update_sel [simp]:
  "db_dict (db_put db key val) = (db_dict db)(key \<mapsto> val)"
  "db_expires (db_put db key val) = db_expires db"
  "db_dict (db_persist db key) = db_dict db"
  "db_expires (db_persist db key) = (db_expires db)(key := None)"
  "db_dict (db_expire_at db key w) = db_dict db"
  "db_expires (db_expire_at db key w) = (db_expires db)(key \<mapsto> w)"
  by (simp_all add: db_put_def db_persist_def db_expire_at_def)

lemma db_update_backend [simp]:
  "same_backend db (db_put db' key val) = same_backend db db'"
  "same_backend db (db_persist db' key) = same_backend db db'"
  "same_backend db (db_expire_at db' key w) = same_backend db db'"
  by (simp_all add: db_put_def db_persist_def db_expire_at_def same_backend_def)

lemma key_expired_update [simp]:
  "key_expired e (db_put db key val) k = key_expired e db k"
  "key_expired e (db_persist db key) k \<longleftrightarrow> key_expired e db k \<and> k \<noteq> key"
  "key_expired e (db_expire_at db key w) k \<longleftrightarrow>
     (if k = key then 0 \<le> w \<and> \<not> env_loading e \<and> w < env_now e else key_expired e db k)"
  by (auto simp: key_expired_def)

lemma live_put [simp]:
  "\<not> key_expired e db key \<Longrightarrow> live e (db_put db key val) = (live e db)(key \<mapsto> val)"
  "live_ttl e (db_put db key val) = live_ttl e db"
  by (auto simp: live_def live_ttl_def fun_eq_iff)

lemma live_persist [simp]:
  "\<not> key_expired e db key \<Longrightarrow> live e (db_persist db key) = live e db"
  "\<not> key_expired e db key \<Longrightarrow> live_ttl e (db_persist db key) = (live_ttl e db)(key := None)"
  by (auto simp: live_def live_ttl_def fun_eq_iff)

lemma live_expire_at [simp]:
  "\<not> key_expired e db key \<Longrightarrow> env_now e \<le> w \<Longrightarrow> live e (db_expire_at db key w) = live e db"
  "\<not> key_expired e db key \<Longrightarrow> env_now e \<le> w \<Longrightarrow> live_ttl e (db_expire_at db key w) = (live_ttl e db)(key \<mapsto> w)"
  by (auto simp: live_def live_ttl_def fun_eq_iff)

lemma db_ok_update [inv_intros]:
  "db_ok db \<Longrightarrow> robj_ok val \<Longrightarrow> db_ok (db_put db key val)"
  "db_ok db \<Longrightarrow> db_ok (db_persist db key)"
  "db_ok db \<Longrightarrow> db_dict db key \<noteq> None \<Longrightarrow> db_ok (db_expire_at db key w)"
  "db_ok db \<Longrightarrow> db_ok (fst (dbSyncDelete db key))"
  by (auto simp: db_ok_def)

lemma live_delete [simp]:
  "live e (fst (dbSyncDelete db key)) = (live e db)(key := None)"
  "live_ttl e (fst (dbSyncDelete db key)) = (live_ttl e db)(key := None)"
  by (auto simp: live_def live_ttl_def fun_eq_iff key_expired_def)

lemma dbAsyncDelete_eq: "dbAsyncDelete db key = dbSyncDelete db key"
  by (auto simp: dbAsyncDelete_def dbSyncDelete_def fun_upd_idem Let_def split: option.splits)

lemma dbDelete_eq: "dbDelete e db key = dbSyncDelete db key"
  by (simp add: dbDelete_def dbAsyncDelete_eq)

text \<open>
  \<open>genericSetKey\<close> never aborts on a well-formed database; it stores the value, and keeps
  the expire time or removes it.
\<close>

lemma genericSetKey_eq:
  assumes "db_ok db"
  shows "genericSetKey e db key val keepttl =
    Some (if keepttl then db_put (purge e db key) key val else db_persist (db_put (purge e db key) key val) key)"
  using assms by (auto simp: genericSetKey_def lookupKeyWrite_ok dbAdd_def dbOverwrite_def removeExpire_def
      db_put_def db_persist_def)

lemma genericSetKey_ok:
  assumes "db_ok db" and "\<not> env_slave e" and "robj_ok val"
  shows "\<exists>db'. genericSetKey e db key val keepttl = Some db' \<and> db_ok db' \<and> same_backend db db' \<and>
    live e db' = (live e db)(key \<mapsto> val) \<and>
    live_ttl e db' = (if keepttl then live_ttl e db else (live_ttl e db)(key := None))"
  using assms by (simp add: genericSetKey_eq inv_intros)

end
