(* ===== verification/Cmd.thy ===== *)
theory Cmd
  imports Db
begin

text \<open>
  What the implementation of a command works on: the arguments, the database the client
  selected, the replies, the flags by which the backend tells a resumed command that its
  write failed, and the counter \<open>server.dirty\<close>.  The arguments come from the query buffer,
  so each \<open>c->argv[j]\<close> is a string-encoded object; it is kept as its bytes.

  A command returns an option: \<^const>\<open>None\<close> is a failed \<open>serverAssert\<close>, or an allocation
  that the allocator cannot satisfy, and ends the process.
\<close>

subsection \<open>Replies\<close>

datatype reply_err =
    ErrWrongType | ErrSyntax | ErrNotInteger | ErrOutOfRange | ErrInvalidExpire sds | ErrStringTooLong | ErrOffset
  | ErrOverflow | ErrArity sds | ErrUnknownCommand sds sds | ErrMsetArgs | ErrInvalidDbIndex | ErrDbIndex
  | ErrNoKey | ErrNestedMulti | ErrNoMulti | ErrExecAbort | ErrSameObject

datatype reply =
    ReplyOk | ReplyNull | ReplyInt int | ReplyBulk sds | ReplyArrayLen nat | ReplyStatus sds | ReplyErr reply_err

record ctx =
  cx_env :: dbenv
  cx_db :: redisDb
  cx_cmd :: sds
  cx_argv :: "sds list"
  cx_out :: "reply list"
  cx_dirty :: nat
  cx_set_failed :: bool
  cx_del_failed :: bool

definition addReply :: "reply \<Rightarrow> ctx \<Rightarrow> ctx" where
  "addReply r c = c\<lparr>cx_out := cx_out c @ [r]\<rparr>"

definition argv :: "ctx \<Rightarrow> nat \<Rightarrow> robj" where
  "argv c j = createStringObject (cx_argv c ! j)"

definition argc :: "ctx \<Rightarrow> nat" where
  "argc c = length (cx_argv c)"

definition dirtied :: "ctx \<Rightarrow> ctx" where
  "dirtied c = c\<lparr>cx_dirty := cx_dirty c + 1\<rparr>"

text \<open>The reply of a string object: \<open>addReplyBulk\<close> decodes an integer.\<close>

definition addReplyBulk :: "robj \<Rightarrow> ctx \<Rightarrow> ctx option" where
  "addReplyBulk o' c = do {
     d \<leftarrow> getDecodedObject o';
     s \<leftarrow> obj_ptr d;
     Some (addReply (ReplyBulk s) c)
   }"

text \<open>\<^const>\<open>None\<close> after the error reply, otherwise the number.\<close>

definition getLongLongFromObjectOrReply :: "robj option \<Rightarrow> ctx \<Rightarrow> ctx \<times> int option" where
  "getLongLongFromObjectOrReply o' c =
     (case getLongLongFromObject o' of
        None \<Rightarrow> (addReply (ReplyErr ErrNotInteger) c, None)
      | Some v \<Rightarrow> (c, Some v))"

definition getLongFromObjectOrReply :: "robj option \<Rightarrow> reply_err option \<Rightarrow> ctx \<Rightarrow> ctx \<times> int option" where
  "getLongFromObjectOrReply o' msg c =
     (case getLongLongFromObject o' of
        None \<Rightarrow> (addReply (ReplyErr (case msg of None \<Rightarrow> ErrNotInteger | Some m \<Rightarrow> m)) c, None)
      | Some v \<Rightarrow>
          if v < LLONG_MIN \<or> LLONG_MAX < v
          then (addReply (ReplyErr (case msg of None \<Rightarrow> ErrOutOfRange | Some m \<Rightarrow> m)) c, None)
          else (c, Some v))"

subsection \<open>Keyspace access of a command\<close>

definition cx_lookupKeyRead :: "sds \<Rightarrow> ctx \<Rightarrow> (ctx \<times> robj option) option" where
  "cx_lookupKeyRead key c = do {
     (db, o') \<leftarrow> lookupKeyRead (cx_env c) (cx_db c) key;
     Some (c\<lparr>cx_db := db\<rparr>, o')
   }"

definition cx_lookupKeyWrite :: "sds \<Rightarrow> ctx \<Rightarrow> (ctx \<times> robj option) option" where
  "cx_lookupKeyWrite key c = do {
     (db, o') \<leftarrow> lookupKeyWrite (cx_env c) (cx_db c) key;
     Some (c\<lparr>cx_db := db\<rparr>, o')
   }"

definition lookupKeyReadOrReply :: "sds \<Rightarrow> reply \<Rightarrow> ctx \<Rightarrow> (ctx \<times> robj option) option" where
  "lookupKeyReadOrReply key r c = do {
     (c, o') \<leftarrow> cx_lookupKeyRead key c;
     Some (if o' = None then addReply r c else c, o')
   }"

definition lookupKeyWriteOrReply :: "sds \<Rightarrow> reply \<Rightarrow> ctx \<Rightarrow> (ctx \<times> robj option) option" where
  "lookupKeyWriteOrReply key r c = do {
     (c, o') \<leftarrow> cx_lookupKeyWrite key c;
     Some (if o' = None then addReply r c else c, o')
   }"

definition checkType :: "robj \<Rightarrow> ctx \<Rightarrow> ctx \<times> bool" where
  "checkType o' c = (if is_string o' then (c, False) else (addReply (ReplyErr ErrWrongType) c, True))"

subsection \<open>What every command keeps\<close>

text \<open>
  A command leaves its environment, its arguments and the dictionaries of waiting keys
  alone, keeps the database well-formed, and only adds replies.
\<close>

definition cmd_ok :: "ctx \<Rightarrow> ctx \<Rightarrow> bool" where
  "cmd_ok c c' \<longleftrightarrow> cx_env c' = cx_env c \<and> cx_argv c' = cx_argv c \<and> cx_cmd c' = cx_cmd c \<and>
     same_backend (cx_db c) (cx_db c') \<and> db_ok (cx_db c') \<and> (\<exists>rs. cx_out c' = cx_out c @ rs) \<and>
     cx_dirty c \<le> cx_dirty c' \<and> (cx_set_failed c' \<longrightarrow> cx_set_failed c) \<and> (cx_del_failed c' \<longrightarrow> cx_del_failed c)"

definition cmd_total :: "ctx \<Rightarrow> ctx option \<Rightarrow> bool" where
  "cmd_total c r \<longleftrightarrow> (\<exists>c'. r = Some c' \<and> cmd_ok c c')"

named_theorems cmd_intros \<open>a command does not abort and keeps what it should\<close>

lemma cmd_ok_refl: "db_ok (cx_db c) \<Longrightarrow> cmd_ok c c"
  by (simp add: cmd_ok_def)

lemma cmd_ok_db_ok: "cmd_ok c c' \<Longrightarrow> db_ok (cx_db c')"
  by (simp add: cmd_ok_def)

lemma cmd_ok_addReply [simp]: "cmd_ok c c' \<Longrightarrow> cmd_ok c (addReply r c')"
  by (auto simp: cmd_ok_def addReply_def)

lemma cmd_ok_dirtied [simp]: "cmd_ok c c' \<Longrightarrow> cmd_ok c (dirtied c')"
  by (auto simp: cmd_ok_def dirtied_def)

lemma cmd_ok_clear_failed [simp]:
  "cmd_ok c c' \<Longrightarrow> cmd_ok c (c'\<lparr>cx_set_failed := False\<rparr>)"
  "cmd_ok c c' \<Longrightarrow> cmd_ok c (c'\<lparr>cx_del_failed := False\<rparr>)"
  "cmd_ok c c' \<Longrightarrow> cmd_ok c (c'\<lparr>cx_dirty := cx_dirty c' + n\<rparr>)"
  by (auto simp: cmd_ok_def)

lemma cmd_ok_db:
  "cmd_ok c c' \<Longrightarrow> db_ok db \<Longrightarrow> same_backend (cx_db c') db \<Longrightarrow> cmd_ok c (c'\<lparr>cx_db := db\<rparr>)"
  by (auto simp: cmd_ok_def intro: same_backend_trans)

lemma addReply_sel [simp]:
  "cx_env (addReply r c) = cx_env c" "cx_db (addReply r c) = cx_db c" "cx_argv (addReply r c) = cx_argv c"
  "cx_out (addReply r c) = cx_out c @ [r]" "cx_dirty (addReply r c) = cx_dirty c" "cx_cmd (addReply r c) = cx_cmd c"
  "cx_set_failed (addReply r c) = cx_set_failed c" "cx_del_failed (addReply r c) = cx_del_failed c"
  by (simp_all add: addReply_def)

lemma dirtied_sel [simp]:
  "cx_env (dirtied c) = cx_env c" "cx_db (dirtied c) = cx_db c" "cx_argv (dirtied c) = cx_argv c"
  "cx_out (dirtied c) = cx_out c" "cx_dirty (dirtied c) = cx_dirty c + 1" "cx_cmd (dirtied c) = cx_cmd c"
  "cx_set_failed (dirtied c) = cx_set_failed c" "cx_del_failed (dirtied c) = cx_del_failed c"
  by (simp_all add: dirtied_def)

text \<open>What a read finds; on a replica an expired key is hidden from read-only commands only.\<close>

definition readable :: "dbenv \<Rightarrow> redisDb \<Rightarrow> sds \<Rightarrow> robj option" where
  "readable e db key = (if key_expired e db key \<and> (\<not> env_slave e \<or> env_readonly e) then None else db_dict db key)"

lemma readable_master: "\<not> env_slave e \<Longrightarrow> readable e db key = live e db key"
  by (simp add: readable_def live_def)

lemma readable_robj_ok: "db_ok db \<Longrightarrow> readable e db key = Some o' \<Longrightarrow> robj_ok o'"
  by (auto simp: readable_def dest: db_okD split: if_splits)

lemma lookupKeyRead_eq: "db_ok db \<Longrightarrow> lookupKeyRead e db key = Some (purge e db key, readable e db key)"
  by (auto simp: lookupKeyRead_def expireIfNeeded_ok purge_def readable_def lookupKey_def)

lemma cx_lookupKeyRead_eq:
  "db_ok (cx_db c) \<Longrightarrow>
     cx_lookupKeyRead key c = Some (c\<lparr>cx_db := purge (cx_env c) (cx_db c) key\<rparr>, readable (cx_env c) (cx_db c) key)"
  by (simp add: cx_lookupKeyRead_def lookupKeyRead_eq)

lemma cx_lookupKeyWrite_eq:
  "db_ok (cx_db c) \<Longrightarrow>
     cx_lookupKeyWrite key c =
       Some (c\<lparr>cx_db := purge (cx_env c) (cx_db c) key\<rparr>, db_dict (purge (cx_env c) (cx_db c) key) key)"
  by (simp add: cx_lookupKeyWrite_def lookupKeyWrite_ok)

lemma purge_idem: "db_ok db \<Longrightarrow> purge e (purge e db key) key = purge e db key"
  by (auto simp: purge_def key_expired_def)

lemma purge_robj_ok: "db_ok db \<Longrightarrow> db_dict (purge e db key) k = Some o' \<Longrightarrow> robj_ok o'"
  by (auto intro: db_okD(2) [OF db_ok_purge])

lemma cmd_ok_purge [simp]:
  "db_ok (cx_db c) \<Longrightarrow> cmd_ok c (c\<lparr>cx_db := purge (cx_env c) (cx_db c) key\<rparr>)"
  by (simp add: cmd_ok_db cmd_ok_refl)

lemma addReplyBulk_eq:
  "is_string o' \<Longrightarrow> robj_ok o' \<Longrightarrow> addReplyBulk o' c = Some (addReply (ReplyBulk (obj_string o')) c)"
  using getDecodedObject_string [of o'] by (auto simp: addReplyBulk_def)

lemma argv_ok [simp]: "robj_ok (argv c j)" "is_string (argv c j)" "obj_string (argv c j) = cx_argv c ! j"
  "sdsEncodedObject (argv c j)"
  by (simp_all add: argv_def)

lemma robj_ok_tryObjectEncoding [simp]:
  "robj_ok o' \<Longrightarrow> robj_ok (tryObjectEncoding rc o')" "robj_ok o' \<Longrightarrow> obj_string (tryObjectEncoding rc o') = obj_string o'"
  "robj_ok o' \<Longrightarrow> is_string (tryObjectEncoding rc o') = is_string o'"
  by (simp_all add: tryObjectEncoding_string)

lemma getLongLong_argv: "getLongLongFromObject (Some (argv c j)) = string2ll (cx_argv c ! j)"
  by (simp add: argv_def createStringObject_def createEmbeddedStringObject_def createRawStringObject_def)

lemma getLongLongFromObjectOrReply_argv:
  "getLongLongFromObjectOrReply (Some (argv c j)) c =
     (case string2ll (cx_argv c ! j) of
        None \<Rightarrow> (addReply (ReplyErr ErrNotInteger) c, None) | Some v \<Rightarrow> (c, Some v))"
  by (simp add: getLongLongFromObjectOrReply_def getLongLong_argv)

lemma getLongFromObjectOrReply_argv:
  "getLongFromObjectOrReply (Some (argv c j)) None c =
     (case string2ll (cx_argv c ! j) of
        None \<Rightarrow> (addReply (ReplyErr ErrNotInteger) c, None) | Some v \<Rightarrow> (c, Some v))"
  using string2ll_iff [of "cx_argv c ! j" "the (string2ll (cx_argv c ! j))"]
  by (cases "string2ll (cx_argv c ! j)") (auto simp: getLongFromObjectOrReply_def getLongLong_argv is_ll_def)

lemma genericSetKey_total:
  assumes "db_ok db" and "robj_ok val"
  shows "\<exists>db'. genericSetKey e db key val keepttl = Some db' \<and> db_ok db' \<and> same_backend db db' \<and> db_dict db' key = Some val"
  using assms by (simp add: genericSetKey_eq inv_intros)

lemma setExpire_total:
  assumes "db_ok db" and "db_dict db key \<noteq> None"
  shows "setExpire db key w = Some (db_expire_at db key w)" and "db_ok (db_expire_at db key w)"
  using assms by (simp_all add: setExpire_def db_expire_at_def [symmetric] inv_intros)

end
