(* ===== verification/T_string.thy ===== *)
theory T_string
  imports Cmd
begin

text \<open>
  The string commands of \<open>src/src/t_string.c\<close>, apart from the ones that compute with
  \<open>long double\<close> (\<open>INCRBYFLOAT\<close>) and the LCS algorithm.  Sizes and sums that the code computes
  in \<open>long long\<close> or \<open>size_t\<close> are kept at their width where they can overflow.
\<close>

subsection \<open>SET and its variants\<close>

definition checkStringLength :: "int \<Rightarrow> ctx \<Rightarrow> ctx \<times> bool" where
  "checkStringLength sz c = (if sz > 512 * 1024 * 1024 then (addReply (ReplyErr ErrStringTooLong) c, False) else (c, True))"

text \<open>The bits \<open>OBJ_SET_*\<close> of the flags.\<close>

record set_flags =
  set_NX :: bool
  set_XX :: bool
  set_EX :: bool
  set_PX :: bool
  set_KEEPTTL :: bool

definition OBJ_SET_NO_FLAGS :: set_flags where
  "OBJ_SET_NO_FLAGS = \<lparr>set_NX = False, set_XX = False, set_EX = False, set_PX = False, set_KEEPTTL = False\<rparr>"

datatype time_unit = UNIT_SECONDS | UNIT_MILLISECONDS

text \<open>The expire argument in milliseconds, or the error reply; 0 without an argument.\<close>

definition set_milliseconds :: "sds \<Rightarrow> robj option \<Rightarrow> time_unit \<Rightarrow> reply_err + int" where
  "set_milliseconds cmd expire unit =
     (case expire of
        None \<Rightarrow> Inr 0
      | Some ex \<Rightarrow>
          (case getLongLongFromObject (Some ex) of
             None \<Rightarrow> Inl ErrNotInteger
           | Some ms \<Rightarrow>
               if ms \<le> 0 then Inl (ErrInvalidExpire cmd)
               else Inr (if unit = UNIT_SECONDS then sll (ms * 1000) else ms)))"

text \<open>The test of the NX and XX flags, with the lookups it makes.\<close>

definition set_aborts :: "set_flags \<Rightarrow> sds \<Rightarrow> ctx \<Rightarrow> (ctx \<times> bool) option" where
  "set_aborts flags key c = do {
     (c, nx) \<leftarrow> (if set_NX flags then do { (c, o') \<leftarrow> cx_lookupKeyWrite key c; Some (c, o' \<noteq> None) } else Some (c, False));
     (if nx then Some (c, True)
      else if set_XX flags then do { (c, o') \<leftarrow> cx_lookupKeyWrite key c; Some (c, o' = None) }
      else Some (c, False))
   }"

definition setGenericCommand :: "set_flags \<Rightarrow> sds \<Rightarrow> robj \<Rightarrow> robj option \<Rightarrow> time_unit \<Rightarrow> reply \<Rightarrow> reply \<Rightarrow> ctx \<Rightarrow> ctx option" where
  "setGenericCommand flags key val expire unit ok_reply abort_reply c =
     (case set_milliseconds (cx_cmd c) expire unit of
        Inl err \<Rightarrow> Some (addReply (ReplyErr err) c)
      | Inr ms \<Rightarrow>
          if cx_set_failed c then Some ((addReply ReplyNull c)\<lparr>cx_set_failed := False\<rparr>)
          else do {
            (c, abort) \<leftarrow> set_aborts flags key c;
            (if abort then Some (addReply abort_reply c)
             else do {
               db \<leftarrow> genericSetKey (cx_env c) (cx_db c) key val (set_KEEPTTL flags);
               db \<leftarrow> (if expire \<noteq> None then setExpire db key (sll (env_now (cx_env c) + ms)) else Some db);
               Some (addReply ok_reply (dirtied (c\<lparr>cx_db := db\<rparr>)))
             })
          })"

text \<open>\<open>a[i]\<close> of an argument, whose last byte is followed by a null byte.\<close>

definition char_at :: "sds \<Rightarrow> nat \<Rightarrow> char" where
  "char_at a i = (if i < length a then a ! i else CHR 0x00)"

definition is_opt2 :: "char \<Rightarrow> char \<Rightarrow> char \<Rightarrow> char \<Rightarrow> sds \<Rightarrow> bool" where
  "is_opt2 l0 u0 l1 u1 a \<longleftrightarrow>
     (char_at a 0 = l0 \<or> char_at a 0 = u0) \<and> (char_at a 1 = l1 \<or> char_at a 1 = u1) \<and> char_at a 2 = CHR 0x00"

definition strcasecmp_eq :: "string \<Rightarrow> string \<Rightarrow> bool" where
  "strcasecmp_eq a b \<longleftrightarrow>
     map (\<lambda>c. tolower (of_char c)) (takeWhile (\<lambda>c. c \<noteq> CHR 0x00) a) =
     map (\<lambda>c. tolower (of_char c)) (takeWhile (\<lambda>c. c \<noteq> CHR 0x00) b)"

text \<open>The loop over the options of SET; \<^const>\<open>None\<close> is the syntax error.\<close>

fun set_options :: "sds list \<Rightarrow> set_flags \<Rightarrow> sds option \<Rightarrow> time_unit \<Rightarrow> (set_flags \<times> sds option \<times> time_unit) option" where
  "set_options [] flags expire unit = Some (flags, expire, unit)"
| "set_options (a # rest) flags expire unit =
     (if is_opt2 CHR ''n'' CHR ''N'' CHR ''x'' CHR ''X'' a \<and> \<not> set_XX flags
      then set_options rest (flags\<lparr>set_NX := True\<rparr>) expire unit
      else if is_opt2 CHR ''x'' CHR ''X'' CHR ''x'' CHR ''X'' a \<and> \<not> set_NX flags
      then set_options rest (flags\<lparr>set_XX := True\<rparr>) expire unit
      else if strcasecmp_eq a ''KEEPTTL'' \<and> \<not> set_EX flags \<and> \<not> set_PX flags
      then set_options rest (flags\<lparr>set_KEEPTTL := True\<rparr>) expire unit
      else if is_opt2 CHR ''e'' CHR ''E'' CHR ''x'' CHR ''X'' a \<and> \<not> set_KEEPTTL flags \<and> \<not> set_PX flags \<and> rest \<noteq> []
      then set_options (tl rest) (flags\<lparr>set_EX := True\<rparr>) (Some (hd rest)) UNIT_SECONDS
      else if is_opt2 CHR ''p'' CHR ''P'' CHR ''x'' CHR ''X'' a \<and> \<not> set_KEEPTTL flags \<and> \<not> set_EX flags \<and> rest \<noteq> []
      then set_options (tl rest) (flags\<lparr>set_PX := True\<rparr>) (Some (hd rest)) UNIT_MILLISECONDS
      else None)"

definition setCommand :: "ctx \<Rightarrow> ctx option" where
  "setCommand c =
     (case set_options (drop 3 (cx_argv c)) OBJ_SET_NO_FLAGS None UNIT_SECONDS of
        None \<Rightarrow> Some (addReply (ReplyErr ErrSyntax) c)
      | Some (flags, expire, unit) \<Rightarrow>
          setGenericCommand flags (cx_argv c ! 1) (tryObjectEncoding 1 (argv c 2))
            (map_option createStringObject expire) unit ReplyOk ReplyNull c)"

definition setnxCommand :: "ctx \<Rightarrow> ctx option" where
  "setnxCommand c =
     setGenericCommand (OBJ_SET_NO_FLAGS\<lparr>set_NX := True\<rparr>) (cx_argv c ! 1) (tryObjectEncoding 1 (argv c 2))
       None UNIT_SECONDS (ReplyInt 1) (ReplyInt 0) c"

definition setexCommand :: "ctx \<Rightarrow> ctx option" where
  "setexCommand c =
     setGenericCommand OBJ_SET_NO_FLAGS (cx_argv c ! 1) (tryObjectEncoding 1 (argv c 3))
       (Some (argv c 2)) UNIT_SECONDS ReplyOk ReplyNull c"

definition psetexCommand :: "ctx \<Rightarrow> ctx option" where
  "psetexCommand c =
     setGenericCommand OBJ_SET_NO_FLAGS (cx_argv c ! 1) (tryObjectEncoding 1 (argv c 3))
       (Some (argv c 2)) UNIT_MILLISECONDS ReplyOk ReplyNull c"

subsection \<open>GET and its variants\<close>

text \<open>The flag is \<open>C_OK\<close>.\<close>

definition getGenericCommand :: "ctx \<Rightarrow> (ctx \<times> bool) option" where
  "getGenericCommand c = do {
     (c, o') \<leftarrow> lookupKeyReadOrReply (cx_argv c ! 1) ReplyNull c;
     (case o' of
        None \<Rightarrow> Some (c, True)
      | Some v \<Rightarrow>
          if \<not> is_string v then Some (addReply (ReplyErr ErrWrongType) c, False)
          else do { c \<leftarrow> addReplyBulk v c; Some (c, True) })
   }"

definition getCommand :: "ctx \<Rightarrow> ctx option" where
  "getCommand c = do { (c, _) \<leftarrow> getGenericCommand c; Some c }"

definition getsetCommand :: "ctx \<Rightarrow> ctx option" where
  "getsetCommand c = do {
     (c, ok) \<leftarrow> getGenericCommand c;
     (if \<not> ok then Some c
      else do {
        db \<leftarrow> setKey (cx_env c) (cx_db c) (cx_argv c ! 1) (tryObjectEncoding 1 (argv c 2));
        Some (dirtied (c\<lparr>cx_db := db\<rparr>))
      })
   }"

subsection \<open>Ranges\<close>

definition sdsgrowzero :: "sds \<Rightarrow> nat \<Rightarrow> sds" where
  "sdsgrowzero s n = (if n \<le> length s then s else s @ replicate (n - length s) CHR 0x00)"

definition memcpy :: "string \<Rightarrow> nat \<Rightarrow> string \<Rightarrow> string" where
  "memcpy dst off src = take off dst @ src @ drop (off + length src) dst"

text \<open>
  \<open>offset+sdslen(value)\<close> is a sum of a \<open>long\<close> and a \<open>size_t\<close>, which \<open>checkStringLength\<close> takes
  as a \<open>long long\<close>; a sum that comes out negative there is a request for at least \<open>2^63\<close>
  bytes for the allocator, which it cannot satisfy.
\<close>

definition setrangeCommand :: "ctx \<Rightarrow> ctx option" where
  "setrangeCommand c =
     (let v = cx_argv c ! 3
      in case getLongFromObjectOrReply (Some (argv c 2)) None c of
           (c, None) \<Rightarrow> Some c
         | (c, Some offset) \<Rightarrow>
             if offset < 0 then Some (addReply (ReplyErr ErrOffset) c)
             else do {
               (c, o') \<leftarrow> cx_lookupKeyWrite (cx_argv c ! 1) c;
               (case o' of
                  None \<Rightarrow>
                    if v = [] then Some (addReply (ReplyInt 0) c)
                    else (case checkStringLength (sll (offset + int (length v))) c of
                            (c, False) \<Rightarrow> Some c
                          | (c, True) \<Rightarrow>
                              if sll (offset + int (length v)) < 0 then None
                              else do {
                                let s = memcpy (sdsgrowzero (replicate (nat offset + length v) CHR 0x00) (nat offset + length v)) (nat offset) v;
                                db \<leftarrow> dbAdd (cx_db c) (cx_argv c ! 1) (RawStr s);
                                Some (addReply (ReplyInt (int (length s))) (dirtied (c\<lparr>cx_db := db\<rparr>)))
                              })
                | Some ob \<Rightarrow>
                    (case checkType ob c of
                       (c, True) \<Rightarrow> Some c
                     | (c, False) \<Rightarrow> do {
                         olen \<leftarrow> stringObjectLen ob;
                         (if v = [] then Some (addReply (ReplyInt (int olen)) c)
                          else (case checkStringLength (sll (offset + int (length v))) c of
                                  (c, False) \<Rightarrow> Some c
                                | (c, True) \<Rightarrow>
                                    if sll (offset + int (length v)) < 0 then None
                                    else do {
                                      (db, s) \<leftarrow> dbUnshareStringValue (cx_db c) (cx_argv c ! 1) ob;
                                      let s = memcpy (sdsgrowzero s (nat offset + length v)) (nat offset) v;
                                      db \<leftarrow> dbOverwrite db (cx_argv c ! 1) (RawStr s);
                                      Some (addReply (ReplyInt (int (length s))) (dirtied (c\<lparr>cx_db := db\<rparr>)))
                                    }))
                       }))
             })"

text \<open>
  The part of a string that GETRANGE returns; \<^const>\<open>None\<close> is the empty reply.  \<open>strlen\<close> is a
  \<open>size_t\<close>, and \<open>strlen-1\<close> of the empty string becomes -1 as a \<open>long long\<close>.
\<close>

definition getrange_bounds :: "int \<Rightarrow> int \<Rightarrow> nat \<Rightarrow> (nat \<times> nat) option" where
  "getrange_bounds start stop len =
     (if start < 0 \<and> stop < 0 \<and> start > stop then None
      else
        let start = (if start < 0 then sll (int len + start) else start);
            stop = (if stop < 0 then sll (int len + stop) else stop);
            start = (if start < 0 then 0 else start);
            stop = (if stop < 0 then 0 else stop);
            stop = (if int len \<le> stop then sll (int len - 1) else stop)
        in if start > stop \<or> len = 0 then None else Some (nat start, nat (stop - start + 1)))"

definition getrangeCommand :: "ctx \<Rightarrow> ctx option" where
  "getrangeCommand c =
     (case getLongLongFromObjectOrReply (Some (argv c 2)) c of
        (c, None) \<Rightarrow> Some c
      | (c, Some start) \<Rightarrow>
          (case getLongLongFromObjectOrReply (Some (argv c 3)) c of
             (c, None) \<Rightarrow> Some c
           | (c, Some stop) \<Rightarrow> do {
               (c, o') \<leftarrow> lookupKeyReadOrReply (cx_argv c ! 1) (ReplyBulk []) c;
               (case o' of
                  None \<Rightarrow> Some c
                | Some ob \<Rightarrow>
                    (case checkType ob c of
                       (c, True) \<Rightarrow> Some c
                     | (c, False) \<Rightarrow> do {
                         str \<leftarrow> cmp_bytes ob;
                         Some (case getrange_bounds start stop (length str) of
                                 None \<Rightarrow> addReply (ReplyBulk []) c
                               | Some (from, n) \<Rightarrow> addReply (ReplyBulk (take n (drop from str))) c)
                       }))
             }))"

subsection \<open>Several keys at once\<close>

fun mget_loop :: "sds list \<Rightarrow> ctx \<Rightarrow> ctx option" where
  "mget_loop [] c = Some c"
| "mget_loop (key # keys) c = do {
     (c, o') \<leftarrow> cx_lookupKeyRead key c;
     c \<leftarrow> (case o' of
            None \<Rightarrow> Some (addReply ReplyNull c)
          | Some ob \<Rightarrow> if \<not> is_string ob then Some (addReply ReplyNull c) else addReplyBulk ob c);
     mget_loop keys c
   }"

definition mgetCommand :: "ctx \<Rightarrow> ctx option" where
  "mgetCommand c = mget_loop (drop 1 (cx_argv c)) (addReply (ReplyArrayLen (argc c - 1)) c)"

text \<open>The NX loop: whether a key of the pairs exists.\<close>

fun msetnx_loop :: "sds list \<Rightarrow> ctx \<Rightarrow> (ctx \<times> bool) option" where
  "msetnx_loop (key # val # rest) c = do {
     (c, o') \<leftarrow> cx_lookupKeyWrite key c;
     (if o' \<noteq> None then Some (c, True) else msetnx_loop rest c)
   }"
| "msetnx_loop _ c = Some (c, False)"

fun mset_loop :: "sds list \<Rightarrow> ctx \<Rightarrow> ctx option" where
  "mset_loop (key # val # rest) c = do {
     db \<leftarrow> setKey (cx_env c) (cx_db c) key (tryObjectEncoding 1 (createStringObject val));
     mset_loop rest (c\<lparr>cx_db := db\<rparr>)
   }"
| "mset_loop _ c = Some c"

definition msetGenericCommand :: "bool \<Rightarrow> ctx \<Rightarrow> ctx option" where
  "msetGenericCommand nx c =
     (if argc c mod 2 = 0 then Some (addReply (ReplyErr ErrMsetArgs) c)
      else do {
        (c, exists) \<leftarrow> (if nx then msetnx_loop (drop 1 (cx_argv c)) c else Some (c, False));
        (if exists then Some (addReply (ReplyInt 0) c)
         else do {
           c \<leftarrow> mset_loop (drop 1 (cx_argv c)) c;
           Some (addReply (if nx then ReplyInt 1 else ReplyOk) (c\<lparr>cx_dirty := cx_dirty c + (argc c - 1) div 2\<rparr>))
         })
      })"

definition msetCommand :: "ctx \<Rightarrow> ctx option" where
  "msetCommand c = msetGenericCommand False c"

definition msetnxCommand :: "ctx \<Rightarrow> ctx option" where
  "msetnxCommand c = msetGenericCommand True c"

subsection \<open>Counters\<close>

definition incrDecrCommand :: "int \<Rightarrow> ctx \<Rightarrow> ctx option" where
  "incrDecrCommand incr c = do {
     (c, o') \<leftarrow> cx_lookupKeyWrite (cx_argv c ! 1) c;
     (case (case o' of None \<Rightarrow> (c, False) | Some ob \<Rightarrow> checkType ob c) of
        (c, True) \<Rightarrow> Some c
      | (c, False) \<Rightarrow>
          (case getLongLongFromObjectOrReply o' c of
             (c, None) \<Rightarrow> Some c
           | (c, Some oldvalue) \<Rightarrow>
               if (incr < 0 \<and> oldvalue < 0 \<and> incr < sll (LLONG_MIN - oldvalue)) \<or>
                  (incr > 0 \<and> oldvalue > 0 \<and> incr > sll (LLONG_MAX - oldvalue))
               then Some (addReply (ReplyErr ErrOverflow) c)
               else
                 let v = sll (oldvalue + incr)
                 in do {
                   db \<leftarrow> (if o' \<noteq> None then dbOverwrite (cx_db c) (cx_argv c ! 1) (createStringObjectFromLongLong v)
                          else dbAdd (cx_db c) (cx_argv c ! 1) (createStringObjectFromLongLong v));
                   Some (addReply (ReplyInt v) (dirtied (c\<lparr>cx_db := db\<rparr>)))
                 }))
   }"

definition incrCommand :: "ctx \<Rightarrow> ctx option" where
  "incrCommand c = incrDecrCommand 1 c"

definition decrCommand :: "ctx \<Rightarrow> ctx option" where
  "decrCommand c = incrDecrCommand (-1) c"

definition incrbyCommand :: "ctx \<Rightarrow> ctx option" where
  "incrbyCommand c =
     (case getLongLongFromObjectOrReply (Some (argv c 2)) c of
        (c, None) \<Rightarrow> Some c
      | (c, Some incr) \<Rightarrow> incrDecrCommand incr c)"

definition decrbyCommand :: "ctx \<Rightarrow> ctx option" where
  "decrbyCommand c =
     (case getLongLongFromObjectOrReply (Some (argv c 2)) c of
        (c, None) \<Rightarrow> Some c
      | (c, Some incr) \<Rightarrow> incrDecrCommand (sll (- incr)) c)"

subsection \<open>APPEND and STRLEN\<close>

definition appendCommand :: "ctx \<Rightarrow> ctx option" where
  "appendCommand c = do {
     (c, o') \<leftarrow> cx_lookupKeyWrite (cx_argv c ! 1) c;
     (case o' of
        None \<Rightarrow> do {
          let val = tryObjectEncoding 1 (argv c 2);
          db \<leftarrow> dbAdd (cx_db c) (cx_argv c ! 1) val;
          totlen \<leftarrow> stringObjectLen val;
          Some (addReply (ReplyInt (int totlen)) (dirtied (c\<lparr>cx_db := db\<rparr>)))
        }
      | Some ob \<Rightarrow>
          (case checkType ob c of
             (c, True) \<Rightarrow> Some c
           | (c, False) \<Rightarrow> do {
               olen \<leftarrow> stringObjectLen ob;
               (case checkStringLength (int (olen + length (cx_argv c ! 2))) c of
                  (c, False) \<Rightarrow> Some c
                | (c, True) \<Rightarrow> do {
                    (db, s) \<leftarrow> dbUnshareStringValue (cx_db c) (cx_argv c ! 1) ob;
                    let s = s @ cx_argv c ! 2;
                    db \<leftarrow> dbOverwrite db (cx_argv c ! 1) (RawStr s);
                    Some (addReply (ReplyInt (int (length s))) (dirtied (c\<lparr>cx_db := db\<rparr>)))
                  })
             }))
   }"

definition strlenCommand :: "ctx \<Rightarrow> ctx option" where
  "strlenCommand c = do {
     (c, o') \<leftarrow> lookupKeyReadOrReply (cx_argv c ! 1) (ReplyInt 0) c;
     (case o' of
        None \<Rightarrow> Some c
      | Some ob \<Rightarrow>
          (case checkType ob c of
             (c, True) \<Rightarrow> Some c
           | (c, False) \<Rightarrow> do { n \<leftarrow> stringObjectLen ob; Some (addReply (ReplyInt (int n)) c) }))
   }"

subsection \<open>The commands do not abort\<close>

lemma set_aborts_eq:
  assumes "db_ok (cx_db c)"
  shows "\<exists>c'. set_aborts flags key c = Some (c',
      (set_NX flags \<and> db_dict (purge (cx_env c) (cx_db c) key) key \<noteq> None) \<or>
      (set_XX flags \<and> db_dict (purge (cx_env c) (cx_db c) key) key = None)) \<and>
    (c' = c \<or> c' = c\<lparr>cx_db := purge (cx_env c) (cx_db c) key\<rparr>)"
  using assms by (auto simp: set_aborts_def cx_lookupKeyWrite_eq purge_idem)

lemma setGenericCommand_total [cmd_intros]:
  assumes "db_ok (cx_db c)" and "robj_ok val"
  shows "cmd_total c (setGenericCommand flags key val expire unit ok_reply abort_reply c)"
proof (cases "set_milliseconds (cx_cmd c) expire unit")
  case (Inr ms)
  obtain c' b where a: "set_aborts flags key c = Some (c', b)" and c': "c' = c \<or> c' = c\<lparr>cx_db := purge (cx_env c) (cx_db c) key\<rparr>"
    using set_aborts_eq [OF assms(1)] by blast
  have g: "cmd_ok c c'"
    using c' assms(1) cmd_ok_refl by auto
  obtain db where db: "genericSetKey (cx_env c') (cx_db c') key val (set_KEEPTTL flags) = Some db" "db_ok db"
    "same_backend (cx_db c') db" "db_dict db key = Some val"
    using genericSetKey_total [OF cmd_ok_db_ok [OF g] assms(2)] by blast
  have "cmd_ok c (c'\<lparr>cx_db := db\<rparr>)" "cmd_ok c (c'\<lparr>cx_db := db_expire_at db key w\<rparr>)" for w
    using db setExpire_total(2) [OF db(2), of key w] by (simp_all add: cmd_ok_db [OF g])
  then show ?thesis
    using Inr a g db setExpire_total(1) [OF db(2), of key] assms(1) cmd_ok_refl
    by (simp add: setGenericCommand_def cmd_total_def)
qed (simp add: setGenericCommand_def cmd_total_def cmd_ok_refl assms(1))

lemma setCommand_total [cmd_intros]: "db_ok (cx_db c) \<Longrightarrow> cmd_total c (setCommand c)"
  by (auto simp: setCommand_def cmd_intros cmd_total_def [of c "Some _"] cmd_ok_refl split: option.splits)

lemma set_variants_total [cmd_intros]:
  "db_ok (cx_db c) \<Longrightarrow> cmd_total c (setnxCommand c)"
  "db_ok (cx_db c) \<Longrightarrow> cmd_total c (setexCommand c)"
  "db_ok (cx_db c) \<Longrightarrow> cmd_total c (psetexCommand c)"
  by (simp_all add: setnxCommand_def setexCommand_def psetexCommand_def cmd_intros)

lemma getGenericCommand_eq:
  assumes "db_ok (cx_db c)"
  shows "getGenericCommand c =
    (let c' = c\<lparr>cx_db := purge (cx_env c) (cx_db c) (cx_argv c ! 1)\<rparr>
     in case readable (cx_env c) (cx_db c) (cx_argv c ! 1) of
          None \<Rightarrow> Some (addReply ReplyNull c', True)
        | Some o' \<Rightarrow>
            if is_string o' then Some (addReply (ReplyBulk (obj_string o')) c', True)
            else Some (addReply (ReplyErr ErrWrongType) c', False))"
  using assms
  by (auto simp: getGenericCommand_def lookupKeyReadOrReply_def cx_lookupKeyRead_eq addReplyBulk_eq readable_robj_ok
      split: option.splits)

lemma getCommand_total [cmd_intros]: "db_ok (cx_db c) \<Longrightarrow> cmd_total c (getCommand c)"
  by (auto simp: getCommand_def getGenericCommand_eq cmd_total_def Let_def split: option.splits)

lemma getsetCommand_total [cmd_intros]:
  assumes "db_ok (cx_db c)"
  shows "cmd_total c (getsetCommand c)"
proof -
  obtain c1 ok where g: "getGenericCommand c = Some (c1, ok)" "cmd_ok c c1"
    using getGenericCommand_eq [OF assms] assms by (auto simp: Let_def split: option.splits if_splits)
  obtain db where "genericSetKey (cx_env c1) (cx_db c1) (cx_argv c1 ! 1) (tryObjectEncoding 1 (argv c1 2)) False = Some db"
    "db_ok db" "same_backend (cx_db c1) db"
    using genericSetKey_total [OF cmd_ok_db_ok [OF g(2)] robj_ok_tryObjectEncoding(1) [OF argv_ok(1)]] by blast
  then show ?thesis
    using g by (simp add: getsetCommand_def setKey_def cmd_total_def cmd_ok_db)
qed

lemma checkType_eq: "checkType o' c = (if is_string o' then c else addReply (ReplyErr ErrWrongType) c, \<not> is_string o')"
  by (simp add: checkType_def)

lemma checkStringLength_eq:
  "checkStringLength sz c = (if sz > 536870912 then (addReply (ReplyErr ErrStringTooLong) c, False) else (c, True))"
  by (simp add: checkStringLength_def)

lemma getrangeCommand_total [cmd_intros]: "db_ok (cx_db c) \<Longrightarrow> cmd_total c (getrangeCommand c)"
  by (auto simp: getrangeCommand_def getLongLongFromObjectOrReply_argv lookupKeyReadOrReply_def cx_lookupKeyRead_eq
      checkType_eq cmp_bytes_string readable_robj_ok cmd_total_def cmd_ok_refl split: option.splits)

lemma strlenCommand_total [cmd_intros]: "db_ok (cx_db c) \<Longrightarrow> cmd_total c (strlenCommand c)"
  by (auto simp: strlenCommand_def lookupKeyReadOrReply_def cx_lookupKeyRead_eq checkType_eq stringObjectLen_string
      readable_robj_ok cmd_total_def split: option.splits)

lemma mget_loop_total: "cmd_ok c c1 \<Longrightarrow> cmd_total c (mget_loop keys c1)"
proof (induction keys arbitrary: c1)
  case (Cons key keys)
  have ok: "db_ok (cx_db c1)" by (rule cmd_ok_db_ok [OF Cons.prems])
  have p: "cmd_ok c (c1\<lparr>cx_db := purge (cx_env c1) (cx_db c1) key\<rparr>)"
    by (simp add: cmd_ok_db [OF Cons.prems] ok)
  show ?case
    using Cons.IH [OF cmd_ok_addReply [OF p]] ok
    by (auto simp: cx_lookupKeyRead_eq addReplyBulk_eq readable_robj_ok split: option.splits)
qed (simp add: cmd_total_def)

lemma mgetCommand_total [cmd_intros]: "db_ok (cx_db c) \<Longrightarrow> cmd_total c (mgetCommand c)"
  by (simp add: mgetCommand_def mget_loop_total cmd_ok_refl)

lemma msetnx_loop_total: "cmd_ok c c1 \<Longrightarrow> \<exists>c2 b. msetnx_loop args c1 = Some (c2, b) \<and> cmd_ok c c2"
proof (induction args c1 rule: msetnx_loop.induct)
  case (1 key val rest c1)
  have ok: "db_ok (cx_db c1)" by (rule cmd_ok_db_ok [OF "1.prems"])
  have p: "cmd_ok c (c1\<lparr>cx_db := purge (cx_env c1) (cx_db c1) key\<rparr>)"
    by (simp add: cmd_ok_db [OF "1.prems"] ok)
  show ?case
    using "1.IH" [OF _ refl] p ok by (auto simp: cx_lookupKeyWrite_eq)
qed auto

lemma mset_loop_total: "cmd_ok c c1 \<Longrightarrow> cmd_total c (mset_loop args c1)"
proof (induction args c1 rule: mset_loop.induct)
  case (1 key val rest c1)
  have ok: "db_ok (cx_db c1)" by (rule cmd_ok_db_ok [OF "1.prems"])
  obtain db where "setKey (cx_env c1) (cx_db c1) key (tryObjectEncoding 1 (createStringObject val)) = Some db"
    "db_ok db" "same_backend (cx_db c1) db"
    using genericSetKey_total [OF ok robj_ok_tryObjectEncoding(1) [OF createStringObject_simps(2)]]
    unfolding setKey_def by blast
  with "1.IH" [of db] "1.prems" show ?case by (simp add: cmd_ok_db)
qed (simp_all add: cmd_total_def)

lemma mset_total [cmd_intros]:
  "db_ok (cx_db c) \<Longrightarrow> cmd_total c (msetCommand c)"
  "db_ok (cx_db c) \<Longrightarrow> cmd_total c (msetnxCommand c)"
proof -
  assume ok: "db_ok (cx_db c)"
  have "cmd_total c (msetGenericCommand nx c)" for nx
  proof -
    obtain c1 b where n: "(if nx then msetnx_loop (drop 1 (cx_argv c)) c else Some (c, False)) = Some (c1, b)" "cmd_ok c c1"
      using msetnx_loop_total [OF cmd_ok_refl [OF ok], of "drop 1 (cx_argv c)"] cmd_ok_refl [OF ok] by (cases nx) auto
    obtain c2 where "mset_loop (drop 1 (cx_argv c1)) c1 = Some c2" "cmd_ok c c2"
      using mset_loop_total [OF n(2)] by (auto simp: cmd_total_def)
    then show ?thesis
      using n ok by (simp add: msetGenericCommand_def cmd_total_def cmd_ok_refl)
  qed
  then show "cmd_total c (msetCommand c)" "cmd_total c (msetnxCommand c)"
    by (simp_all add: msetCommand_def msetnxCommand_def)
qed

lemma sll_id: "is_ll v \<Longrightarrow> sll v = v"
  by (simp add: sll_def is_ll_def LLONG_MIN_def LLONG_MAX_def)

lemma is_ll_sll [simp]: "is_ll (sll v)"
proof -
  have "0 \<le> (v + 9223372036854775808) mod 18446744073709551616"
    "(v + 9223372036854775808) mod 18446744073709551616 < 18446744073709551616" by simp_all
  then show ?thesis
    unfolding sll_def is_ll_def LLONG_MIN_def LLONG_MAX_def by linarith
qed

text \<open>The two tests of the code find exactly the sums that do not fit.\<close>

lemma incr_overflow_iff:
  assumes "is_ll incr" and "is_ll old"
  shows "(incr < 0 \<and> old < 0 \<and> incr < sll (LLONG_MIN - old)) \<or> (incr > 0 \<and> old > 0 \<and> incr > sll (LLONG_MAX - old))
    \<longleftrightarrow> \<not> is_ll (old + incr)"
proof -
  have "old < 0 \<Longrightarrow> sll (LLONG_MIN - old) = LLONG_MIN - old" "old > 0 \<Longrightarrow> sll (LLONG_MAX - old) = LLONG_MAX - old"
    using assms by (auto intro!: sll_id simp: is_ll_def LLONG_MIN_def LLONG_MAX_def)
  then show ?thesis
    using assms by (auto simp: is_ll_def LLONG_MIN_def LLONG_MAX_def)
qed

lemma getLongLong_ok_ll:
  assumes "\<And>ob. o' = Some ob \<Longrightarrow> robj_ok ob" and "getLongLongFromObject o' = Some v"
  shows "is_ll v"
  using getLongLongFromObject_ll assms by blast

lemma incrDecrCommand_eq:
  assumes ok: "db_ok (cx_db c)" and ll: "is_ll incr"
  shows "incrDecrCommand incr c =
    (let key = cx_argv c ! 1; db = purge (cx_env c) (cx_db c) key; c = c\<lparr>cx_db := db\<rparr>
     in if \<exists>ob. db_dict db key = Some ob \<and> \<not> is_string ob then Some (addReply (ReplyErr ErrWrongType) c)
        else case getLongLongFromObject (db_dict db key) of
            None \<Rightarrow> Some (addReply (ReplyErr ErrNotInteger) c)
          | Some old \<Rightarrow>
              if \<not> is_ll (old + incr) then Some (addReply (ReplyErr ErrOverflow) c)
              else Some (addReply (ReplyInt (old + incr)) (dirtied (c\<lparr>cx_db := db_put db key (IntStr (old + incr))\<rparr>))))"
proof -
  define key where "key = cx_argv c ! 1"
  define db where "db = purge (cx_env c) (cx_db c) key"
  have dbok: "db_ok db" using ok by (simp add: db_def)
  have l: "cx_lookupKeyWrite (cx_argv c ! 1) c = Some (c\<lparr>cx_db := db\<rparr>, db_dict db key)"
    using ok by (simp add: cx_lookupKeyWrite_eq db_def key_def)
  have k: "cx_argv c ! Suc 0 = key" "purge (cx_env c) (cx_db c) key = db"
    by (simp_all add: key_def db_def)
  show ?thesis
  proof (cases "getLongLongFromObject (db_dict db key)")
    case None
    then show ?thesis
      unfolding incrDecrCommand_def l
      by (auto simp: Let_def getLongLongFromObjectOrReply_def checkType_eq k
          split: option.splits)
  next
    case (Some old)
    have "is_ll old"
      using getLongLong_ok_ll [OF _ Some] db_okD(2) [OF dbok, of key] by blast
    note ov = incr_overflow_iff [OF ll this]
    show ?thesis
      using Some sll_id [of "old + incr"]
      unfolding incrDecrCommand_def l
      by (auto simp: Let_def getLongLongFromObjectOrReply_def checkType_eq k ov
          dbAdd_def dbOverwrite_def db_put_def split: option.splits)
  qed
qed

lemma incrDecrCommand_total:
  assumes "db_ok (cx_db c)" and "is_ll incr"
  shows "cmd_total c (incrDecrCommand incr c)"
  using assms
  by (auto simp: incrDecrCommand_eq Let_def cmd_total_def cmd_ok_db cmd_ok_refl inv_intros split: option.splits)

lemma string2ll_ll: "string2ll s = Some v \<Longrightarrow> is_ll v"
  by (simp add: string2ll_iff)

lemma incr_total [cmd_intros]:
  "db_ok (cx_db c) \<Longrightarrow> cmd_total c (incrCommand c)"
  "db_ok (cx_db c) \<Longrightarrow> cmd_total c (decrCommand c)"
  "db_ok (cx_db c) \<Longrightarrow> cmd_total c (incrbyCommand c)"
  "db_ok (cx_db c) \<Longrightarrow> cmd_total c (decrbyCommand c)"
proof -
  assume ok: "db_ok (cx_db c)"
  have 1: "is_ll 1" "is_ll (-1)" by (simp_all add: is_ll_def LLONG_MIN_def LLONG_MAX_def)
  show "cmd_total c (incrCommand c)" "cmd_total c (decrCommand c)"
    using ok 1 by (simp_all add: incrCommand_def decrCommand_def incrDecrCommand_total)
  show "cmd_total c (incrbyCommand c)" "cmd_total c (decrbyCommand c)"
    using ok
    by (auto simp: incrbyCommand_def decrbyCommand_def getLongLongFromObjectOrReply_argv incrDecrCommand_total string2ll_ll
        cmd_total_def [of c "Some _"] cmd_ok_refl split: option.splits)
qed

lemma appendCommand_eq:
  assumes ok: "db_ok (cx_db c)"
  shows "appendCommand c =
    (let key = cx_argv c ! 1; db = purge (cx_env c) (cx_db c) key; c = c\<lparr>cx_db := db\<rparr>
     in case db_dict db key of
          None \<Rightarrow> Some (addReply (ReplyInt (int (length (cx_argv c ! 2))))
                     (dirtied (c\<lparr>cx_db := db_put db key (tryObjectEncoding 1 (argv c 2))\<rparr>)))
        | Some ob \<Rightarrow>
            if \<not> is_string ob then Some (addReply (ReplyErr ErrWrongType) c)
            else if int (length (obj_string ob @ cx_argv c ! 2)) > 536870912
            then Some (addReply (ReplyErr ErrStringTooLong) c)
            else Some (addReply (ReplyInt (int (length (obj_string ob @ cx_argv c ! 2))))
                   (dirtied (c\<lparr>cx_db := db_put db key (RawStr (obj_string ob @ cx_argv c ! 2))\<rparr>))))"
proof -
  define key where "key = cx_argv c ! 1"
  define db where "db = purge (cx_env c) (cx_db c) key"
  have dbok: "db_ok db" using ok by (simp add: db_def)
  have l: "cx_lookupKeyWrite (cx_argv c ! 1) c = Some (c\<lparr>cx_db := db\<rparr>, db_dict db key)"
    using ok by (simp add: cx_lookupKeyWrite_eq db_def key_def)
  have k: "cx_argv c ! Suc 0 = key" "purge (cx_env c) (cx_db c) key = db"
    by (simp_all add: key_def db_def)
  show ?thesis
  proof (cases "db_dict db key")
    case None
    then show ?thesis
      unfolding appendCommand_def l
      by (simp add: Let_def k dbAdd_def db_put_def stringObjectLen_string argv_def)
  next
    case (Some ob)
    have rok: "robj_ok ob" by (rule db_okD(2) [OF dbok Some])
    show ?thesis
    proof (cases "is_string ob")
      case True
      then show ?thesis
        using Some rok dbUnshareStringValue_ok [OF Some True rok]
        unfolding appendCommand_def l
        by (simp add: Let_def k checkType_eq stringObjectLen_string checkStringLength_eq
            dbOverwrite_def db_put_def argv_def)
    next
      case False
      with Some show ?thesis
        unfolding appendCommand_def l by (simp add: Let_def k checkType_eq)
    qed
  qed
qed

lemma appendCommand_total [cmd_intros]: "db_ok (cx_db c) \<Longrightarrow> cmd_total c (appendCommand c)"
  by (auto simp: appendCommand_eq Let_def cmd_total_def cmd_ok_db cmd_ok_refl inv_intros split: option.splits)

lemma sll_overflow_neg:
  assumes "0 \<le> a" "is_ll a" "0 \<le> b" "b < 4611686018427387904" "\<not> is_ll (a + b)"
  shows "sll (a + b) < 0"
proof -
  let ?x = "a + b + 9223372036854775808 - 18446744073709551616"
  have "(a + b + 9223372036854775808) mod 18446744073709551616 = ?x mod 18446744073709551616"
    by (rule minus_mod_self2 [symmetric])
  also have "\<dots> = ?x"
    using assms by (simp add: is_ll_def LLONG_MIN_def LLONG_MAX_def)
  finally show ?thesis
    using assms unfolding sll_def is_ll_def LLONG_MIN_def LLONG_MAX_def by linarith
qed

lemma length_memcpy_grow:
  "length (memcpy (sdsgrowzero s (off + length v)) off v) = max (length s) (off + length v)"
  by (auto simp: memcpy_def sdsgrowzero_def)

text \<open>The string that SETRANGE stores over \<open>s\<close>.\<close>

definition setrange_result :: "sds \<Rightarrow> nat \<Rightarrow> sds \<Rightarrow> sds" where
  "setrange_result s off v = memcpy (sdsgrowzero s (off + length v)) off v"

lemma setrangeCommand_eq:
  assumes ok: "db_ok (cx_db c)"
  shows "setrangeCommand c =
    (let key = cx_argv c ! 1; v = cx_argv c ! 3; db = purge (cx_env c) (cx_db c) key; c' = c\<lparr>cx_db := db\<rparr>
     in case string2ll (cx_argv c ! 2) of
          None \<Rightarrow> Some (addReply (ReplyErr ErrNotInteger) c)
        | Some off \<Rightarrow>
            if off < 0 then Some (addReply (ReplyErr ErrOffset) c)
            else if \<exists>ob. db_dict db key = Some ob \<and> \<not> is_string ob then Some (addReply (ReplyErr ErrWrongType) c')
            else let s = (case db_dict db key of None \<Rightarrow> [] | Some ob \<Rightarrow> obj_string ob)
            in if v = [] then Some (addReply (ReplyInt (int (length s))) c')
               else if sll (off + int (length v)) > 536870912 then Some (addReply (ReplyErr ErrStringTooLong) c')
               else if sll (off + int (length v)) < 0 then None
               else let s' = setrange_result s (nat off) v
                    in Some (addReply (ReplyInt (int (length s'))) (dirtied (c'\<lparr>cx_db := db_put db key (RawStr s')\<rparr>))))"
proof -
  define key where "key = cx_argv c ! 1"
  define db where "db = purge (cx_env c) (cx_db c) key"
  have dbok: "db_ok db" using ok by (simp add: db_def)
  have l: "cx_lookupKeyWrite key c = Some (c\<lparr>cx_db := db\<rparr>, db_dict db key)"
    using ok by (simp add: cx_lookupKeyWrite_eq db_def key_def)
  have k: "cx_argv c ! Suc 0 = key" "purge (cx_env c) (cx_db c) key = db"
    by (simp_all add: key_def db_def)
  have grow: "sdsgrowzero (replicate n CHR 0x00) n = sdsgrowzero [] n" for n
    by (simp add: sdsgrowzero_def)
  show ?thesis
  proof (cases "string2ll (cx_argv c ! 2)")
    case None
    then show ?thesis
      by (simp add: setrangeCommand_def getLongFromObjectOrReply_argv)
  next
    case (Some off)
    show ?thesis
    proof (cases "db_dict db key")
      case None
      with Some show ?thesis
        unfolding setrangeCommand_def getLongFromObjectOrReply_argv
        by (simp add: l Let_def k checkStringLength_eq dbAdd_def db_put_def setrange_result_def grow)
    next
      case ob: (Some ob)
      have rok: "robj_ok ob" by (rule db_okD(2) [OF dbok ob])
      show ?thesis
      proof (cases "is_string ob")
        case True
        then show ?thesis
          using Some ob rok dbUnshareStringValue_ok [OF ob True rok]
          unfolding setrangeCommand_def getLongFromObjectOrReply_argv
          by (simp add: l Let_def k checkType_eq checkStringLength_eq stringObjectLen_string dbOverwrite_def
              db_put_def setrange_result_def)
      next
        case False
        with Some ob show ?thesis
          unfolding setrangeCommand_def getLongFromObjectOrReply_argv
          by (simp add: l Let_def k checkType_eq)
      qed
    qed
  qed
qed

text \<open>The sum of the offset and the length of the value of a SETRANGE fits a \<open>long long\<close>.\<close>

definition setrange_fits :: "ctx \<Rightarrow> bool" where
  "setrange_fits c \<longleftrightarrow>
     (case string2ll (cx_argv c ! 2) of None \<Rightarrow> True | Some off \<Rightarrow> off < 0 \<or> is_ll (off + int (length (cx_argv c ! 3))))"

lemma setrangeCommand_total [cmd_intros]:
  assumes "db_ok (cx_db c)" and "setrange_fits c"
  shows "cmd_total c (setrangeCommand c)"
proof -
  have "\<not> sll (off + int (length (cx_argv c ! 3))) < 0" if "string2ll (cx_argv c ! 2) = Some off" "\<not> off < 0" for off
    using assms(2) that by (simp add: setrange_fits_def sll_id)
  then show ?thesis
    using assms(1)
    by (auto simp: setrangeCommand_eq Let_def cmd_total_def cmd_ok_db cmd_ok_refl inv_intros split: option.splits)
qed

subsection \<open>Properties of the string commands\<close>


lemma setGenericCommand_effect:
  assumes ok: "db_ok (cx_db c)" and m: "\<not> env_slave (cx_env c)" and v: "robj_ok val"
    and ms: "set_milliseconds (cx_cmd c) expire unit = Inr ms" and f: "\<not> cx_set_failed c"
  shows "\<exists>c'. setGenericCommand flags key val expire unit ok_reply abort_reply c = Some c' \<and>
    (if (set_NX flags \<and> live (cx_env c) (cx_db c) key \<noteq> None) \<or> (set_XX flags \<and> live (cx_env c) (cx_db c) key = None)
     then live (cx_env c) (cx_db c') = live (cx_env c) (cx_db c) \<and> live_ttl (cx_env c) (cx_db c') = live_ttl (cx_env c) (cx_db c) \<and>
       cx_out c' = cx_out c @ [abort_reply] \<and> cx_dirty c' = cx_dirty c
     else db_dict (cx_db c') key = Some val \<and>
       db_expires (cx_db c') key =
         (if expire \<noteq> None then Some (sll (env_now (cx_env c) + ms))
          else if set_KEEPTTL flags then live_ttl (cx_env c) (cx_db c) key else None) \<and>
       (\<forall>k. k \<noteq> key \<longrightarrow> db_dict (cx_db c') k = db_dict (cx_db c) k \<and> db_expires (cx_db c') k = db_expires (cx_db c) k) \<and>
       cx_out c' = cx_out c @ [ok_reply] \<and> cx_dirty c' = cx_dirty c + 1)"
proof -
  let ?p = "purge (cx_env c) (cx_db c) key"
  have l: "db_dict ?p key = live (cx_env c) (cx_db c) key"
    using m by simp
  have po: "k \<noteq> key \<Longrightarrow> db_dict ?p k = db_dict (cx_db c) k \<and> db_expires ?p k = db_expires (cx_db c) k" for k
    by (simp add: purge_def)
  obtain c1 where a: "set_aborts flags key c = Some (c1,
      (set_NX flags \<and> live (cx_env c) (cx_db c) key \<noteq> None) \<or> (set_XX flags \<and> live (cx_env c) (cx_db c) key = None))"
    and c1: "c1 = c \<or> c1 = c\<lparr>cx_db := ?p\<rparr>"
    using set_aborts_eq [OF ok, of flags key] l by auto
  have e: "cx_env c1 = cx_env c" "purge (cx_env c) (cx_db c1) key = ?p" "db_ok (cx_db c1)" "cx_out c1 = cx_out c" "cx_dirty c1 = cx_dirty c"
    "live (cx_env c) (cx_db c1) = live (cx_env c) (cx_db c)" "live_ttl (cx_env c) (cx_db c1) = live_ttl (cx_env c) (cx_db c)"
    using c1 ok m by (auto simp: purge_idem)
  have gs: "genericSetKey (cx_env c1) (cx_db c1) key val kt =
      Some (if kt then db_put ?p key val else db_persist (db_put ?p key val) key)" for kt
    using genericSetKey_eq [OF e(3), of "cx_env c1" key val kt] e(1,2) by simp
  have pt: "db_expires ?p key = live_ttl (cx_env c) (cx_db c) key"
    using m by simp
  show ?thesis
    using a ms f e gs po pt by (auto simp: setGenericCommand_def setExpire_def db_expire_at_def [symmetric])
qed

text \<open>A server that is neither a replica nor loading, at time 1000, with an empty database.\<close>

definition env_ex :: dbenv where
  "env_ex = \<lparr>env_now = 1000, env_slave = False, env_loading = False, env_readonly = False,
     env_lazy_expire = False, env_lazy_user_del = False, env_lazy_server_del = False\<rparr>"

definition db_ex :: redisDb where
  "db_ex = \<lparr>db_dict = Map.empty, db_expires = Map.empty, backendGetKeys = dictCreate (\<lambda>_. 0),
     backendSetKeys = dictCreate (\<lambda>_. 0), backendDelKeys = dictCreate (\<lambda>_. 0)\<rparr>"

definition ctx_ex :: "sds list \<Rightarrow> redisDb \<Rightarrow> ctx" where
  "ctx_ex av db = \<lparr>cx_env = env_ex, cx_db = db, cx_cmd = hd av, cx_argv = av, cx_out = [], cx_dirty = 0,
     cx_set_failed = False, cx_del_failed = False\<rparr>"

lemma ex_simps [simp]:
  "db_ok db_ex" "\<not> env_slave env_ex" "env_now env_ex = 1000" "\<not> env_loading env_ex"
  "db_dict db_ex = Map.empty" "db_expires db_ex = Map.empty"
  "cx_env (ctx_ex av db) = env_ex" "cx_db (ctx_ex av db) = db" "cx_argv (ctx_ex av db) = av" "cx_out (ctx_ex av db) = []"
  "cx_dirty (ctx_ex av db) = 0" "\<not> cx_set_failed (ctx_ex av db)" "\<not> cx_del_failed (ctx_ex av db)"
  by (simp_all add: db_ok_def db_ex_def env_ex_def ctx_ex_def)

text \<open>
  C19. What SET does, on a server that is not a replica and on a client whose backend write
  has not failed: when NX finds the key or XX does not, nothing changes and the abort reply
  is sent; otherwise the value is stored, the expire time is the given one, or is kept with
  KEEPTTL, or is removed, every other key is untouched, and exactly one reply is sent and one
  change counted.
\<close>

theorem set_effect:
  assumes "db_ok (cx_db c)" and "\<not> env_slave (cx_env c)" and "robj_ok val"
    and "set_milliseconds (cx_cmd c) expire unit = Inr ms" and "\<not> cx_set_failed c"
  shows "\<exists>c'. setGenericCommand flags key val expire unit ok_reply abort_reply c = Some c' \<and>
    (if (set_NX flags \<and> live (cx_env c) (cx_db c) key \<noteq> None) \<or> (set_XX flags \<and> live (cx_env c) (cx_db c) key = None)
     then live (cx_env c) (cx_db c') = live (cx_env c) (cx_db c) \<and> live_ttl (cx_env c) (cx_db c') = live_ttl (cx_env c) (cx_db c) \<and>
       cx_out c' = cx_out c @ [abort_reply] \<and> cx_dirty c' = cx_dirty c
     else db_dict (cx_db c') key = Some val \<and>
       db_expires (cx_db c') key =
         (if expire \<noteq> None then Some (sll (env_now (cx_env c) + ms))
          else if set_KEEPTTL flags then live_ttl (cx_env c) (cx_db c) key else None) \<and>
       (\<forall>k. k \<noteq> key \<longrightarrow> db_dict (cx_db c') k = db_dict (cx_db c) k \<and> db_expires (cx_db c') k = db_expires (cx_db c) k) \<and>
       cx_out c' = cx_out c @ [ok_reply] \<and> cx_dirty c' = cx_dirty c + 1)"
  using assms by (rule setGenericCommand_effect)

theorem set_effect_witness:
  "\<exists>c'. setGenericCommand OBJ_SET_NO_FLAGS ''k'' (RawStr ''v'') (Some (IntStr 5)) UNIT_SECONDS ReplyOk ReplyNull (ctx_ex [''setex''] db_ex)
     = Some c' \<and> db_dict (cx_db c') ''k'' = Some (RawStr ''v'') \<and> db_expires (cx_db c') ''k'' = Some 6000"
  using set_effect [of "ctx_ex [''setex''] db_ex" "RawStr ''v''" "Some (IntStr 5)" UNIT_SECONDS 5000 OBJ_SET_NO_FLAGS
      "''k''" ReplyOk ReplyNull]
  by (auto simp: set_milliseconds_def sll_def OBJ_SET_NO_FLAGS_def)

lemma live_after_set:
  assumes "db_dict db key = Some val" and "db_expires db key = None"
  shows "live e db key = Some val"
  using assms by (simp add: live_def key_expired_def)

text \<open>
  C20. SET and then GET of the same key returns the bytes that were set, whether or not they
  were stored as an integer, whatever the key held before (also a value of another type, or an
  expired one).
\<close>

theorem set_get_round_trip:
  assumes "db_ok (cx_db c)" and "\<not> env_slave (cx_env c)" and "\<not> cx_set_failed c" and "cx_argv c = [s, k, v]"
  shows "\<exists>c1 c2. setCommand c = Some c1 \<and> getCommand (c1\<lparr>cx_argv := [g, k]\<rparr>) = Some c2 \<and>
    cx_out c2 = cx_out c @ [ReplyOk, ReplyBulk v]"
proof -
  let ?val = "tryObjectEncoding 1 (argv c 2)"
  have sc: "setCommand c = setGenericCommand OBJ_SET_NO_FLAGS k ?val None UNIT_SECONDS ReplyOk ReplyNull c"
    using assms(4) by (simp add: setCommand_def)
  obtain c1 where c1: "setCommand c = Some c1" "db_dict (cx_db c1) k = Some ?val" "db_expires (cx_db c1) k = None"
    "cx_out c1 = cx_out c @ [ReplyOk]"
    using setGenericCommand_effect [OF assms(1,2), of ?val None UNIT_SECONDS 0 OBJ_SET_NO_FLAGS k ReplyOk ReplyNull] assms(3) sc
    by (auto simp: set_milliseconds_def OBJ_SET_NO_FLAGS_def)
  have "cmd_ok c c1"
    using setCommand_total [OF assms(1)] c1(1) by (simp add: cmd_total_def)
  then have "db_ok (cx_db c1)" "cx_env c1 = cx_env c" by (simp_all add: cmd_ok_def)
  moreover have "readable (cx_env c) (cx_db c1) k = Some ?val"
    using assms(2) c1(2,3) by (simp add: readable_master live_after_set)
  ultimately show ?thesis
    using c1 assms(4) by (simp add: getCommand_def getGenericCommand_eq Let_def)
qed

theorem set_get_round_trip_witness:
  "\<exists>c1 c2. setCommand (ctx_ex [''set'', ''k'', ''42''] db_ex) = Some c1 \<and> getCommand (c1\<lparr>cx_argv := [''get'', ''k'']\<rparr>) = Some c2 \<and>
     cx_out c2 = [ReplyOk, ReplyBulk ''42'']"
  using set_get_round_trip [of "ctx_ex [''set'', ''k'', ''42''] db_ex" "''set''" "''k''" "''42''" "''get''"] by simp



text \<open>
  The reference for GETRANGE: the bytes at the positions between two indexes, where a
  negative index counts from the end and stops at the first byte.
\<close>

definition range_index :: "nat \<Rightarrow> int \<Rightarrow> int" where
  "range_index len i = (if i < 0 then max 0 (int len + i) else i)"

definition byte_range :: "int \<Rightarrow> int \<Rightarrow> string \<Rightarrow> string" where
  "byte_range start stop s =
     (if start < 0 \<and> stop < 0 \<and> start > stop then []
      else nths s {p. range_index (length s) start \<le> int p \<and> int p \<le> range_index (length s) stop})"

lemma nths_interval: "nths s {p. a \<le> p \<and> p < a + n} = take n (drop a s)"
proof (induction s arbitrary: a n)
  case (Cons x s)
  show ?case
  proof (cases a)
    case 0
    show ?thesis
    proof (cases n)
      case (Suc m)
      have "{j. Suc j < Suc m} = {p. 0 \<le> p \<and> p < 0 + m}" by auto
      then show ?thesis using Cons.IH [of 0 m] 0 Suc by (simp add: nths_Cons)
    qed (simp add: 0)
  next
    case (Suc b)
    have "{j. b \<le> j \<and> Suc j < Suc (b + n)} = {p. b \<le> p \<and> p < b + n}" by auto
    then show ?thesis using Cons.IH [of b n] Suc by (simp add: nths_Cons)
  qed
qed simp

lemma nths_eq_positions: "(\<And>p. p < length s \<Longrightarrow> (p \<in> A) = (p \<in> B)) \<Longrightarrow> nths s A = nths s B"
proof (induction s arbitrary: A B)
  case (Cons x s)
  have "nths s {j. Suc j \<in> A} = nths s {j. Suc j \<in> B}"
    by (rule Cons.IH) (use Cons.prems in auto)
  with Cons.prems [of 0] show ?case by (simp add: nths_Cons)
qed simp

lemma getrange_bounds_range:
  assumes "is_ll start" and "is_ll stop" and "int (length s) \<le> LLONG_MAX"
  shows "(case getrange_bounds start stop (length s) of None \<Rightarrow> [] | Some (from, n) \<Rightarrow> take n (drop from s))
    = byte_range start stop s"
proof -
  let ?len = "int (length s)"
  have w: "sll (?len + i) = ?len + i" if "i < 0" "is_ll i" for i
    using that assms(3) by (intro sll_id) (simp add: is_ll_def LLONG_MIN_def LLONG_MAX_def)
  have w1: "sll (?len - 1) = ?len - 1"
    using assms(3) by (intro sll_id) (simp add: is_ll_def LLONG_MIN_def LLONG_MAX_def)
  define a b where "a = range_index (length s) start" and "b = range_index (length s) stop"
  have ab: "0 \<le> a" "0 \<le> b" by (auto simp: a_def b_def range_index_def)
  define b' where "b' = (if ?len \<le> b then ?len - 1 else b)"
  have g: "getrange_bounds start stop (length s) =
      (if start < 0 \<and> stop < 0 \<and> start > stop then None
       else if a > b' \<or> length s = 0 then None else Some (nat a, nat (b' - a + 1)))"
    using assms w w1 by (auto simp: getrange_bounds_def Let_def a_def b_def b'_def range_index_def)
  have r: "nths s {p. a \<le> int p \<and> int p \<le> b} = (if a > b' \<or> length s = 0 then [] else take (nat (b' - a + 1)) (drop (nat a) s))"
  proof (cases "a > b' \<or> length s = 0")
    case True
    then have "nths s {p. a \<le> int p \<and> int p \<le> b} = nths s {}"
      by (intro nths_eq_positions) (auto simp: b'_def split: if_splits)
    with True show ?thesis by simp
  next
    case False
    then have "nths s {p. a \<le> int p \<and> int p \<le> b} = nths s {p. nat a \<le> p \<and> p < nat a + nat (b' - a + 1)}"
      using ab by (intro nths_eq_positions) (auto simp: b'_def split: if_splits)
    with False show ?thesis by (simp add: nths_interval)
  qed
  show ?thesis
    unfolding g byte_range_def a_def [symmetric] b_def [symmetric] r by simp
qed

text \<open>
  C22. GETRANGE replies with exactly the bytes between its two indexes, for all 64-bit
  indexes, negative, out of range or crossed, and for values stored as integers too.
\<close>

theorem getrange_bytes:
  assumes "db_ok (cx_db c)" and "\<not> env_slave (cx_env c)"
    and "string2ll (cx_argv c ! 2) = Some start" and "string2ll (cx_argv c ! 3) = Some stop"
    and "live (cx_env c) (cx_db c) (cx_argv c ! 1) = Some ob" and "is_string ob"
    and "int (length (obj_string ob)) \<le> LLONG_MAX"
  shows "\<exists>c'. getrangeCommand c = Some c' \<and> cx_out c' = cx_out c @ [ReplyBulk (byte_range start stop (obj_string ob))] \<and>
    live (cx_env c) (cx_db c') = live (cx_env c) (cx_db c)"
proof -
  have "robj_ok ob"
    using assms(1,5) by (auto simp: live_def dest: db_okD split: if_splits)
  then show ?thesis
    using assms getrange_bounds_range [OF string2ll_ll [OF assms(3)] string2ll_ll [OF assms(4)] assms(7)]
    by (auto simp: getrangeCommand_def getLongLongFromObjectOrReply_argv lookupKeyReadOrReply_def cx_lookupKeyRead_eq
        readable_master checkType_eq cmp_bytes_string split: option.splits)
qed

lemma dec_int_small [simp]:
  "dec_int (-1) = ''-1''" "dec_int 1 = ''1''" "dec_int 0 = ''0''" "dec_int 5 = ''5''" "dec_int (-3) = ''-3''"
  by code_simp+

theorem getrange_bytes_witness:
  "\<exists>c'. getrangeCommand (ctx_ex [''getrange'', ''k'', ''-3'', ''-1''] (db_put db_ex ''k'' (RawStr ''hello''))) = Some c' \<and>
     cx_out c' = [ReplyBulk ''llo'']"
proof -
  have i: "string2ll ''-3'' = Some (-3)" "string2ll ''-1'' = Some (-1)"
    using string2ll_iff [of "''-3''" "-3"] string2ll_iff [of "''-1''" "-1"]
    by (simp_all add: is_ll_def LLONG_MIN_def LLONG_MAX_def)
  have "byte_range (-3) (-1) ''hello'' = ''llo''"
    by (simp add: byte_range_def range_index_def nths_Cons)
  then show ?thesis
    using getrange_bytes [of "ctx_ex [''getrange'', ''k'', ''-3'', ''-1''] (db_put db_ex ''k'' (RawStr ''hello''))" "-3" "-1"
        "RawStr ''hello''"] i
    by (auto simp: inv_intros live_def key_expired_def LLONG_MAX_def)
qed

text \<open>
  C23. SETRANGE of a non-empty value on a missing key checks the size of the result in signed
  arithmetic only: it aborts the server exactly when offset plus length exceeds
  \<open>LLONG_MAX\<close>.  The sum is then negative for \<open>checkStringLength\<close>, the limit of 512 MB is
  not applied, and the allocator is asked for at least \<open>2^63\<close> bytes.
\<close>

theorem setrange_overflow_aborts:
  assumes "db_ok (cx_db c)" and "string2ll (cx_argv c ! 2) = Some off" and "0 \<le> off"
    and "cx_argv c ! 3 \<noteq> []" and "int (length (cx_argv c ! 3)) < 4611686018427387904"
    and "live (cx_env c) (cx_db c) (cx_argv c ! 1) = None" and "\<not> env_slave (cx_env c)"
  shows "(setrangeCommand c = None) = (\<not> is_ll (off + int (length (cx_argv c ! 3))))"
proof -
  have "sll (off + int (length (cx_argv c ! 3))) < 0" if "\<not> is_ll (off + int (length (cx_argv c ! 3)))"
    using sll_overflow_neg [OF assms(3) string2ll_ll [OF assms(2)] _ assms(5) that] by simp
  moreover have "sll (off + int (length (cx_argv c ! 3))) = off + int (length (cx_argv c ! 3))"
    if "is_ll (off + int (length (cx_argv c ! 3)))"
    using that by (rule sll_id)
  ultimately show ?thesis
    using assms by (auto simp: setrangeCommand_eq Let_def)
qed

theorem setrange_overflow_aborts_witness:
  "setrangeCommand (ctx_ex [''setrange'', ''k'', dec_int LLONG_MAX, ''x''] db_ex) = None"
proof -
  have "string2ll (dec_int LLONG_MAX) = Some LLONG_MAX"
    by (simp add: string2ll_iff is_ll_def LLONG_MIN_def LLONG_MAX_def)
  then show ?thesis
    using setrange_overflow_aborts [of "ctx_ex [''setrange'', ''k'', dec_int LLONG_MAX, ''x''] db_ex" LLONG_MAX]
    by (simp add: is_ll_def LLONG_MIN_def LLONG_MAX_def live_def)
qed

text \<open>
  DECRBY negates its argument in \<open>long long\<close>, where the negation of \<open>LLONG_MIN\<close> is
  \<open>LLONG_MIN\<close> again: the counter is decreased instead of increased.
\<close>

lemma decrby_min_wraps: "sll (- LLONG_MIN) = LLONG_MIN"
  by (simp add: sll_def LLONG_MIN_def)

end
