(* ===== verification/Keys.thy ===== *)
theory Keys
  imports Cmd T_string
begin

text \<open>
  The commands on keys of \<open>src/src/db.c\<close> (DEL, UNLINK, EXISTS, TYPE, RENAME) and of
  \<open>src/src/expire.c\<close> (EXPIRE and its variants, TTL, PTTL, PERSIST).
\<close>

subsection \<open>Commands of db.c\<close>

fun del_loop :: "bool \<Rightarrow> sds list \<Rightarrow> nat \<Rightarrow> ctx \<Rightarrow> (ctx \<times> nat) option" where
  "del_loop lazy [] numdel c = Some (c, numdel)"
| "del_loop lazy (key # keys) numdel c = do {
     (db, _) \<leftarrow> expireIfNeeded (cx_env c) (cx_db c) key;
     let (db, deleted) = (if lazy then dbAsyncDelete db key else dbSyncDelete db key);
     let c = c\<lparr>cx_db := db\<rparr>;
     (if deleted then del_loop lazy keys (numdel + 1) (dirtied c) else del_loop lazy keys numdel c)
   }"

definition delGenericCommand :: "bool \<Rightarrow> ctx \<Rightarrow> ctx option" where
  "delGenericCommand lazy c =
     (if cx_del_failed c then Some ((addReply (ReplyInt 0) c)\<lparr>cx_del_failed := False\<rparr>)
      else do {
        (c, numdel) \<leftarrow> del_loop lazy (drop 1 (cx_argv c)) 0 c;
        Some (addReply (ReplyInt (int numdel)) c)
      })"

definition delCommand :: "ctx \<Rightarrow> ctx option" where
  "delCommand c = delGenericCommand (env_lazy_user_del (cx_env c)) c"

definition unlinkCommand :: "ctx \<Rightarrow> ctx option" where
  "unlinkCommand c = delGenericCommand True c"

fun exists_loop :: "sds list \<Rightarrow> nat \<Rightarrow> ctx \<Rightarrow> (ctx \<times> nat) option" where
  "exists_loop [] cnt c = Some (c, cnt)"
| "exists_loop (key # keys) cnt c = do {
     (c, o') \<leftarrow> cx_lookupKeyRead key c;
     exists_loop keys (if o' \<noteq> None then cnt + 1 else cnt) c
   }"

definition existsCommand :: "ctx \<Rightarrow> ctx option" where
  "existsCommand c = do {
     (c, cnt) \<leftarrow> exists_loop (drop 1 (cx_argv c)) 0 c;
     Some (addReply (ReplyInt (int cnt)) c)
   }"

fun getObjectTypeName :: "robj option \<Rightarrow> sds" where
  "getObjectTypeName None = ''none''"
| "getObjectTypeName (Some (OtherObj OBJ_LIST)) = ''list''"
| "getObjectTypeName (Some (OtherObj OBJ_SET)) = ''set''"
| "getObjectTypeName (Some (OtherObj OBJ_ZSET)) = ''zset''"
| "getObjectTypeName (Some (OtherObj OBJ_HASH)) = ''hash''"
| "getObjectTypeName (Some (OtherObj OBJ_STREAM)) = ''stream''"
| "getObjectTypeName (Some (OtherObj (OBJ_MODULE name))) = name"
| "getObjectTypeName (Some _) = ''string''"

definition typeCommand :: "ctx \<Rightarrow> ctx option" where
  "typeCommand c = do {
     (c, o') \<leftarrow> cx_lookupKeyRead (cx_argv c ! 1) c;
     Some (addReply (ReplyStatus (getObjectTypeName o')) c)
   }"

text \<open>\<open>sdscmp\<close> of the two names is 0 exactly when they are the same string.\<close>

definition renameGenericCommand :: "bool \<Rightarrow> ctx \<Rightarrow> ctx option" where
  "renameGenericCommand nx c =
     (let src = cx_argv c ! 1; dst = cx_argv c ! 2
      in do {
        (c, o') \<leftarrow> lookupKeyWriteOrReply src (ReplyErr ErrNoKey) c;
        (case o' of
           None \<Rightarrow> Some c
         | Some ob \<Rightarrow>
             if src = dst then Some (addReply (if nx then ReplyInt 0 else ReplyOk) c)
             else do {
               expire \<leftarrow> getExpire (cx_db c) src;
               (c, d) \<leftarrow> cx_lookupKeyWrite dst c;
               (if d \<noteq> None \<and> nx then Some (addReply (ReplyInt 0) c)
                else do {
                  let db = (if d \<noteq> None then fst (dbDelete (cx_env c) (cx_db c) dst) else cx_db c);
                  db \<leftarrow> dbAdd db dst ob;
                  db \<leftarrow> (if expire \<noteq> -1 then setExpire db dst expire else Some db);
                  let db = fst (dbDelete (cx_env c) db src);
                  Some (addReply (if nx then ReplyInt 1 else ReplyOk) (dirtied (c\<lparr>cx_db := db\<rparr>)))
                })
             })
      })"

definition renameCommand :: "ctx \<Rightarrow> ctx option" where
  "renameCommand c = renameGenericCommand False c"

definition renamenxCommand :: "ctx \<Rightarrow> ctx option" where
  "renamenxCommand c = renameGenericCommand True c"

subsection \<open>Commands of expire.c\<close>

definition expireGenericCommand :: "int \<Rightarrow> time_unit \<Rightarrow> ctx \<Rightarrow> ctx option" where
  "expireGenericCommand basetime unit c =
     (let key = cx_argv c ! 1
      in case getLongLongFromObjectOrReply (Some (argv c 2)) c of
           (c, None) \<Rightarrow> Some c
         | (c, Some w) \<Rightarrow>
             let w = (if unit = UNIT_SECONDS then sll (w * 1000) else w);
                 w = sll (w + basetime)
             in do {
               (c, o') \<leftarrow> cx_lookupKeyWrite key c;
               (if o' = None then Some (addReply (ReplyInt 0) c)
                else if w \<le> env_now (cx_env c) \<and> \<not> env_loading (cx_env c) \<and> \<not> env_slave (cx_env c)
                then
                  (case (if env_lazy_expire (cx_env c) then dbAsyncDelete (cx_db c) key else dbSyncDelete (cx_db c) key) of
                     (db, deleted) \<Rightarrow>
                       if \<not> deleted then None
                       else Some (addReply (ReplyInt 1) (dirtied (c\<lparr>cx_db := db\<rparr>))))
                else do {
                  db \<leftarrow> setExpire (cx_db c) key w;
                  Some (dirtied (addReply (ReplyInt 1) (c\<lparr>cx_db := db\<rparr>)))
                })
             })"

definition expireCommand :: "ctx \<Rightarrow> ctx option" where
  "expireCommand c = expireGenericCommand (env_now (cx_env c)) UNIT_SECONDS c"

definition expireatCommand :: "ctx \<Rightarrow> ctx option" where
  "expireatCommand c = expireGenericCommand 0 UNIT_SECONDS c"

definition pexpireCommand :: "ctx \<Rightarrow> ctx option" where
  "pexpireCommand c = expireGenericCommand (env_now (cx_env c)) UNIT_MILLISECONDS c"

definition pexpireatCommand :: "ctx \<Rightarrow> ctx option" where
  "pexpireatCommand c = expireGenericCommand 0 UNIT_MILLISECONDS c"

text \<open>C's division truncates; the remaining time is never negative here.\<close>

definition ttlGenericCommand :: "bool \<Rightarrow> ctx \<Rightarrow> ctx option" where
  "ttlGenericCommand output_ms c = do {
     (c, o') \<leftarrow> cx_lookupKeyRead (cx_argv c ! 1) c;
     (if o' = None then Some (addReply (ReplyInt (-2)) c)
      else do {
        expire \<leftarrow> getExpire (cx_db c) (cx_argv c ! 1);
        let ttl = (if expire \<noteq> -1 then max 0 (sll (expire - env_now (cx_env c))) else -1);
        Some (addReply (ReplyInt (if ttl = -1 then -1 else if output_ms then ttl else sll (ttl + 500) div 1000)) c)
      })
   }"

definition ttlCommand :: "ctx \<Rightarrow> ctx option" where
  "ttlCommand c = ttlGenericCommand False c"

definition pttlCommand :: "ctx \<Rightarrow> ctx option" where
  "pttlCommand c = ttlGenericCommand True c"

definition persistCommand :: "ctx \<Rightarrow> ctx option" where
  "persistCommand c = do {
     (c, o') \<leftarrow> cx_lookupKeyWrite (cx_argv c ! 1) c;
     (if o' \<noteq> None then do {
        (db, removed) \<leftarrow> removeExpire (cx_db c) (cx_argv c ! 1);
        let c = c\<lparr>cx_db := db\<rparr>;
        Some (if removed then dirtied (addReply (ReplyInt 1) c) else addReply (ReplyInt 0) c)
      }
      else Some (addReply (ReplyInt 0) c))
   }"

subsection \<open>The commands do not abort\<close>

lemma dbSyncDelete_purge: "fst (dbSyncDelete (purge e db key) key) = fst (dbSyncDelete db key)"
  by (simp add: purge_def dbSyncDelete_def)

lemma del_loop_Cons:
  assumes "db_ok (cx_db c)"
  shows "del_loop lazy (key # keys) n c =
    (let c' = c\<lparr>cx_db := fst (dbSyncDelete (cx_db c) key)\<rparr>
     in if db_dict (purge (cx_env c) (cx_db c) key) key \<noteq> None then del_loop lazy keys (n + 1) (dirtied c')
        else del_loop lazy keys n c')"
proof -
  have "\<exists>b. expireIfNeeded (cx_env c) (cx_db c) key = Some (purge (cx_env c) (cx_db c) key, b)"
    using assms by (auto simp: expireIfNeeded_ok purge_def)
  moreover have "(if lazy then dbAsyncDelete db key else dbSyncDelete db key) = (fst (dbSyncDelete db key), db_dict db key \<noteq> None)" for db
    by (simp add: dbAsyncDelete_eq) (simp add: dbSyncDelete_def)
  ultimately show ?thesis
    by (auto simp: Let_def dbSyncDelete_purge)
qed

lemma del_loop_total: "cmd_ok c c1 \<Longrightarrow> \<exists>c2 n'. del_loop lazy keys n c1 = Some (c2, n') \<and> cmd_ok c c2"
proof (induction keys arbitrary: n c1)
  case (Cons key keys)
  have ok: "db_ok (cx_db c1)" by (rule cmd_ok_db_ok [OF Cons.prems])
  let ?c = "c1\<lparr>cx_db := fst (dbSyncDelete (cx_db c1) key)\<rparr>"
  have c: "cmd_ok c ?c" "cmd_ok c (dirtied ?c)"
    using ok by (simp_all add: cmd_ok_db [OF Cons.prems] inv_intros)
  show ?case
    unfolding del_loop_Cons [OF ok] Let_def using Cons.IH [OF c(1)] Cons.IH [OF c(2)] by auto
qed simp

lemma del_total [cmd_intros]:
  "db_ok (cx_db c) \<Longrightarrow> cmd_total c (delCommand c)"
  "db_ok (cx_db c) \<Longrightarrow> cmd_total c (unlinkCommand c)"
proof -
  assume ok: "db_ok (cx_db c)"
  have "cmd_total c (delGenericCommand lazy c)" for lazy
  proof -
    obtain c2 n where "del_loop lazy (drop 1 (cx_argv c)) 0 c = Some (c2, n)" "cmd_ok c c2"
      using del_loop_total [OF cmd_ok_refl [OF ok]] by blast
    then show ?thesis
      using ok by (simp add: delGenericCommand_def cmd_total_def cmd_ok_refl)
  qed
  then show "cmd_total c (delCommand c)" "cmd_total c (unlinkCommand c)"
    by (simp_all add: delCommand_def unlinkCommand_def)
qed

lemma exists_loop_total: "cmd_ok c c1 \<Longrightarrow> \<exists>c2 n'. exists_loop keys n c1 = Some (c2, n') \<and> cmd_ok c c2"
proof (induction keys arbitrary: n c1)
  case (Cons key keys)
  have ok: "db_ok (cx_db c1)" by (rule cmd_ok_db_ok [OF Cons.prems])
  have "cmd_ok c (c1\<lparr>cx_db := purge (cx_env c1) (cx_db c1) key\<rparr>)"
    by (simp add: cmd_ok_db [OF Cons.prems] ok)
  from Cons.IH [OF this] show ?case using ok by (simp add: cx_lookupKeyRead_eq)
qed simp

lemma existsCommand_total [cmd_intros]: "db_ok (cx_db c) \<Longrightarrow> cmd_total c (existsCommand c)"
  using exists_loop_total [OF cmd_ok_refl, of c "drop 1 (cx_argv c)" 0]
  by (auto simp: existsCommand_def cmd_total_def)

lemma typeCommand_total [cmd_intros]: "db_ok (cx_db c) \<Longrightarrow> cmd_total c (typeCommand c)"
  by (simp add: typeCommand_def cx_lookupKeyRead_eq cmd_total_def)

lemma renameGenericCommand_eq:
  assumes ok: "db_ok (cx_db c)" and "src = cx_argv c ! 1" and "dst = cx_argv c ! 2"
    and "d1 = purge (cx_env c) (cx_db c) src" and "d2 = purge (cx_env c) d1 dst"
  shows "renameGenericCommand nx c =
    (case db_dict d1 src of
       None \<Rightarrow> Some (addReply (ReplyErr ErrNoKey) (c\<lparr>cx_db := d1\<rparr>))
     | Some ob \<Rightarrow>
         if src = dst then Some (addReply (if nx then ReplyInt 0 else ReplyOk) (c\<lparr>cx_db := d1\<rparr>))
         else if db_dict d2 dst \<noteq> None \<and> nx then Some (addReply (ReplyInt 0) (c\<lparr>cx_db := d2\<rparr>))
         else
           let d3 = db_put (fst (dbSyncDelete d2 dst)) dst ob;
               d4 = (case db_expires d1 src of None \<Rightarrow> d3 | Some w \<Rightarrow> if w = -1 then d3 else db_expire_at d3 dst w);
               d5 = fst (dbSyncDelete d4 src)
           in Some (addReply (if nx then ReplyInt 1 else ReplyOk) (dirtied (c\<lparr>cx_db := d5\<rparr>))))"
proof -
  have ok1: "db_ok d1" and ok2: "db_ok d2" using assms by simp_all
  have l1: "lookupKeyWriteOrReply src (ReplyErr ErrNoKey) c =
      Some (if db_dict d1 src = None then addReply (ReplyErr ErrNoKey) (c\<lparr>cx_db := d1\<rparr>) else c\<lparr>cx_db := d1\<rparr>, db_dict d1 src)"
    using ok assms(4) by (simp add: lookupKeyWriteOrReply_def cx_lookupKeyWrite_eq)
  have l2: "cx_lookupKeyWrite dst (c\<lparr>cx_db := d1\<rparr>) = Some (c\<lparr>cx_db := d2\<rparr>, db_dict d2 dst)"
    using ok1 assms(5) by (simp add: cx_lookupKeyWrite_eq)
  have e: "getExpire d1 src = Some (case db_expires d1 src of None \<Rightarrow> -1 | Some w \<Rightarrow> w)"
    using ok1 by (rule getExpire_ok)
  have del: "db_dict d2 dst = None \<Longrightarrow> fst (dbSyncDelete d2 dst) = d2"
    using db_okD(3) [OF ok2, of dst] by (simp add: dbSyncDelete_def fun_upd_idem)
  show ?thesis
    unfolding renameGenericCommand_def assms(2,3) [symmetric] Let_def l1
    by (auto simp: l2 e dbDelete_eq dbAdd_def db_put_def setExpire_def db_expire_at_def del split: option.splits)
qed

lemma rename_total [cmd_intros]:
  "db_ok (cx_db c) \<Longrightarrow> cmd_total c (renameCommand c)"
  "db_ok (cx_db c) \<Longrightarrow> cmd_total c (renamenxCommand c)"
proof -
  assume ok: "db_ok (cx_db c)"
  define d1 where "d1 = purge (cx_env c) (cx_db c) (cx_argv c ! 1)"
  define d2 where "d2 = purge (cx_env c) d1 (cx_argv c ! 2)"
  have ok12: "db_ok d1" "db_ok d2" using ok by (simp_all add: d1_def d2_def)
  have b1: "same_backend (cx_db c) d1" by (simp add: d1_def)
  have b2: "same_backend (cx_db c) d2"
    using same_backend_trans [OF b1, of d2] by (simp add: d2_def)
  have del: "same_backend (cx_db c) d \<Longrightarrow> same_backend (cx_db c) (fst (dbSyncDelete d k))" for d k
    using same_backend_trans dbSyncDelete_simps(3) by blast
  have "cmd_total c (renameGenericCommand nx c)" for nx
    unfolding renameGenericCommand_eq [OF ok refl refl d1_def d2_def]
    using ok12 b1 b2 db_okD(2) [OF ok12(1)]
    by (auto simp: Let_def cmd_total_def cmd_ok_refl ok inv_intros del intro!: cmd_ok_db cmd_ok_addReply cmd_ok_dirtied
        split: option.splits)
  then show "cmd_total c (renameCommand c)" "cmd_total c (renamenxCommand c)"
    by (simp_all add: renameCommand_def renamenxCommand_def)
qed

lemma expireGenericCommand_eq:
  assumes ok: "db_ok (cx_db c)" and "key = cx_argv c ! 1" and "db = purge (cx_env c) (cx_db c) key"
  shows "expireGenericCommand basetime unit c =
    (case string2ll (cx_argv c ! 2) of
       None \<Rightarrow> Some (addReply (ReplyErr ErrNotInteger) c)
     | Some n \<Rightarrow>
         let w = sll ((if unit = UNIT_SECONDS then sll (n * 1000) else n) + basetime); c = c\<lparr>cx_db := db\<rparr>
         in if db_dict db key = None then Some (addReply (ReplyInt 0) c)
            else Some (addReply (ReplyInt 1) (dirtied (c\<lparr>cx_db :=
                   if w \<le> env_now (cx_env c) \<and> \<not> env_loading (cx_env c) \<and> \<not> env_slave (cx_env c)
                   then fst (dbSyncDelete db key) else db_expire_at db key w\<rparr>))))"
proof -
  have l: "cx_lookupKeyWrite key c = Some (c\<lparr>cx_db := db\<rparr>, db_dict db key)"
    using ok assms(3) by (simp add: cx_lookupKeyWrite_eq)
  obtain D where del: "dbSyncDelete db key = (D, db_dict db key \<noteq> None)" "dbAsyncDelete db key = (D, db_dict db key \<noteq> None)"
    by (simp add: dbAsyncDelete_eq) (simp add: dbSyncDelete_def)
  have swap: "dirtied (addReply r c) = addReply r (dirtied c)" for r c
    by (simp add: dirtied_def addReply_def)
  show ?thesis
    unfolding expireGenericCommand_def assms(2) [symmetric] getLongLongFromObjectOrReply_argv
    by (cases "string2ll (cx_argv c ! 2)") (simp_all add: Let_def l del setExpire_def db_expire_at_def swap)
qed

lemma expire_total [cmd_intros]:
  "db_ok (cx_db c) \<Longrightarrow> cmd_total c (expireCommand c)"
  "db_ok (cx_db c) \<Longrightarrow> cmd_total c (expireatCommand c)"
  "db_ok (cx_db c) \<Longrightarrow> cmd_total c (pexpireCommand c)"
  "db_ok (cx_db c) \<Longrightarrow> cmd_total c (pexpireatCommand c)"
proof -
  assume ok: "db_ok (cx_db c)"
  have "same_backend (cx_db c) (fst (dbSyncDelete (purge (cx_env c) (cx_db c) key) key))" for key
    using same_backend_trans [OF purge_simps(1) dbSyncDelete_simps(3)] by blast
  then have "cmd_total c (expireGenericCommand b u c)" for b u
    unfolding expireGenericCommand_eq [OF ok refl refl]
    using ok by (auto simp: Let_def cmd_total_def cmd_ok_refl inv_intros intro!: cmd_ok_db cmd_ok_addReply cmd_ok_dirtied
        split: option.splits)
  then show "cmd_total c (expireCommand c)" "cmd_total c (expireatCommand c)" "cmd_total c (pexpireCommand c)"
    "cmd_total c (pexpireatCommand c)"
    by (simp_all add: expireCommand_def expireatCommand_def pexpireCommand_def pexpireatCommand_def)
qed

lemma ttl_total [cmd_intros]:
  "db_ok (cx_db c) \<Longrightarrow> cmd_total c (ttlCommand c)"
  "db_ok (cx_db c) \<Longrightarrow> cmd_total c (pttlCommand c)"
  by (simp_all add: ttlCommand_def pttlCommand_def ttlGenericCommand_def cx_lookupKeyRead_eq getExpire_ok cmd_total_def Let_def)

lemma persistCommand_total [cmd_intros]: "db_ok (cx_db c) \<Longrightarrow> cmd_total c (persistCommand c)"
  by (auto simp: persistCommand_def cx_lookupKeyWrite_eq removeExpire_def db_persist_def [symmetric] cmd_total_def Let_def
      inv_intros intro!: cmd_ok_addReply cmd_ok_dirtied cmd_ok_db cmd_ok_refl)

subsection \<open>Properties of the key commands\<close>

lemma card_removed:
  "card {k \<in> set (key # keys). m k \<noteq> None} =
     (if m key \<noteq> None then 1 else 0) + card {k \<in> set keys. (m(key := None)) k \<noteq> None}"
proof -
  have "{k \<in> set (key # keys). m k \<noteq> None} =
      (if m key \<noteq> None then insert key {k \<in> set keys. (m(key := None)) k \<noteq> None} else {k \<in> set keys. (m(key := None)) k \<noteq> None})"
    by auto
  then show ?thesis by simp
qed

lemma del_loop_effect:
  assumes "db_ok (cx_db c)" and "\<not> env_slave (cx_env c)" and "e = cx_env c"
  shows "\<exists>c'. del_loop lazy keys n c = Some (c', n + card {k \<in> set keys. live e (cx_db c) k \<noteq> None}) \<and>
    live e (cx_db c') = (\<lambda>k. if k \<in> set keys then None else live e (cx_db c) k) \<and>
    live_ttl e (cx_db c') = (\<lambda>k. if k \<in> set keys then None else live_ttl e (cx_db c) k) \<and> cx_out c' = cx_out c"
  using assms
proof (induction keys arbitrary: n c)
  case (Cons key keys)
  let ?d = "fst (dbSyncDelete (cx_db c) key)"
  let ?c = "if live e (cx_db c) key \<noteq> None then dirtied (c\<lparr>cx_db := ?d\<rparr>) else c\<lparr>cx_db := ?d\<rparr>"
  let ?n = "n + (if live e (cx_db c) key \<noteq> None then 1 else 0)"
  have step: "del_loop lazy (key # keys) n c = del_loop lazy keys ?n ?c"
    using Cons.prems by (simp add: del_loop_Cons del: del_loop.simps)
  have c: "cx_db ?c = ?d" "cx_env ?c = cx_env c" "cx_out ?c = cx_out c" by simp_all
  then have "db_ok (cx_db ?c)" "\<not> env_slave (cx_env ?c)" "e = cx_env ?c"
    using Cons.prems by (simp_all add: inv_intros)
  from Cons.IH [OF this, of ?n] show ?case
    unfolding step card_removed [of key keys "live e (cx_db c)"] c live_delete by (auto simp: fun_eq_iff add.assoc)
qed simp

text \<open>
  C24. DEL and UNLINK reply with the number of distinct keys among their arguments that
  existed and had not expired; afterwards none of the arguments exists or has an expire
  time, and every other key is as before.
\<close>

theorem del_counts:
  assumes "db_ok (cx_db c)" and "\<not> env_slave (cx_env c)" and "\<not> cx_del_failed c"
  shows "\<exists>c'. delGenericCommand lazy c = Some c' \<and>
    cx_out c' = cx_out c @ [ReplyInt (int (card {k \<in> set (drop 1 (cx_argv c)). live (cx_env c) (cx_db c) k \<noteq> None}))] \<and>
    live (cx_env c) (cx_db c') = (\<lambda>k. if k \<in> set (drop 1 (cx_argv c)) then None else live (cx_env c) (cx_db c) k) \<and>
    live_ttl (cx_env c) (cx_db c') = (\<lambda>k. if k \<in> set (drop 1 (cx_argv c)) then None else live_ttl (cx_env c) (cx_db c) k)"
  using del_loop_effect [OF assms(1,2) refl, of lazy "drop 1 (cx_argv c)" 0] assms(3)
  by (auto simp: delGenericCommand_def)

theorem del_counts_witness:
  "\<exists>c'. delGenericCommand False (ctx_ex [''del'', ''a'', ''b'', ''a''] (db_put db_ex ''a'' (RawStr ''x''))) = Some c' \<and>
     cx_out c' = [ReplyInt 1]"
proof -
  let ?c = "ctx_ex [''del'', ''a'', ''b'', ''a''] (db_put db_ex ''a'' (RawStr ''x''))"
  have l: "live env_ex (db_put db_ex ''a'' (RawStr ''x'')) = [''a'' \<mapsto> RawStr ''x'']"
    by (simp add: live_def key_expired_def fun_eq_iff)
  have s: "{k \<in> set (drop 1 (cx_argv ?c)). live (cx_env ?c) (cx_db ?c) k \<noteq> None} = {''a''}"
    unfolding ex_simps l by auto
  show ?thesis
    using del_counts [of ?c False, unfolded s] by (auto simp: inv_intros)
qed



text \<open>
  C26. RENAME moves a key: when the source exists and differs from the destination, the
  destination afterwards holds the value and the expire time of the source, the source is
  gone, and every other key is untouched; with NX nothing happens when the destination
  exists.
\<close>

theorem rename_moves:
  assumes "db_ok (cx_db c)" and "\<not> env_slave (cx_env c)" and "src = cx_argv c ! 1" and "dst = cx_argv c ! 2" and "src \<noteq> dst"
    and "live (cx_env c) (cx_db c) src = Some ob" and "db_expires (cx_db c) src \<noteq> Some (-1)"
  shows "\<exists>c'. renameGenericCommand nx c = Some c' \<and>
    (if nx \<and> live (cx_env c) (cx_db c) dst \<noteq> None
     then live (cx_env c) (cx_db c') = live (cx_env c) (cx_db c) \<and> cx_out c' = cx_out c @ [ReplyInt 0]
     else live (cx_env c) (cx_db c') = (live (cx_env c) (cx_db c))(src := None, dst \<mapsto> ob) \<and>
       db_expires (cx_db c') dst = live_ttl (cx_env c) (cx_db c) src \<and>
       cx_out c' = cx_out c @ [if nx then ReplyInt 1 else ReplyOk])"
proof -
  let ?e = "cx_env c"
  define d1 where "d1 = purge ?e (cx_db c) src"
  define d2 where "d2 = purge ?e d1 dst"
  have ne: "\<not> key_expired ?e (cx_db c) src" "db_dict (cx_db c) src = Some ob"
    using assms(6) by (simp_all add: live_def split: if_splits)
  then have d1: "d1 = cx_db c" by (simp add: d1_def purge_def)
  have l2: "live ?e d2 = live ?e (cx_db c)" "db_dict d2 dst = live ?e (cx_db c) dst" "\<not> key_expired ?e d2 dst"
    using assms(2) by (simp_all add: d2_def d1)
  define d3 where "d3 = db_put (fst (dbSyncDelete d2 dst)) dst ob"
  have x3: "\<not> key_expired ?e d3 dst" "live ?e d3 = (live ?e (cx_db c))(dst \<mapsto> ob)" "db_expires d3 dst = None"
    using l2 by (simp_all add: d3_def key_expired_def)
  define d4 where "d4 = (case db_expires d1 src of None \<Rightarrow> d3 | Some w \<Rightarrow> if w = -1 then d3 else db_expire_at d3 dst w)"
  have x4: "live ?e d4 = (live ?e (cx_db c))(dst \<mapsto> ob)" "db_expires d4 dst = db_expires (cx_db c) src"
  proof -
    have "key_expired ?e (db_expire_at d3 dst w) dst = key_expired ?e (cx_db c) src" if "db_expires (cx_db c) src = Some w" for w
      using that by (simp add: key_expired_def)
    then have "live ?e (db_expire_at d3 dst w) = live ?e d3" if "db_expires (cx_db c) src = Some w" for w
      using that ne(1) x3(1) by (auto simp: live_def fun_eq_iff)
    then show "live ?e d4 = (live ?e (cx_db c))(dst \<mapsto> ob)" "db_expires d4 dst = db_expires (cx_db c) src"
      using assms(7) x3 by (auto simp: d4_def d1 split: option.splits)
  qed
  show ?thesis
    using renameGenericCommand_eq [OF assms(1,3,4) d1_def d2_def, of nx] assms(5) ne l2 x4
    by (auto simp: d1 Let_def d3_def [symmetric] d4_def [unfolded d1, symmetric] live_ttl_def fun_upd_twist)
qed

theorem rename_moves_witness:
  "\<exists>c'. renameGenericCommand False (ctx_ex [''rename'', ''a'', ''b''] (db_put db_ex ''a'' (RawStr ''x''))) = Some c' \<and>
     live env_ex (cx_db c') ''b'' = Some (RawStr ''x'') \<and> live env_ex (cx_db c') ''a'' = None"
proof -
  have "live env_ex (db_put db_ex ''a'' (RawStr ''x'')) ''a'' = Some (RawStr ''x'')"
    by (simp add: live_def key_expired_def)
  then show ?thesis
    using rename_moves [of "ctx_ex [''rename'', ''a'', ''b''] (db_put db_ex ''a'' (RawStr ''x''))" "''a''" "''b''" "RawStr ''x''" False]
    by (auto simp: inv_intros)
qed

end
