(* ===== verification/Server.thy ===== *)
theory Server
  imports Keys
begin

text \<open>
  The state of the server and of its clients as far as \<open>src/src/server.h\<close> declares them and
  the modelled code uses them, and the execution of one command: the command table and
  \<open>call\<close> of \<open>src/src/server.c\<close>, SELECT of \<open>src/src/db.c\<close>, and MULTI, EXEC and DISCARD of
  \<open>src/src/multi.c\<close>.

  The server is neither a replica nor loading; WATCH, access control, replication, the
  append-only file, monitoring and statistics are left out.  The query buffer of a client is
  the list of the commands in it, each the list of its arguments.
\<close>

subsection \<open>State\<close>

datatype bstate = CLIENT_BACKEND_NORMAL | CLIENT_BACKEND_GET | CLIENT_BACKEND_SET | CLIENT_BACKEND_DEL

record client =
  c_argv :: "sds list"
  c_cmd :: sds
  c_db :: nat
  c_multi :: bool
  c_dirty_exec :: bool
  c_mstate :: "(sds \<times> sds list) list"
  c_close :: bool
  backend_state :: bstate
  backend_set_sync_reply :: bool
  backend_del_sync_reply :: bool
  querybuf :: "sds list list"
  c_reply :: "reply list"

record getJob =
  get_dbid :: int
  getKey :: "sds option"
  returnGetKey :: "sds option"
  valFromBackend :: "sds option"

record setJob =
  set_dbid :: int
  setKey_job :: "sds option"
  returnSetKey :: "sds option"
  valToBackend :: "sds option"
  setSyncResult :: int
  job_setTtl :: int

record delJob =
  del_dbid :: int
  delKey :: "sds option"
  returnDelKey :: "sds option"
  delSyncResult :: int

text \<open>
  The configuration is in the fields \<open>redisoo_*\<close>; a statement that is not configured (\<open>NULL\<close>
  or \<open>""\<close>) is the empty string.  Of a pipe between a worker and the main thread only the
  number of bytes in it matters.
\<close>

record server =
  dbs :: "redisDb list"
  clients :: "cid \<rightharpoonup> client"
  server_getJob :: getJob
  server_setJob :: setJob
  server_delJob :: delJob
  get_pipe :: nat
  set_pipe :: nat
  del_pipe :: nat
  redisoo_db_type :: nat
  redisoo_connection :: sds
  redisoo_get :: sds
  redisoo_set :: sds
  redisoo_del :: sds
  redisoo_get_sync :: bool
  redisoo_set_sync :: bool
  redisoo_del_sync :: bool
  redisoo_get_ttl :: int
  dirty :: nat
  mstime :: int
  dict_can_resize :: bool
  lazy_expire :: bool
  lazy_user_del :: bool
  lazy_server_del :: bool

definition update_client :: "cid \<Rightarrow> (client \<Rightarrow> client) \<Rightarrow> server \<Rightarrow> server" where
  "update_client cid f s = s\<lparr>clients := (clients s)(cid := map_option f (clients s cid))\<rparr>"

definition update_db :: "nat \<Rightarrow> (redisDb \<Rightarrow> redisDb) \<Rightarrow> server \<Rightarrow> server" where
  "update_db i f s = s\<lparr>dbs := (dbs s)[i := f (dbs s ! i)]\<rparr>"

definition client_env :: "server \<Rightarrow> bool \<Rightarrow> dbenv" where
  "client_env s ro = \<lparr>env_now = mstime s, env_slave = False, env_loading = False, env_readonly = ro,
     env_lazy_expire = lazy_expire s, env_lazy_user_del = lazy_user_del s, env_lazy_server_del = lazy_server_del s\<rparr>"

subsection \<open>The command table\<close>

datatype proc = CtxProc "ctx \<Rightarrow> ctx option" | SelectProc | MultiProc | ExecProc | DiscardProc

record redisCommand =
  cmd_name :: sds
  cmd_proc :: proc
  cmd_arity :: int
  cmd_readonly :: bool

definition redisCommandTable :: "redisCommand list" where
  "redisCommandTable =
     [\<lparr>cmd_name = ''get'', cmd_proc = CtxProc getCommand, cmd_arity = 2, cmd_readonly = True\<rparr>,
      \<lparr>cmd_name = ''set'', cmd_proc = CtxProc setCommand, cmd_arity = -3, cmd_readonly = False\<rparr>,
      \<lparr>cmd_name = ''setnx'', cmd_proc = CtxProc setnxCommand, cmd_arity = 3, cmd_readonly = False\<rparr>,
      \<lparr>cmd_name = ''setex'', cmd_proc = CtxProc setexCommand, cmd_arity = 4, cmd_readonly = False\<rparr>,
      \<lparr>cmd_name = ''psetex'', cmd_proc = CtxProc psetexCommand, cmd_arity = 4, cmd_readonly = False\<rparr>,
      \<lparr>cmd_name = ''append'', cmd_proc = CtxProc appendCommand, cmd_arity = 3, cmd_readonly = False\<rparr>,
      \<lparr>cmd_name = ''strlen'', cmd_proc = CtxProc strlenCommand, cmd_arity = 2, cmd_readonly = True\<rparr>,
      \<lparr>cmd_name = ''del'', cmd_proc = CtxProc delCommand, cmd_arity = -2, cmd_readonly = False\<rparr>,
      \<lparr>cmd_name = ''unlink'', cmd_proc = CtxProc unlinkCommand, cmd_arity = -2, cmd_readonly = False\<rparr>,
      \<lparr>cmd_name = ''exists'', cmd_proc = CtxProc existsCommand, cmd_arity = -2, cmd_readonly = True\<rparr>,
      \<lparr>cmd_name = ''setrange'', cmd_proc = CtxProc setrangeCommand, cmd_arity = 4, cmd_readonly = False\<rparr>,
      \<lparr>cmd_name = ''getrange'', cmd_proc = CtxProc getrangeCommand, cmd_arity = 4, cmd_readonly = True\<rparr>,
      \<lparr>cmd_name = ''substr'', cmd_proc = CtxProc getrangeCommand, cmd_arity = 4, cmd_readonly = True\<rparr>,
      \<lparr>cmd_name = ''incr'', cmd_proc = CtxProc incrCommand, cmd_arity = 2, cmd_readonly = False\<rparr>,
      \<lparr>cmd_name = ''decr'', cmd_proc = CtxProc decrCommand, cmd_arity = 2, cmd_readonly = False\<rparr>,
      \<lparr>cmd_name = ''mget'', cmd_proc = CtxProc mgetCommand, cmd_arity = -2, cmd_readonly = True\<rparr>,
      \<lparr>cmd_name = ''incrby'', cmd_proc = CtxProc incrbyCommand, cmd_arity = 3, cmd_readonly = False\<rparr>,
      \<lparr>cmd_name = ''decrby'', cmd_proc = CtxProc decrbyCommand, cmd_arity = 3, cmd_readonly = False\<rparr>,
      \<lparr>cmd_name = ''getset'', cmd_proc = CtxProc getsetCommand, cmd_arity = 3, cmd_readonly = False\<rparr>,
      \<lparr>cmd_name = ''mset'', cmd_proc = CtxProc msetCommand, cmd_arity = -3, cmd_readonly = False\<rparr>,
      \<lparr>cmd_name = ''msetnx'', cmd_proc = CtxProc msetnxCommand, cmd_arity = -3, cmd_readonly = False\<rparr>,
      \<lparr>cmd_name = ''select'', cmd_proc = SelectProc, cmd_arity = 2, cmd_readonly = False\<rparr>,
      \<lparr>cmd_name = ''rename'', cmd_proc = CtxProc renameCommand, cmd_arity = 3, cmd_readonly = False\<rparr>,
      \<lparr>cmd_name = ''renamenx'', cmd_proc = CtxProc renamenxCommand, cmd_arity = 3, cmd_readonly = False\<rparr>,
      \<lparr>cmd_name = ''expire'', cmd_proc = CtxProc expireCommand, cmd_arity = 3, cmd_readonly = False\<rparr>,
      \<lparr>cmd_name = ''expireat'', cmd_proc = CtxProc expireatCommand, cmd_arity = 3, cmd_readonly = False\<rparr>,
      \<lparr>cmd_name = ''pexpire'', cmd_proc = CtxProc pexpireCommand, cmd_arity = 3, cmd_readonly = False\<rparr>,
      \<lparr>cmd_name = ''pexpireat'', cmd_proc = CtxProc pexpireatCommand, cmd_arity = 3, cmd_readonly = False\<rparr>,
      \<lparr>cmd_name = ''type'', cmd_proc = CtxProc typeCommand, cmd_arity = 2, cmd_readonly = True\<rparr>,
      \<lparr>cmd_name = ''multi'', cmd_proc = MultiProc, cmd_arity = 1, cmd_readonly = False\<rparr>,
      \<lparr>cmd_name = ''exec'', cmd_proc = ExecProc, cmd_arity = 1, cmd_readonly = False\<rparr>,
      \<lparr>cmd_name = ''discard'', cmd_proc = DiscardProc, cmd_arity = 1, cmd_readonly = False\<rparr>,
      \<lparr>cmd_name = ''ttl'', cmd_proc = CtxProc ttlCommand, cmd_arity = 2, cmd_readonly = True\<rparr>,
      \<lparr>cmd_name = ''pttl'', cmd_proc = CtxProc pttlCommand, cmd_arity = 2, cmd_readonly = True\<rparr>,
      \<lparr>cmd_name = ''persist'', cmd_proc = CtxProc persistCommand, cmd_arity = 2, cmd_readonly = False\<rparr>]"

text \<open>The dictionary of commands compares names without regard to case.\<close>

definition lookupCommand :: "sds \<Rightarrow> redisCommand option" where
  "lookupCommand name = find (\<lambda>cmd. map (\<lambda>c. tolower (of_char c)) name = map (\<lambda>c. tolower (of_char c)) (cmd_name cmd)) redisCommandTable"

subsection \<open>Running a command\<close>

definition run_ctx :: "(ctx \<Rightarrow> ctx option) \<Rightarrow> bool \<Rightarrow> cid \<Rightarrow> server \<Rightarrow> server option" where
  "run_ctx f ro cid s = do {
     c \<leftarrow> clients s cid;
     x \<leftarrow> f \<lparr>cx_env = client_env s ro, cx_db = dbs s ! c_db c, cx_cmd = c_cmd c, cx_argv = c_argv c, cx_out = c_reply c,
             cx_dirty = dirty s, cx_set_failed = backend_set_sync_reply c, cx_del_failed = backend_del_sync_reply c\<rparr>;
     Some ((update_client cid (\<lambda>c. c\<lparr>c_reply := cx_out x, backend_set_sync_reply := cx_set_failed x,
              backend_del_sync_reply := cx_del_failed x\<rparr>)
            (update_db (c_db c) (\<lambda>_. cx_db x) s))\<lparr>dirty := cx_dirty x\<rparr>)
   }"

definition reply_to :: "cid \<Rightarrow> reply \<Rightarrow> server \<Rightarrow> server" where
  "reply_to cid r s = update_client cid (\<lambda>c. c\<lparr>c_reply := c_reply c @ [r]\<rparr>) s"

text \<open>\<open>selectDb\<close> takes an \<open>int\<close>, to which the \<open>long\<close> is truncated.\<close>

definition selectDb :: "cid \<Rightarrow> int \<Rightarrow> server \<Rightarrow> server option" where
  "selectDb cid n s =
     (if n < 0 \<or> int (length (dbs s)) \<le> n then None else Some (update_client cid (\<lambda>c. c\<lparr>c_db := nat n\<rparr>) s))"

definition to_int32 :: "int \<Rightarrow> int" where
  "to_int32 v = (v + 2147483648) mod 4294967296 - 2147483648"

definition selectCommand :: "cid \<Rightarrow> server \<Rightarrow> server option" where
  "selectCommand cid s = do {
     c \<leftarrow> clients s cid;
     Some (case getLongLongFromObject (Some (createStringObject (c_argv c ! 1))) of
             None \<Rightarrow> reply_to cid (ReplyErr ErrInvalidDbIndex) s
           | Some n \<Rightarrow>
               (case selectDb cid (to_int32 n) s of
                  None \<Rightarrow> reply_to cid (ReplyErr ErrDbIndex) s
                | Some s \<Rightarrow> reply_to cid ReplyOk s))
   }"

subsection \<open>Transactions\<close>

definition queueMultiCommand :: "cid \<Rightarrow> server \<Rightarrow> server" where
  "queueMultiCommand cid s = update_client cid (\<lambda>c. c\<lparr>c_mstate := c_mstate c @ [(c_cmd c, c_argv c)]\<rparr>) s"

definition discardTransaction :: "cid \<Rightarrow> server \<Rightarrow> server" where
  "discardTransaction cid s = update_client cid (\<lambda>c. c\<lparr>c_mstate := [], c_multi := False, c_dirty_exec := False\<rparr>) s"

definition flagTransaction :: "cid \<Rightarrow> server \<Rightarrow> server" where
  "flagTransaction cid s = update_client cid (\<lambda>c. if c_multi c then c\<lparr>c_dirty_exec := True\<rparr> else c) s"

definition multiCommand :: "cid \<Rightarrow> server \<Rightarrow> server option" where
  "multiCommand cid s = do {
     c \<leftarrow> clients s cid;
     Some (if c_multi c then reply_to cid (ReplyErr ErrNestedMulti) s
           else reply_to cid ReplyOk (update_client cid (\<lambda>c. c\<lparr>c_multi := True\<rparr>) s))
   }"

definition discardCommand :: "cid \<Rightarrow> server \<Rightarrow> server option" where
  "discardCommand cid s = do {
     c \<leftarrow> clients s cid;
     Some (if \<not> c_multi c then reply_to cid (ReplyErr ErrNoMulti) s
           else reply_to cid ReplyOk (discardTransaction cid s))
   }"

text \<open>
  \<open>call\<close> for everything but EXEC, which calls it for the queued commands; \<open>processCommand\<close>
  never queues EXEC.
\<close>

definition call_simple :: "cid \<Rightarrow> server \<Rightarrow> server option" where
  "call_simple cid s = do {
     c \<leftarrow> clients s cid;
     cmd \<leftarrow> lookupCommand (c_cmd c);
     (case cmd_proc cmd of
        CtxProc f \<Rightarrow> run_ctx f (cmd_readonly cmd) cid s
      | SelectProc \<Rightarrow> selectCommand cid s
      | MultiProc \<Rightarrow> multiCommand cid s
      | DiscardProc \<Rightarrow> discardCommand cid s
      | ExecProc \<Rightarrow> None)
   }"

fun exec_loop :: "(sds \<times> sds list) list \<Rightarrow> cid \<Rightarrow> server \<Rightarrow> server option" where
  "exec_loop [] cid s = Some s"
| "exec_loop ((cmd, av) # rest) cid s = do {
     s \<leftarrow> call_simple cid (update_client cid (\<lambda>c. c\<lparr>c_cmd := cmd, c_argv := av\<rparr>) s);
     exec_loop rest cid s
   }"

definition is_readonly :: "sds \<Rightarrow> bool" where
  "is_readonly name = (case lookupCommand name of None \<Rightarrow> False | Some cmd \<Rightarrow> cmd_readonly cmd)"

definition execCommand :: "cid \<Rightarrow> server \<Rightarrow> server option" where
  "execCommand cid s = do {
     c \<leftarrow> clients s cid;
     (if \<not> c_multi c then Some (reply_to cid (ReplyErr ErrNoMulti) s)
      else if c_dirty_exec c then Some (discardTransaction cid (reply_to cid (ReplyErr ErrExecAbort) s))
      else do {
        s \<leftarrow> exec_loop (c_mstate c) cid (reply_to cid (ReplyArrayLen (length (c_mstate c))) s);
        let s = discardTransaction cid (update_client cid (\<lambda>c'. c'\<lparr>c_cmd := c_cmd c, c_argv := c_argv c\<rparr>) s);
        Some (if list_all (\<lambda>(cmd, av). is_readonly cmd) (c_mstate c) then s else s\<lparr>dirty := dirty s + 1\<rparr>)
      })
   }"

definition call :: "cid \<Rightarrow> server \<Rightarrow> server option" where
  "call cid s = do {
     c \<leftarrow> clients s cid;
     cmd \<leftarrow> lookupCommand (c_cmd c);
     (case cmd_proc cmd of ExecProc \<Rightarrow> execCommand cid s | _ \<Rightarrow> call_simple cid s)
   }"

definition resetClient :: "cid \<Rightarrow> server \<Rightarrow> server" where
  "resetClient cid s = update_client cid (\<lambda>c. c\<lparr>c_argv := []\<rparr>) s"

end
