(* ===== verification/Redisoo.thy ===== *)
theory Redisoo
  imports T_string
begin

text \<open>
  The access to the backend, \<open>src/src/redisoo.cc\<close>, and the configuration of its type in
  \<open>src/src/config.c\<close>.

  The database library (SOCI) and the gRPC runtime are not part of the repository.  They are
  the record \<open>backend_lib\<close>: whether a session opens, what the execution of a statement gives,
  and what the remote call gives.  Nothing is assumed of them; an exception or a failed status
  is one of the results.
\<close>

subsection \<open>Types of backends\<close>

definition Mysql :: nat where
  "Mysql = 1"

definition PostegreSql :: nat where
  "PostegreSql = 2"

definition Oracle :: nat where
  "Oracle = 3"

definition Odbc :: nat where
  "Odbc = 4"

definition Db2 :: nat where
  "Db2 = 5"

definition SqlLite :: nat where
  "SqlLite = 6"

definition Firebird :: nat where
  "Firebird = 7"

definition Empty :: nat where
  "Empty = 8"

definition GRPC :: nat where
  "GRPC = 100"

lemmas DatabaseType_defs =
  Mysql_def PostegreSql_def Oracle_def Odbc_def Db2_def SqlLite_def Firebird_def Empty_def GRPC_def

text \<open>At most 15 characters of the C string count, in lower case.\<close>

definition lower_name :: "sds \<Rightarrow> int list" where
  "lower_name s = map (\<lambda>c. tolower (of_char c)) s"

definition parseDbType :: "sds \<Rightarrow> nat" where
  "parseDbType val =
     (let db_type = lower_name (take 15 (takeWhile (\<lambda>c. c \<noteq> CHR 0x00) val))
      in if db_type = lower_name ''grpc'' then GRPC
         else if db_type = lower_name ''mysql'' then Mysql
         else if db_type = lower_name ''postegresql'' \<or> db_type = lower_name ''postegre'' then PostegreSql
         else if db_type = lower_name ''odbc'' then Odbc
         else if db_type = lower_name ''oracle'' then Oracle
         else if db_type = lower_name ''db2'' then Db2
         else if db_type = lower_name ''sqllite'' then SqlLite
         else if db_type = lower_name ''firebird'' then Firebird
         else if db_type = lower_name [] then Empty
         else 0)"

definition isValidRedisooDb :: "sds \<Rightarrow> bool" where
  "isValidRedisooDb val \<longleftrightarrow> parseDbType val \<noteq> 0"

subsection \<open>The calls\<close>

text \<open>The indicators of SOCI, the first with the value that was read.\<close>

datatype indicator = I_ok sds | I_null | I_truncated

datatype soci_result = Soci_throws | Soci_no_data | Soci_row indicator

record backend_lib =
  soci_open :: "string \<Rightarrow> sds \<Rightarrow> bool"
  soci_exec :: "sds \<Rightarrow> sds list \<Rightarrow> soci_result"
  grpc_call :: "sds \<Rightarrow> sds \<Rightarrow> (sds \<times> int) option"

definition open_connection :: "backend_lib \<Rightarrow> nat \<Rightarrow> sds \<Rightarrow> bool" where
  "open_connection lib db_type connection =
     (if db_type = Mysql then soci_open lib ''mysql'' connection
      else if db_type = PostegreSql then soci_open lib ''postegresql'' connection
      else if db_type = SqlLite then soci_open lib ''sqllit3'' connection
      else if db_type = Oracle then soci_open lib ''oracle'' connection
      else False)"

definition db_del :: "backend_lib \<Rightarrow> nat \<Rightarrow> sds \<Rightarrow> sds \<Rightarrow> sds \<Rightarrow> int" where
  "db_del lib db_type connection statement key =
     (if \<not> open_connection lib db_type connection then 0
      else if soci_exec lib statement [key] = Soci_throws then 0
      else 1)"

definition db_set :: "backend_lib \<Rightarrow> nat \<Rightarrow> sds \<Rightarrow> sds \<Rightarrow> sds \<Rightarrow> sds \<Rightarrow> int" where
  "db_set lib db_type connection statement key val =
     (if \<not> open_connection lib db_type connection then 0
      else if soci_exec lib statement [key, val] = Soci_throws then 0
      else 1)"

text \<open>
  A read returns a status and, when it is not 0, a pointer with a length: \<open>Some None\<close> is the
  null pointer, \<open>Some (Some v)\<close> a block of memory with the bytes \<open>v\<close>, and \<^const>\<open>None\<close> the status 0.
\<close>

definition db_get :: "backend_lib \<Rightarrow> nat \<Rightarrow> sds \<Rightarrow> sds \<Rightarrow> sds \<Rightarrow> sds option option" where
  "db_get lib db_type connection statement key =
     (if \<not> open_connection lib db_type connection then None
      else case soci_exec lib statement [key] of
             Soci_throws \<Rightarrow> None
           | Soci_no_data \<Rightarrow> None
           | Soci_row (I_ok v) \<Rightarrow> Some (Some v)
           | Soci_row I_null \<Rightarrow> Some None
           | Soci_row I_truncated \<Rightarrow> None)"

definition grpc_GetString :: "backend_lib \<Rightarrow> sds \<Rightarrow> sds \<Rightarrow> (sds option \<times> int) option" where
  "grpc_GetString lib connection key =
     (case grpc_call lib connection key of
        None \<Rightarrow> None
      | Some (v, ttl_ms) \<Rightarrow> Some (Some v, if ttl_ms > 0 then ttl_ms else 0))"

definition grpc_get :: "backend_lib \<Rightarrow> sds \<Rightarrow> sds \<Rightarrow> (sds option \<times> int) option" where
  "grpc_get lib connection key = grpc_GetString lib connection key"

end
