(* ===== verification/Backend.thy ===== *)
theory Backend
  imports Server Redisoo
begin

text \<open>
  The first half of \<open>src/src/backend.c\<close>: whether a command has to go to the backend, the
  keys that wait for it, the choice of the next job, and the client that has to wait.

  The main thread and the three workers share the job slots under a spin lock; everything
  else belongs to the main thread.  An operation returns an option: \<^const>\<open>None\<close> is a failed
  \<open>serverAssert\<close>, or a read through a pointer that is not one.  A pointer comparison of two
  keys of a job, which are copies of one string, is a comparison of the strings.
\<close>

datatype mode = GET_MODE | SET_MODE | DEL_MODE

subsection \<open>Candidates and jobs\<close>

text \<open>
  The dictionary of waiting keys of a mode: its size, and the key of its first entry in
  iteration order; the iterator is not safe and leaves the dictionary as it is.
\<close>

definition backend_size :: "mode \<Rightarrow> redisDb \<Rightarrow> nat" where
  "backend_size mode db =
     (case mode of GET_MODE \<Rightarrow> dictSize (backendGetKeys db) | SET_MODE \<Rightarrow> dictSize (backendSetKeys db)
      | DEL_MODE \<Rightarrow> dictSize (backendDelKeys db))"

definition backend_first :: "mode \<Rightarrow> redisDb \<Rightarrow> sds option" where
  "backend_first mode db =
     (case mode of GET_MODE \<Rightarrow> map_option fst (dict_first (backendGetKeys db))
      | SET_MODE \<Rightarrow> map_option fst (dict_first (backendSetKeys db))
      | DEL_MODE \<Rightarrow> map_option fst (dict_first (backendDelKeys db)))"

text \<open>The loop over the databases from index \<open>i\<close> on: no candidate, or its database and key.\<close>

fun candidate_loop :: "mode \<Rightarrow> nat \<Rightarrow> redisDb list \<Rightarrow> (nat \<times> sds) option option" where
  "candidate_loop mode i [] = Some None"
| "candidate_loop mode i (db # rest) =
     (if backend_size mode db \<noteq> 0 then map_option (\<lambda>key. Some (i, key)) (backend_first mode db)
      else candidate_loop mode (i + 1) rest)"

definition hasAvailableCandidate :: "mode \<Rightarrow> server \<Rightarrow> (nat \<times> sds) option option" where
  "hasAvailableCandidate mode s = candidate_loop mode 0 (dbs s)"

text \<open>Neither a working key nor a returned key.\<close>

definition job_all_null :: "mode \<Rightarrow> server \<Rightarrow> bool" where
  "job_all_null mode s =
     (case mode of
        GET_MODE \<Rightarrow> getKey (server_getJob s) = None \<and> returnGetKey (server_getJob s) = None
      | SET_MODE \<Rightarrow> setKey_job (server_setJob s) = None \<and> returnSetKey (server_setJob s) = None
      | DEL_MODE \<Rightarrow> delKey (server_delJob s) = None \<and> returnDelKey (server_delJob s) = None)"

definition createJob :: "mode \<Rightarrow> nat \<Rightarrow> sds \<Rightarrow> server \<Rightarrow> server option" where
  "createJob mode dbid key s =
     (case mode of
        GET_MODE \<Rightarrow>
          if \<not> job_all_null GET_MODE s then None
          else Some (s\<lparr>server_getJob := (server_getJob s)\<lparr>getKey := Some key, get_dbid := int dbid\<rparr>\<rparr>)
      | SET_MODE \<Rightarrow>
          if \<not> job_all_null SET_MODE s \<or> valToBackend (server_setJob s) \<noteq> None then None
          else
            let (d, found) = dictFind (backendSetKeys (dbs s ! dbid)) key;
                s = update_db dbid (\<lambda>db. db\<lparr>backendSetKeys := d\<rparr>) s
            in do {
              info \<leftarrow> found;
              Some (s\<lparr>server_setJob := (server_setJob s)\<lparr>setKey_job := Some key, set_dbid := int dbid, setSyncResult := 0,
                 valToBackend := Some (setValue info), job_setTtl := setTtl info\<rparr>\<rparr>)
            }
      | DEL_MODE \<Rightarrow>
          if \<not> job_all_null DEL_MODE s then None
          else Some (s\<lparr>server_delJob := (server_delJob s)\<lparr>delKey := Some key, del_dbid := int dbid, delSyncResult := 0\<rparr>\<rparr>))"

definition createNewJobIfHasMoreCandidates :: "mode \<Rightarrow> bool \<Rightarrow> server \<Rightarrow> server option" where
  "createNewJobIfHasMoreCandidates mode need_check_key_first s =
     (if need_check_key_first \<and> \<not> job_all_null mode s then Some s
      else do {
        cand \<leftarrow> hasAvailableCandidate mode s;
        (case cand of None \<Rightarrow> Some s | Some (dbid, key) \<Rightarrow> createJob mode dbid key s)
      })"

subsection \<open>Which commands go to the backend\<close>

text \<open>A lookup by the checks, outside of any command; it may remove an expired key.\<close>

definition check_lookup :: "cid \<Rightarrow> sds \<Rightarrow> server \<Rightarrow> (server \<times> robj option) option" where
  "check_lookup cid key s = do {
     c \<leftarrow> clients s cid;
     (db, o') \<leftarrow> lookupKeyRead (client_env s (is_readonly (c_cmd c))) (dbs s ! c_db c) key;
     Some (update_db (c_db c) (\<lambda>_. db) s, o')
   }"

definition checkGetCommandForBackendState :: "cid \<Rightarrow> server \<Rightarrow> (server \<times> bool) option" where
  "checkGetCommandForBackendState cid s = do {
     c \<leftarrow> clients s cid;
     (if c_cmd c \<noteq> ''get'' then Some (s, False)
      else if redisoo_db_type s \<noteq> GRPC \<and> redisoo_get s = [] then Some (s, False)
      else do {
        let key = c_argv c ! 1;
        (s, o') \<leftarrow> check_lookup cid key s;
        (if o' \<noteq> None then Some (s, False)
         else if valFromBackend (server_getJob s) = None \<and> returnGetKey (server_getJob s) = Some key then Some (s, False)
         else Some (s, True))
      })
   }"

definition isSetCommnd :: "sds \<Rightarrow> bool" where
  "isSetCommnd name \<longleftrightarrow> name = ''set'' \<or> name = ''setex'' \<or> name = ''setnx'' \<or> name = ''psetex''"

definition isSameKeyWithDifferentValForSet :: "cid \<Rightarrow> server \<Rightarrow> (server \<times> bool) option" where
  "isSameKeyWithDifferentValForSet cid s = do {
     c \<leftarrow> clients s cid;
     let (d, found) = dictFind (backendSetKeys (dbs s ! c_db c)) (c_argv c ! 1);
     let s = update_db (c_db c) (\<lambda>db. db\<lparr>backendSetKeys := d\<rparr>) s;
     Some (s, case found of None \<Rightarrow> False | Some info \<Rightarrow> setValue info \<noteq> c_argv c ! 2)
   }"

text \<open>\<open>o->ptr\<close> is taken for a string whatever the encoding of the object.\<close>

definition isSameValueInDbForSet :: "cid \<Rightarrow> server \<Rightarrow> (server \<times> bool) option" where
  "isSameValueInDbForSet cid s = do {
     c \<leftarrow> clients s cid;
     (s, o') \<leftarrow> check_lookup cid (c_argv c ! 1) s;
     (case o' of
        None \<Rightarrow> Some (s, False)
      | Some ob \<Rightarrow>
          if is_string ob then do { p \<leftarrow> obj_ptr ob; Some (s, c_argv c ! 2 = p) }
          else Some (s, False))
   }"

definition isNoKeyInDbDictForDel :: "client \<Rightarrow> server \<Rightarrow> bool" where
  "isNoKeyInDbDictForDel c s \<longleftrightarrow> db_dict (dbs s ! c_db c) (c_argv c ! 1) = None"

definition checkSetCommandForBackendState :: "cid \<Rightarrow> server \<Rightarrow> (server \<times> bool) option" where
  "checkSetCommandForBackendState cid s = do {
     c \<leftarrow> clients s cid;
     (if \<not> isSetCommnd (c_cmd c) then Some (s, False)
      else if redisoo_set s = [] then Some (s, False)
      else do {
        (s, exists) \<leftarrow> (if c_cmd c = ''setnx'' then do {
                           (s, o') \<leftarrow> check_lookup cid (c_argv c ! 1) s;
                           Some (s, o' \<noteq> None)
                         } else Some (s, False));
        (if exists then Some (s, False)
         else do {
           (s, different) \<leftarrow> isSameKeyWithDifferentValForSet cid s;
           (if different then Some (s, False)
            else do {
              (s, same) \<leftarrow> isSameValueInDbForSet cid s;
              Some (s, \<not> same)
            })
         })
      })
   }"

definition checkDelCommandForBackendState :: "cid \<Rightarrow> server \<Rightarrow> bool option" where
  "checkDelCommandForBackendState cid s = do {
     c \<leftarrow> clients s cid;
     Some (c_cmd c = ''del'' \<and> redisoo_del s \<noteq> [] \<and> \<not> length (c_argv c) > 2 \<and> \<not> isNoKeyInDbDictForDel c s)
   }"

definition getTtlForSetCommand :: "client \<Rightarrow> int" where
  "getTtlForSetCommand c =
     (if c_cmd c = ''set'' then
        (case set_options (drop 3 (c_argv c)) OBJ_SET_NO_FLAGS None UNIT_SECONDS of
           None \<Rightarrow> 0
         | Some (flags, expire, unit) \<Rightarrow>
             (case getLongLongFromObject (map_option createStringObject expire) of
                None \<Rightarrow> 0
              | Some v \<Rightarrow> if unit = UNIT_SECONDS then sll (1000 * v) else v))
      else if c_cmd c = ''setex'' then
        (case getLongLongFromObject (Some (createStringObject (c_argv c ! 2))) of None \<Rightarrow> 0 | Some v \<Rightarrow> sll (v * 1000))
      else if c_cmd c = ''psetex'' then
        (case getLongLongFromObject (Some (createStringObject (c_argv c ! 2))) of None \<Rightarrow> 0 | Some v \<Rightarrow> v)
      else 0)"

definition getValueFromSetCommand :: "client \<Rightarrow> sds" where
  "getValueFromSetCommand c = (if c_cmd c = ''setex'' \<or> c_cmd c = ''psetex'' then c_argv c ! 3 else c_argv c ! 2)"

subsection \<open>Waiting\<close>

text \<open>
  \<open>_addKeyToBackendKeys\<close> for the two dictionaries of plain client lists; after the key has been
  added if it was missing, a synchronous client goes to the end of its list.
\<close>

definition add_waiting :: "bool \<Rightarrow> (sds, cid list) dict \<Rightarrow> sds \<Rightarrow> cid \<Rightarrow> bool \<Rightarrow> (sds, cid list) dict option" where
  "add_waiting can_resize d key cid sync =
     (let (d, found) = dictFind d key;
          (d, found) = (case found of
                          None \<Rightarrow> dictFind (fst (dictAdd can_resize d key [])) key
                        | Some cs \<Rightarrow> (d, Some cs))
      in do {
        cs \<leftarrow> found;
        Some (if sync then dictSetVal d key (cs @ [cid]) else d)
      })"

definition add_set_waiting :: "bool \<Rightarrow> (sds, backendSetInfo) dict \<Rightarrow> sds \<Rightarrow> sds \<Rightarrow> int \<Rightarrow> cid \<Rightarrow> bool \<Rightarrow> (sds, backendSetInfo) dict option" where
  "add_set_waiting can_resize d key val ttl cid sync =
     (let (d, found) = dictFind d key
      in do {
        (d, info) \<leftarrow>
          (case found of
             None \<Rightarrow>
               (case dictFind (fst (dictAdd can_resize d key \<lparr>setValue = val, setTtl = ttl, set_clients = []\<rparr>)) key of
                  (d, None) \<Rightarrow> None
                | (d, Some info) \<Rightarrow> Some (d, info))
           | Some info \<Rightarrow>
               if setValue info \<noteq> val then None
               else Some (dictSetVal d key (info\<lparr>setTtl := ttl\<rparr>), info\<lparr>setTtl := ttl\<rparr>));
        Some (if sync then dictSetVal d key (info\<lparr>set_clients := set_clients info @ [cid]\<rparr>) else d)
      })"

definition addKeyToBackendKeys :: "mode \<Rightarrow> cid \<Rightarrow> bool \<Rightarrow> server \<Rightarrow> server option" where
  "addKeyToBackendKeys mode cid sync s = do {
     c \<leftarrow> clients s cid;
     let i = c_db c;
     let key = c_argv c ! 1;
     let db = dbs s ! i;
     (case mode of
        GET_MODE \<Rightarrow> do {
          d \<leftarrow> add_waiting (dict_can_resize s) (backendGetKeys db) key cid sync;
          Some (update_db i (\<lambda>db. db\<lparr>backendGetKeys := d\<rparr>) s)
        }
      | SET_MODE \<Rightarrow> do {
          d \<leftarrow> add_set_waiting (dict_can_resize s) (backendSetKeys db) key (getValueFromSetCommand c) (getTtlForSetCommand c) cid sync;
          Some (update_db i (\<lambda>db. db\<lparr>backendSetKeys := d\<rparr>) s)
        }
      | DEL_MODE \<Rightarrow> do {
          d \<leftarrow> add_waiting (dict_can_resize s) (backendDelKeys db) key cid sync;
          Some (update_db i (\<lambda>db. db\<lparr>backendDelKeys := d\<rparr>) s)
        })
   }"

fun mode_state :: "mode \<Rightarrow> bstate" where
  "mode_state GET_MODE = CLIENT_BACKEND_GET"
| "mode_state SET_MODE = CLIENT_BACKEND_SET"
| "mode_state DEL_MODE = CLIENT_BACKEND_DEL"

text \<open>The three steps after a check has said yes.\<close>

definition enter_backend :: "mode \<Rightarrow> bool \<Rightarrow> cid \<Rightarrow> server \<Rightarrow> server option" where
  "enter_backend mode sync cid s = do {
     let s = (if sync then update_client cid (\<lambda>c. c\<lparr>backend_state := mode_state mode\<rparr>) s else s);
     s \<leftarrow> addKeyToBackendKeys mode cid sync s;
     createNewJobIfHasMoreCandidates mode True s
   }"

definition checkNeedToBackendState :: "cid \<Rightarrow> server \<Rightarrow> server option" where
  "checkNeedToBackendState cid s = do {
     c \<leftarrow> clients s cid;
     (if backend_state c \<noteq> CLIENT_BACKEND_NORMAL then None
      else if redisoo_db_type s = 0 then Some s
      else if c_multi c then Some s
      else do {
        (s, need) \<leftarrow> checkGetCommandForBackendState cid s;
        (if need then enter_backend GET_MODE (redisoo_get_sync s) cid s
         else do {
           (s, need) \<leftarrow> checkSetCommandForBackendState cid s;
           (if need then enter_backend SET_MODE (redisoo_set_sync s) cid s
            else do {
              need \<leftarrow> checkDelCommandForBackendState cid s;
              (if need then enter_backend DEL_MODE (redisoo_del_sync s) cid s else Some s)
            })
         })
      })
   }"

end
