(* ===== verification/Process.thy ===== *)
theory Process
  imports Backend
begin

text \<open>
  The processing of the commands of a client: \<open>processCommand\<close> of \<open>src/src/server.c\<close>, and the
  loop over the query buffer of \<open>src/src/networking.c\<close>.
\<close>

definition is_quit :: "sds \<Rightarrow> bool" where
  "is_quit name = strcasecmp_eq name ''quit''"

definition wrong_arity :: "redisCommand \<Rightarrow> nat \<Rightarrow> bool" where
  "wrong_arity cmd n \<longleftrightarrow> (cmd_arity cmd > 0 \<and> cmd_arity cmd \<noteq> int n) \<or> int n < - cmd_arity cmd"

text \<open>
  The flag is \<open>C_OK\<close>.  Access control, cluster redirection, memory limits, failing disks and
  replicas, Pub/Sub and scripts are outside of the model; their checks pass.
\<close>

definition queued_in_multi :: "proc \<Rightarrow> bool" where
  "queued_in_multi p = (case p of ExecProc \<Rightarrow> False | DiscardProc \<Rightarrow> False | MultiProc \<Rightarrow> False | _ \<Rightarrow> True)"

text \<open>The end of \<open>processCommand\<close>: a command is queued in a transaction, or executed unless it has to wait.\<close>

definition queue_or_call :: "cid \<Rightarrow> redisCommand \<Rightarrow> server \<Rightarrow> (server \<times> bool) option" where
  "queue_or_call cid cmd s = do {
     c \<leftarrow> clients s cid;
     (if c_multi c \<and> queued_in_multi (cmd_proc cmd)
      then Some (reply_to cid (ReplyStatus ''QUEUED'') (queueMultiCommand cid s), True)
      else do {
        s \<leftarrow> checkNeedToBackendState cid s;
        c \<leftarrow> clients s cid;
        (if backend_state c = CLIENT_BACKEND_NORMAL then do { s \<leftarrow> call cid s; Some (s, True) }
         else Some (s, True))
      })
   }"

text \<open>
  The text of the error for an unknown command: the name, and the arguments up to a total of 128
  bytes; \<open>%s\<close> ends at a null byte.
\<close>

definition c_str :: "sds \<Rightarrow> sds" where
  "c_str s = takeWhile (\<lambda>ch. ch \<noteq> CHR 0x00) s"

fun unknown_args :: "sds list \<Rightarrow> sds \<Rightarrow> sds" where
  "unknown_args [] args = args"
| "unknown_args (a # rest) args =
     (if length args < 128 then unknown_args rest (args @ ''`'' @ take (128 - length args) (c_str a) @ ''`, '') else args)"

definition processCommand :: "cid \<Rightarrow> server \<Rightarrow> (server \<times> bool) option" where
  "processCommand cid s = do {
     c \<leftarrow> clients s cid;
     (if is_quit (c_argv c ! 0)
      then Some (update_client cid (\<lambda>c. c\<lparr>c_close := True\<rparr>) (reply_to cid ReplyOk s), False)
      else case lookupCommand (c_argv c ! 0) of
          None \<Rightarrow>
            let s = flagTransaction cid (update_client cid (\<lambda>c. c\<lparr>c_cmd := []\<rparr>) s)
            in Some (reply_to cid (ReplyErr (ErrUnknownCommand (c_str (c_argv c ! 0)) (unknown_args (tl (c_argv c)) []))) s, True)
        | Some cmd \<Rightarrow>
            let s = update_client cid (\<lambda>c. c\<lparr>c_cmd := cmd_name cmd\<rparr>) s
            in if wrong_arity cmd (length (c_argv c))
               then Some (reply_to cid (ReplyErr (ErrArity (cmd_name cmd))) (flagTransaction cid s), True)
               else queue_or_call cid cmd s)
   }"

definition processCommandAndResetClient :: "cid \<Rightarrow> server \<Rightarrow> server option" where
  "processCommandAndResetClient cid s = do {
     (s, ok) \<leftarrow> processCommand cid s;
     c \<leftarrow> clients s cid;
     Some (if ok \<and> backend_state c = CLIENT_BACKEND_NORMAL then resetClient cid s else s)
   }"

text \<open>
  The loop over the commands of the query buffer.  Every round takes one command off, so
  the length of the buffer bounds the rounds.
\<close>

fun process_loop :: "nat \<Rightarrow> cid \<Rightarrow> server \<Rightarrow> server option" where
  "process_loop 0 cid s = Some s"
| "process_loop (Suc n) cid s = do {
     c \<leftarrow> clients s cid;
     (case querybuf c of
        [] \<Rightarrow> Some s
      | av # rest \<Rightarrow>
          if backend_state c \<noteq> CLIENT_BACKEND_NORMAL \<or> c_close c then Some s
          else do {
            let s = update_client cid (\<lambda>c. c\<lparr>querybuf := rest, c_argv := av\<rparr>) s;
            s \<leftarrow> (if av = [] then Some (resetClient cid s) else processCommandAndResetClient cid s);
            process_loop n cid s
          })
   }"

definition processInputBuffer :: "cid \<Rightarrow> server \<Rightarrow> server option" where
  "processInputBuffer cid s = do {
     c \<leftarrow> clients s cid;
     process_loop (length (querybuf c)) cid s
   }"

text \<open>New input of a client: \<open>readQueryFromClient\<close> appends it and processes the buffer.\<close>

definition readQueryFromClient :: "cid \<Rightarrow> sds list list \<Rightarrow> server \<Rightarrow> server option" where
  "readQueryFromClient cid cmds s = processInputBuffer cid (update_client cid (\<lambda>c. c\<lparr>querybuf := querybuf c @ cmds\<rparr>) s)"

end
