(* ===== verification/Backend_Jobs.thy ===== *)
theory Backend_Jobs
  imports Process
begin

text \<open>
  The second half of \<open>src/src/backend.c\<close>: the workers, the end of a job, the resumption of the
  clients that wait, and the removal of a client that goes away.
\<close>

subsection \<open>The end of a job\<close>

definition initBackendZeroJobs :: "server \<Rightarrow> server" where
  "initBackendZeroJobs s = s\<lparr>
     server_getJob := \<lparr>get_dbid = -1, getKey = None, returnGetKey = None, valFromBackend = None\<rparr>,
     server_setJob := \<lparr>set_dbid = -1, setKey_job = None, returnSetKey = None, valToBackend = None, setSyncResult = 0, job_setTtl = 0\<rparr>,
     server_delJob := \<lparr>del_dbid = -1, delKey = None, returnDelKey = None, delSyncResult = 0\<rparr>\<rparr>"

definition resumeBackendClient :: "cid \<Rightarrow> server \<Rightarrow> server option" where
  "resumeBackendClient cid s = do {
     c \<leftarrow> clients s cid;
     (if backend_state c = CLIENT_BACKEND_NORMAL then None
      else do {
        s \<leftarrow> call cid (update_client cid (\<lambda>c. c\<lparr>backend_state := CLIENT_BACKEND_NORMAL\<rparr>) s);
        processInputBuffer cid (resetClient cid s)
      })
   }"

definition createStringObject_backend :: "sds \<Rightarrow> robj" where
  "createStringObject_backend s =
     (if length s \<le> OBJ_ENCODING_EMBSTR_SIZE_LIMIT then createEmbeddedStringObject s else createRawStringObject s)"

text \<open>The value that the backend returned, or took, goes into the keyspace.\<close>

definition store_result :: "nat \<Rightarrow> sds \<Rightarrow> sds \<Rightarrow> int \<Rightarrow> server \<Rightarrow> server option" where
  "store_result dbid key val ttl s = do {
     db \<leftarrow> genericSetKey (client_env s False) (dbs s ! dbid) key (createStringObject_backend val) True;
     db \<leftarrow> (if ttl > 0 then setExpire db key (sll (mstime s + ttl)) else Some db);
     Some (update_db dbid (\<lambda>_. db) (s\<lparr>dirty := dirty s + 1\<rparr>))
   }"

text \<open>The clients that wait for a key, and the removal of the key; both are dictionary lookups.\<close>

definition take_waiting :: "mode \<Rightarrow> nat \<Rightarrow> sds \<Rightarrow> server \<Rightarrow> (server \<times> cid list) option" where
  "take_waiting mode dbid key s =
     (case mode of
        GET_MODE \<Rightarrow>
          (case dictFind (backendGetKeys (dbs s ! dbid)) key of
             (d, None) \<Rightarrow> None
           | (d, Some cs) \<Rightarrow>
               (case dictDelete d key of
                  (d, False) \<Rightarrow> None
                | (d, True) \<Rightarrow> Some (update_db dbid (\<lambda>db. db\<lparr>backendGetKeys := d\<rparr>) s, cs)))
      | SET_MODE \<Rightarrow>
          (case dictFind (backendSetKeys (dbs s ! dbid)) key of
             (d, None) \<Rightarrow> None
           | (d, Some info) \<Rightarrow>
               (case dictDelete (fst (dictFind d key)) key of
                  (d, False) \<Rightarrow> None
                | (d, True) \<Rightarrow> Some (update_db dbid (\<lambda>db. db\<lparr>backendSetKeys := d\<rparr>) s, set_clients info)))
      | DEL_MODE \<Rightarrow>
          (case dictFind (backendDelKeys (dbs s ! dbid)) key of
             (d, None) \<Rightarrow> None
           | (d, Some cs) \<Rightarrow>
               (case dictDelete d key of
                  (d, False) \<Rightarrow> None
                | (d, True) \<Rightarrow> Some (update_db dbid (\<lambda>db. db\<lparr>backendDelKeys := d\<rparr>) s, cs))))"

text \<open>The loop over the copied list: a failed write is noted on the client before it resumes.\<close>

fun resume_all :: "mode \<Rightarrow> int \<Rightarrow> cid list \<Rightarrow> server \<Rightarrow> server option" where
  "resume_all mode result [] s = Some s"
| "resume_all mode result (cid # rest) s = do {
     let s = (if mode = SET_MODE \<and> result = 0 then update_client cid (\<lambda>c. c\<lparr>backend_set_sync_reply := True\<rparr>) s
              else if mode = DEL_MODE \<and> result = 0 then update_client cid (\<lambda>c. c\<lparr>backend_del_sync_reply := True\<rparr>) s
              else s);
     s \<leftarrow> resumeBackendClient cid s;
     resume_all mode result rest s
   }"

definition clear_job :: "mode \<Rightarrow> server \<Rightarrow> server option" where
  "clear_job mode s =
     (case mode of
        GET_MODE \<Rightarrow>
          if returnGetKey (server_getJob s) = None \<or> getKey (server_getJob s) \<noteq> returnGetKey (server_getJob s) then None
          else Some (s\<lparr>server_getJob := \<lparr>get_dbid = -1, getKey = None, returnGetKey = None, valFromBackend = None\<rparr>\<rparr>)
      | SET_MODE \<Rightarrow>
          if returnSetKey (server_setJob s) = None \<or> setKey_job (server_setJob s) \<noteq> returnSetKey (server_setJob s) then None
          else Some (s\<lparr>server_setJob := \<lparr>set_dbid = -1, setKey_job = None, returnSetKey = None, valToBackend = None,
                 setSyncResult = 0, job_setTtl = 0\<rparr>\<rparr>)
      | DEL_MODE \<Rightarrow>
          if returnDelKey (server_delJob s) = None \<or> delKey (server_delJob s) \<noteq> returnDelKey (server_delJob s) then None
          else Some (s\<lparr>server_delJob := \<lparr>del_dbid = -1, delKey = None, returnDelKey = None, delSyncResult = 0\<rparr>\<rparr>))"

definition clearFinishKey :: "mode \<Rightarrow> nat \<Rightarrow> sds \<Rightarrow> sds option \<Rightarrow> int \<Rightarrow> int \<Rightarrow> server \<Rightarrow> server option" where
  "clearFinishKey mode dbid key val setOrDelResult ttl s = do {
     s \<leftarrow> (case mode of
            GET_MODE \<Rightarrow> (case val of None \<Rightarrow> Some s | Some v \<Rightarrow> store_result dbid key v (redisoo_get_ttl s) s)
          | SET_MODE \<Rightarrow>
              if setOrDelResult \<noteq> 0 then do { v \<leftarrow> val; store_result dbid key v ttl s } else Some s
          | DEL_MODE \<Rightarrow> Some s);
     (s, copyClients) \<leftarrow> take_waiting mode dbid key s;
     s \<leftarrow> resume_all mode setOrDelResult copyClients s;
     s \<leftarrow> clear_job mode s;
     createNewJobIfHasMoreCandidates mode False s
   }"

subsection \<open>The pipe handlers of the main thread\<close>

definition getPipeMainThreadHandler :: "server \<Rightarrow> server option" where
  "getPipeMainThreadHandler s =
     (let j = server_getJob s
      in if get_dbid j = -1 \<or> getKey j = None \<or> returnGetKey j = None \<or> getKey j \<noteq> returnGetKey j then None
         else do {
           s \<leftarrow> clearFinishKey GET_MODE (nat (get_dbid j)) (the (returnGetKey j)) (valFromBackend j) 0 0 s;
           Some (s\<lparr>get_pipe := get_pipe s - 1\<rparr>)
         })"

definition setPipeMainThreadHandler :: "server \<Rightarrow> server option" where
  "setPipeMainThreadHandler s =
     (let j = server_setJob s
      in if set_dbid j = -1 \<or> setKey_job j = None \<or> returnSetKey j = None \<or> setKey_job j \<noteq> returnSetKey j then None
         else do {
           s \<leftarrow> clearFinishKey SET_MODE (nat (set_dbid j)) (the (returnSetKey j)) (valToBackend j) (setSyncResult j) (job_setTtl j) s;
           Some (s\<lparr>set_pipe := set_pipe s - 1\<rparr>)
         })"

definition delPipeMainThreadHandler :: "server \<Rightarrow> server option" where
  "delPipeMainThreadHandler s =
     (let j = server_delJob s
      in if del_dbid j = -1 \<or> delKey j = None \<or> returnDelKey j = None \<or> delKey j \<noteq> returnDelKey j then None
         else do {
           s \<leftarrow> clearFinishKey DEL_MODE (nat (del_dbid j)) (the (returnDelKey j)) None (delSyncResult j) 0 s;
           Some (s\<lparr>del_pipe := del_pipe s - 1\<rparr>)
         })"

subsection \<open>The workers\<close>

definition getJobInWorkingThread :: "mode \<Rightarrow> server \<Rightarrow> (int \<times> sds) option" where
  "getJobInWorkingThread mode s =
     (case mode of
        GET_MODE \<Rightarrow>
          if returnGetKey (server_getJob s) = None then map_option (\<lambda>key. (get_dbid (server_getJob s), key)) (getKey (server_getJob s))
          else None
      | SET_MODE \<Rightarrow>
          if returnSetKey (server_setJob s) = None then map_option (\<lambda>key. (set_dbid (server_setJob s), key)) (setKey_job (server_setJob s))
          else None
      | DEL_MODE \<Rightarrow>
          if returnDelKey (server_delJob s) = None then map_option (\<lambda>key. (del_dbid (server_delJob s), key)) (delKey (server_delJob s))
          else None)"

text \<open>
  The calls to the backend.  A read without a status or without a value gives nothing; the
  assertion after it wants a value of at least one byte.
\<close>

definition implementGetJob :: "backend_lib \<Rightarrow> server \<Rightarrow> sds \<Rightarrow> sds option option" where
  "implementGetJob lib s key =
     (let r = (if redisoo_db_type s = GRPC then map_option fst (grpc_get lib (redisoo_connection s) key)
               else db_get lib (redisoo_db_type s) (redisoo_connection s) (redisoo_get s) key)
      in case r of
           None \<Rightarrow> Some None
         | Some None \<Rightarrow> Some None
         | Some (Some v) \<Rightarrow> if length v = 0 then None else Some (Some v))"

definition implementSetJob :: "backend_lib \<Rightarrow> server \<Rightarrow> sds \<Rightarrow> sds \<Rightarrow> int" where
  "implementSetJob lib s key val = db_set lib (redisoo_db_type s) (redisoo_connection s) (redisoo_set s) key val"

definition implementDelJob :: "backend_lib \<Rightarrow> server \<Rightarrow> sds \<Rightarrow> int" where
  "implementDelJob lib s key = db_del lib (redisoo_db_type s) (redisoo_connection s) (redisoo_del s) key"

text \<open>The second locked section of a worker: the result goes into the job.\<close>

definition return_get :: "sds \<Rightarrow> sds option \<Rightarrow> server \<Rightarrow> server option" where
  "return_get key val s =
     (let j = server_getJob s
      in if getKey j \<noteq> Some key \<or> returnGetKey j \<noteq> None then None
         else Some (s\<lparr>server_getJob := j\<lparr>returnGetKey := Some key, valFromBackend := val\<rparr>\<rparr>))"

definition return_set :: "sds \<Rightarrow> int \<Rightarrow> server \<Rightarrow> server option" where
  "return_set key ret s =
     (let j = server_setJob s
      in if setKey_job j \<noteq> Some key \<or> returnSetKey j \<noteq> None then None
         else Some (s\<lparr>server_setJob := j\<lparr>returnSetKey := Some key, setSyncResult := ret\<rparr>\<rparr>))"

definition return_del :: "sds \<Rightarrow> int \<Rightarrow> server \<Rightarrow> server option" where
  "return_del key ret s =
     (let j = server_delJob s
      in if delKey j \<noteq> Some key \<or> returnDelKey j \<noteq> None then None
         else Some (s\<lparr>server_delJob := j\<lparr>returnDelKey := Some key, delSyncResult := ret\<rparr>\<rparr>))"

definition signal_main :: "mode \<Rightarrow> server \<Rightarrow> server" where
  "signal_main mode s =
     (case mode of
        GET_MODE \<Rightarrow> s\<lparr>get_pipe := get_pipe s + 1\<rparr>
      | SET_MODE \<Rightarrow> s\<lparr>set_pipe := set_pipe s + 1\<rparr>
      | DEL_MODE \<Rightarrow> s\<lparr>del_pipe := del_pipe s + 1\<rparr>)"

text \<open>
  \<open>_haveJobThenDoJobInWorkingThread\<close>, one locked section at a time; the backend is called
  between the sections.  The program counter of a worker says which section comes next:
  \<open>W_Key\<close> after it has a key, \<open>W_Val\<close> after it has the value to write, \<open>W_Done\<close> when
  only the byte for the main thread is left.
\<close>

datatype wpc = W_Idle | W_Key sds | W_Val sds sds | W_Done

definition worker_step :: "mode \<Rightarrow> backend_lib \<Rightarrow> wpc \<Rightarrow> server \<Rightarrow> (wpc \<times> server) option" where
  "worker_step mode lib pc s =
     (case pc of
        W_Idle \<Rightarrow>
          (case getJobInWorkingThread mode s of
             None \<Rightarrow> Some (W_Idle, s)
           | Some (dbid, key) \<Rightarrow> if 0 \<le> dbid \<and> dbid < int (length (dbs s)) then Some (W_Key key, s) else None)
      | W_Key key \<Rightarrow>
          (case mode of
             GET_MODE \<Rightarrow> do {
               val \<leftarrow> implementGetJob lib s key;
               s \<leftarrow> return_get key val s;
               Some (W_Done, s)
             }
           | SET_MODE \<Rightarrow> do {
               val \<leftarrow> valToBackend (server_setJob s);
               Some (W_Val key val, s)
             }
           | DEL_MODE \<Rightarrow> do {
               s \<leftarrow> return_del key (implementDelJob lib s key) s;
               Some (W_Done, s)
             })
      | W_Val key val \<Rightarrow> do {
          s \<leftarrow> return_set key (implementSetJob lib s key val) s;
          Some (W_Done, s)
        }
      | W_Done \<Rightarrow> Some (W_Idle, signal_main mode s))"

definition BACKEND_THREAD_MAX_SLEEP_IN_US :: nat where
  "BACKEND_THREAD_MAX_SLEEP_IN_US = 1024"

text \<open>
  One round of a worker's loop: the time it sleeps, when there was no job, and the value of
  \<open>sleepMicro\<close> for the next round.
\<close>

definition worker_sleep :: "bool \<Rightarrow> nat \<Rightarrow> nat option \<times> nat" where
  "worker_sleep had_job sleepMicro =
     (if had_job then (None, 1)
      else
        let sleepMicro = (if sleepMicro \<ge> BACKEND_THREAD_MAX_SLEEP_IN_US then BACKEND_THREAD_MAX_SLEEP_IN_US else sleepMicro)
        in (Some sleepMicro, sleepMicro * 2))"

text \<open>The loop of a worker over a number of rounds, each with or without a job: the times it sleeps, and \<open>sleepMicro\<close> at the end.\<close>

fun sleep_loop :: "bool list \<Rightarrow> nat \<Rightarrow> nat list \<times> nat" where
  "sleep_loop [] sleepMicro = ([], sleepMicro)"
| "sleep_loop (had_job # rounds) sleepMicro =
     (let (t, sleepMicro) = worker_sleep had_job sleepMicro; (ts, sleepMicro) = sleep_loop rounds sleepMicro
      in ((case t of None \<Rightarrow> ts | Some t \<Rightarrow> t # ts), sleepMicro))"

subsection \<open>A client goes away\<close>

text \<open>The client is taken out of every list; the values are changed in place during the iteration.\<close>

definition dict_map_values :: "('v \<Rightarrow> 'v) \<Rightarrow> ('k, 'v) dict \<Rightarrow> ('k, 'v) dict" where
  "dict_map_values f d =
     (if dictSize d = 0 then d
      else d\<lparr>ht0 := (ht0 d)\<lparr>table := map (map (apsnd f)) (table (ht0 d))\<rparr>,
             ht1 := (ht1 d)\<lparr>table := map (map (apsnd f)) (table (ht1 d))\<rparr>\<rparr>)"

definition releaseWhenFreeClient :: "cid \<Rightarrow> server \<Rightarrow> server" where
  "releaseWhenFreeClient cid s = s\<lparr>dbs := map (\<lambda>db. db\<lparr>
     backendGetKeys := dict_map_values (removeAll cid) (backendGetKeys db),
     backendSetKeys := dict_map_values (\<lambda>info. info\<lparr>set_clients := removeAll cid (set_clients info)\<rparr>) (backendSetKeys db),
     backendDelKeys := dict_map_values (removeAll cid) (backendDelKeys db)\<rparr>) (dbs s)\<rparr>"

definition freeClient :: "cid \<Rightarrow> server \<Rightarrow> server" where
  "freeClient cid s = (releaseWhenFreeClient cid s)\<lparr>clients := (clients s)(cid := None)\<rparr>"

definition createClient :: "cid \<Rightarrow> server \<Rightarrow> server" where
  "createClient cid s = s\<lparr>clients := (clients s)(cid \<mapsto>
     \<lparr>c_argv = [], c_cmd = [], c_db = 0, c_multi = False, c_dirty_exec = False, c_mstate = [], c_close = False,
      backend_state = CLIENT_BACKEND_NORMAL, backend_set_sync_reply = False, backend_del_sync_reply = False,
      querybuf = [], c_reply = []\<rparr>)\<rparr>"

end
