(* ===== verification/Call_Inv.thy ===== *)
theory Call_Inv
  imports Backend_Jobs
begin

text \<open>
  The invariant of the server, and that running commands keeps it.

  An operation may end the process.  \<open>ensures b r P\<close> says that a result \<open>r\<close>, when there is
  one, satisfies \<open>P\<close>, and that there is one when \<open>b\<close> holds: one proof for each operation gives both
  that it keeps the invariant, and that it does not abort where that is so.
\<close>

subsection \<open>Results with a postcondition\<close>

definition ensures :: "bool \<Rightarrow> 'a option \<Rightarrow> ('a \<Rightarrow> bool) \<Rightarrow> bool" where
  "ensures b r P \<longleftrightarrow> (case r of None \<Rightarrow> \<not> b | Some x \<Rightarrow> P x)"

lemma ensures_simps [simp]:
  "ensures b (Some x) P \<longleftrightarrow> P x"
  "ensures b None P \<longleftrightarrow> \<not> b"
  by (simp_all add: ensures_def)

lemma ensures_bind: "ensures b r (\<lambda>x. ensures b (f x) P) \<Longrightarrow> ensures b (r \<bind> f) P"
  by (cases r) simp_all

lemma ensures_mono: "ensures b r P \<Longrightarrow> (\<And>x. r = Some x \<Longrightarrow> P x \<Longrightarrow> Q x) \<Longrightarrow> ensures b r Q"
  by (cases r) simp_all

text \<open>Sequential composition: the rule the proofs below use.\<close>

lemma ensures_seq:
  assumes "ensures b r P" and "\<And>x. P x \<Longrightarrow> ensures b (f x) Q"
  shows "ensures b (r \<bind> f) Q"
  using assms by (cases r) simp_all

lemma ensuresD: "ensures b r P \<Longrightarrow> r = Some x \<Longrightarrow> P x"
  by simp

lemma ensures_total: "ensures True r P \<longleftrightarrow> (\<exists>x. r = Some x \<and> P x)"
  by (cases r) simp_all

subsection \<open>The slots and the waiting lists, by mode\<close>

fun job_key :: "mode \<Rightarrow> server \<Rightarrow> sds option" where
  "job_key GET_MODE s = getKey (server_getJob s)"
| "job_key SET_MODE s = setKey_job (server_setJob s)"
| "job_key DEL_MODE s = delKey (server_delJob s)"

fun job_ret :: "mode \<Rightarrow> server \<Rightarrow> sds option" where
  "job_ret GET_MODE s = returnGetKey (server_getJob s)"
| "job_ret SET_MODE s = returnSetKey (server_setJob s)"
| "job_ret DEL_MODE s = returnDelKey (server_delJob s)"

fun job_db :: "mode \<Rightarrow> server \<Rightarrow> int" where
  "job_db GET_MODE s = get_dbid (server_getJob s)"
| "job_db SET_MODE s = set_dbid (server_setJob s)"
| "job_db DEL_MODE s = del_dbid (server_delJob s)"

fun job_pipe :: "mode \<Rightarrow> server \<Rightarrow> nat" where
  "job_pipe GET_MODE s = get_pipe s"
| "job_pipe SET_MODE s = set_pipe s"
| "job_pipe DEL_MODE s = del_pipe s"

fun waiting :: "mode \<Rightarrow> redisDb \<Rightarrow> sds \<rightharpoonup> cid list" where
  "waiting GET_MODE db = dict_map (backendGetKeys db)"
| "waiting SET_MODE db = (\<lambda>k. map_option set_clients (dict_map (backendSetKeys db) k))"
| "waiting DEL_MODE db = dict_map (backendDelKeys db)"

definition pending_value :: "redisDb \<Rightarrow> sds \<rightharpoonup> sds" where
  "pending_value db k = map_option setValue (dict_map (backendSetKeys db) k)"

definition dicts_ok :: "redisDb \<Rightarrow> bool" where
  "dicts_ok db \<longleftrightarrow> dict_inv (backendGetKeys db) \<and> dict_inv (backendSetKeys db) \<and> dict_inv (backendDelKeys db)"

lemma job_all_null_iff: "job_all_null m s \<longleftrightarrow> job_key m s = None \<and> job_ret m s = None"
  by (cases m) (simp_all add: job_all_null_def)

text \<open>The waiting keys of a database stay the same; their tables may be rehashed.\<close>

definition same_waiting :: "redisDb \<Rightarrow> redisDb \<Rightarrow> bool" where
  "same_waiting db db' \<longleftrightarrow> (\<forall>m. waiting m db' = waiting m db) \<and> pending_value db' = pending_value db \<and> (dicts_ok db \<longrightarrow> dicts_ok db')"

lemma same_waiting_refl [simp]: "same_waiting db db"
  by (simp add: same_waiting_def)

lemma same_waiting_trans: "same_waiting a b \<Longrightarrow> same_waiting b c \<Longrightarrow> same_waiting a c"
  by (simp add: same_waiting_def)

lemma same_backend_waiting: "same_backend db db' \<Longrightarrow> same_waiting db db'"
proof -
  assume a: "same_backend db db'"
  then have "waiting m db' = waiting m db" for m
    by (cases m) (simp_all add: same_backend_def)
  with a show ?thesis
    by (simp add: same_waiting_def same_backend_def pending_value_def dicts_ok_def fun_eq_iff)
qed

lemma mode_state_inject [simp]: "mode_state m = mode_state m' \<longleftrightarrow> m = m'"
  by (cases m; cases m') simp_all

lemma mode_state_not_normal [simp]: "mode_state m \<noteq> CLIENT_BACKEND_NORMAL" "CLIENT_BACKEND_NORMAL \<noteq> mode_state m"
  by (cases m; simp)+

lemma waiting_state: "st \<noteq> CLIENT_BACKEND_NORMAL \<longleftrightarrow> (\<exists>m. st = mode_state m)"
  by (cases st) (auto intro: mode_state.simps [symmetric])

subsection \<open>Updates\<close>

lemma update_client_sel [simp]:
  "dbs (update_client cid f s) = dbs s"
  "clients (update_client cid f s) = (clients s)(cid := map_option f (clients s cid))"
  "server_getJob (update_client cid f s) = server_getJob s"
  "server_setJob (update_client cid f s) = server_setJob s"
  "server_delJob (update_client cid f s) = server_delJob s"
  "get_pipe (update_client cid f s) = get_pipe s"
  "set_pipe (update_client cid f s) = set_pipe s"
  "del_pipe (update_client cid f s) = del_pipe s"
  "redisoo_db_type (update_client cid f s) = redisoo_db_type s"
  "redisoo_connection (update_client cid f s) = redisoo_connection s"
  "redisoo_get (update_client cid f s) = redisoo_get s"
  "redisoo_set (update_client cid f s) = redisoo_set s"
  "redisoo_del (update_client cid f s) = redisoo_del s"
  "redisoo_get_sync (update_client cid f s) = redisoo_get_sync s"
  "redisoo_set_sync (update_client cid f s) = redisoo_set_sync s"
  "redisoo_del_sync (update_client cid f s) = redisoo_del_sync s"
  "redisoo_get_ttl (update_client cid f s) = redisoo_get_ttl s"
  "dirty (update_client cid f s) = dirty s"
  "mstime (update_client cid f s) = mstime s"
  "dict_can_resize (update_client cid f s) = dict_can_resize s"
  "lazy_expire (update_client cid f s) = lazy_expire s"
  "lazy_user_del (update_client cid f s) = lazy_user_del s"
  "lazy_server_del (update_client cid f s) = lazy_server_del s"
  by (simp_all add: update_client_def)

lemma update_db_sel [simp]:
  "dbs (update_db i g s) = (dbs s)[i := g (dbs s ! i)]"
  "clients (update_db i g s) = clients s"
  "server_getJob (update_db i g s) = server_getJob s"
  "server_setJob (update_db i g s) = server_setJob s"
  "server_delJob (update_db i g s) = server_delJob s"
  "get_pipe (update_db i g s) = get_pipe s"
  "set_pipe (update_db i g s) = set_pipe s"
  "del_pipe (update_db i g s) = del_pipe s"
  "redisoo_db_type (update_db i g s) = redisoo_db_type s"
  "redisoo_connection (update_db i g s) = redisoo_connection s"
  "redisoo_get (update_db i g s) = redisoo_get s"
  "redisoo_set (update_db i g s) = redisoo_set s"
  "redisoo_del (update_db i g s) = redisoo_del s"
  "redisoo_get_sync (update_db i g s) = redisoo_get_sync s"
  "redisoo_set_sync (update_db i g s) = redisoo_set_sync s"
  "redisoo_del_sync (update_db i g s) = redisoo_del_sync s"
  "redisoo_get_ttl (update_db i g s) = redisoo_get_ttl s"
  "dirty (update_db i g s) = dirty s"
  "mstime (update_db i g s) = mstime s"
  "dict_can_resize (update_db i g s) = dict_can_resize s"
  "lazy_expire (update_db i g s) = lazy_expire s"
  "lazy_user_del (update_db i g s) = lazy_user_del s"
  "lazy_server_del (update_db i g s) = lazy_server_del s"
  by (simp_all add: update_db_def)

text \<open>What no command changes: the configuration, the clock, the pipes and the number of databases.\<close>

definition same_conf :: "server \<Rightarrow> server \<Rightarrow> bool" where
  "same_conf s s' \<longleftrightarrow> get_pipe s' = get_pipe s \<and> set_pipe s' = set_pipe s \<and> del_pipe s' = del_pipe s \<and>
     redisoo_db_type s' = redisoo_db_type s \<and> redisoo_connection s' = redisoo_connection s \<and>
     redisoo_get s' = redisoo_get s \<and> redisoo_set s' = redisoo_set s \<and> redisoo_del s' = redisoo_del s \<and>
     redisoo_get_sync s' = redisoo_get_sync s \<and> redisoo_set_sync s' = redisoo_set_sync s \<and>
     redisoo_del_sync s' = redisoo_del_sync s \<and> redisoo_get_ttl s' = redisoo_get_ttl s \<and>
     mstime s' = mstime s \<and> dict_can_resize s' = dict_can_resize s \<and> lazy_expire s' = lazy_expire s \<and>
     lazy_user_del s' = lazy_user_del s \<and> lazy_server_del s' = lazy_server_del s \<and> length (dbs s') = length (dbs s)"

lemma same_conf_refl [simp]: "same_conf s s"
  by (simp add: same_conf_def)

lemma same_conf_trans: "same_conf s s' \<Longrightarrow> same_conf s' s'' \<Longrightarrow> same_conf s s''"
  by (simp add: same_conf_def)

lemma same_conf_updates [simp]:
  "same_conf s (update_client cid f s') = same_conf s s'"
  "same_conf s (update_db i g s') = same_conf s s'"
  "same_conf s (s'\<lparr>dirty := n\<rparr>) = same_conf s s'"
  by (simp_all add: same_conf_def)

lemma same_conf_pipe: "same_conf s s' \<Longrightarrow> job_pipe m s' = job_pipe m s"
  by (cases m) (simp_all add: same_conf_def)

lemma same_conf_dbs: "same_conf s s' \<Longrightarrow> length (dbs s') = length (dbs s)"
  by (simp add: same_conf_def)

subsection \<open>Commands\<close>

text \<open>
  \<open>safe_args\<close> excludes the SETRANGE whose offset overflows, which aborts the process.
  A command that has been accepted is in the table; a transaction never contains EXEC.
\<close>

definition safe_args :: "sds \<Rightarrow> sds list \<Rightarrow> bool" where
  "safe_args name av \<longleftrightarrow> (name = ''setrange'' \<longrightarrow>
     (case string2ll (av ! 2) of None \<Rightarrow> True | Some off \<Rightarrow> off < 0 \<or> is_ll (off + int (length (av ! 3)))))"

definition accepted :: "bool \<Rightarrow> sds \<Rightarrow> sds list \<Rightarrow> bool" where
  "accepted b name av \<longleftrightarrow> (\<exists>cmd. lookupCommand name = Some cmd \<and> (b \<longrightarrow> safe_args (cmd_name cmd) av))"

definition not_exec :: "sds \<Rightarrow> bool" where
  "not_exec name \<longleftrightarrow> (\<forall>cmd. lookupCommand name = Some cmd \<longrightarrow> cmd_proc cmd \<noteq> ExecProc)"

definition safe_input :: "sds list \<Rightarrow> bool" where
  "safe_input av \<longleftrightarrow> (\<forall>cmd. lookupCommand (av ! 0) = Some cmd \<longrightarrow> safe_args (cmd_name cmd) av)"

definition client_ok :: "bool \<Rightarrow> nat \<Rightarrow> client \<Rightarrow> bool" where
  "client_ok b n c \<longleftrightarrow> c_db c < n \<and> (\<forall>(name, av) \<in> set (c_mstate c). accepted b name av \<and> not_exec name) \<and>
     (b \<longrightarrow> (\<forall>av \<in> set (querybuf c). safe_input av)) \<and>
     (backend_state c \<noteq> CLIENT_BACKEND_NORMAL \<longrightarrow> accepted b (c_cmd c) (c_argv c))"

lemma lookupCommand_name: "lookupCommand name = Some cmd \<Longrightarrow> lookupCommand (cmd_name cmd) = Some cmd"
proof -
  assume a: "lookupCommand name = Some cmd"
  then have "map (\<lambda>c. tolower (of_char c)) name = map (\<lambda>c. tolower (of_char c)) (cmd_name cmd)"
    unfolding lookupCommand_def by (auto simp: find_Some_iff)
  with a show ?thesis by (simp add: lookupCommand_def)
qed

lemma lookupCommand_table: "lookupCommand name = Some cmd \<Longrightarrow> cmd \<in> set redisCommandTable"
  by (auto simp: lookupCommand_def find_Some_iff in_set_conv_nth)

lemma setrangeCommand_partial: "db_ok (cx_db c) \<Longrightarrow> setrangeCommand c = Some c' \<Longrightarrow> cmd_ok c c'"
  by (auto simp: setrangeCommand_eq Let_def cmd_ok_db cmd_ok_refl inv_intros split: option.splits if_splits)

lemma cmd_total_ensures: "cmd_total c r \<Longrightarrow> ensures b r (cmd_ok c)"
  by (auto simp: cmd_total_def)

lemma table_total:
  assumes "cmd \<in> set redisCommandTable" and "cmd_proc cmd = CtxProc f" and "db_ok (cx_db c)"
    and "b \<longrightarrow> safe_args (cmd_name cmd) (cx_argv c)"
  shows "ensures b (f c) (cmd_ok c)"
proof (cases "cmd_name cmd = ''setrange''")
  case True
  then have f: "f = setrangeCommand"
    using assms(1,2) by (auto simp: redisCommandTable_def)
  show ?thesis
  proof (cases b)
    case True
    with assms(3,4) \<open>cmd_name cmd = ''setrange''\<close> show ?thesis
      by (auto simp: f safe_args_def setrange_fits_def intro!: cmd_total_ensures cmd_intros)
  next
    case False
    then show ?thesis
      using setrangeCommand_partial [OF assms(3)] by (cases "setrangeCommand c") (auto simp: f)
  qed
next
  case False
  have "cmd_total c (f c)"
    using assms(1,2,3) False unfolding redisCommandTable_def by (elim set_ConsD [THEN disjE] ) (auto intro: cmd_intros)
  then show ?thesis by (rule cmd_total_ensures)
qed

subsection \<open>Quiet steps\<close>

text \<open>
  A step of one client that touches neither the jobs nor the waiting keys, nor the state and the
  unread input of the client.  Every command is one.
\<close>

definition dbs_ok :: "server \<Rightarrow> bool" where
  "dbs_ok s \<longleftrightarrow> (\<forall>i < length (dbs s). db_ok (dbs s ! i))"

definition same_jobs :: "server \<Rightarrow> server \<Rightarrow> bool" where
  "same_jobs s s' \<longleftrightarrow> server_getJob s' = server_getJob s \<and> server_setJob s' = server_setJob s \<and> server_delJob s' = server_delJob s"

definition quiet :: "bool \<Rightarrow> cid \<Rightarrow> server \<Rightarrow> server \<Rightarrow> bool" where
  "quiet b cid s s' \<longleftrightarrow> same_conf s s' \<and> same_jobs s s' \<and> dbs_ok s' \<and>
     (\<forall>i < length (dbs s). same_waiting (dbs s ! i) (dbs s' ! i)) \<and>
     (\<exists>c c'. clients s cid = Some c \<and> clients s' = (clients s)(cid \<mapsto> c') \<and> backend_state c' = backend_state c \<and>
        querybuf c' = querybuf c \<and> client_ok b (length (dbs s)) c')"

lemma quietD:
  assumes "quiet b cid s s'"
  shows "same_conf s s'" and "same_jobs s s'" and "dbs_ok s'"
    and "i < length (dbs s) \<Longrightarrow> same_waiting (dbs s ! i) (dbs s' ! i)"
    and "\<exists>c'. clients s' cid = Some c' \<and> client_ok b (length (dbs s')) c'"
  using assms by (auto simp: quiet_def same_conf_def)

lemma quiet_refl:
  "dbs_ok s \<Longrightarrow> clients s cid = Some c \<Longrightarrow> client_ok b (length (dbs s)) c \<Longrightarrow> quiet b cid s s"
  by (auto simp: quiet_def same_jobs_def fun_upd_idem intro!: exI [of _ c])

lemma quiet_trans:
  assumes "quiet b cid s s1" and "quiet b cid s1 s2"
  shows "quiet b cid s s2"
proof -
  have n: "length (dbs s1) = length (dbs s)"
    using quietD(1) [OF assms(1)] by (rule same_conf_dbs)
  have "\<forall>i < length (dbs s). same_waiting (dbs s ! i) (dbs s2 ! i)"
    using quietD(4) [OF assms(1)] quietD(4) [OF assms(2)] same_waiting_trans unfolding n by blast
  then show ?thesis
    using assms n by (auto simp: quiet_def same_jobs_def elim!: same_conf_trans)
qed

lemma quiet_client:
  assumes "dbs_ok s" and "clients s cid = Some c" and "client_ok b (length (dbs s)) (f c)"
    and "backend_state (f c) = backend_state c" and "querybuf (f c) = querybuf c"
  shows "quiet b cid s (update_client cid f s)"
  using assms by (auto simp: quiet_def same_jobs_def dbs_ok_def)

lemma quiet_dirty: "quiet b cid s s' \<Longrightarrow> quiet b cid s (s'\<lparr>dirty := n\<rparr>)"
  by (simp add: quiet_def same_jobs_def dbs_ok_def)

text \<open>One more update of the client that does not matter here.\<close>

lemma quiet_update:
  assumes q: "quiet b cid s s'"
    and c: "\<And>c. client_ok b (length (dbs s)) c \<Longrightarrow> client_ok b (length (dbs s)) (f c)"
    and f: "\<And>c. backend_state (f c) = backend_state c" "\<And>c. querybuf (f c) = querybuf c"
  shows "quiet b cid s (update_client cid f s')"
proof -
  have n: "length (dbs s') = length (dbs s)"
    using quietD(1) [OF q] by (rule same_conf_dbs)
  obtain c' where "clients s' cid = Some c'" "client_ok b (length (dbs s')) c'"
    using quietD(5) [OF q] by blast
  with c f n have "quiet b cid s' (update_client cid f s')"
    by (intro quiet_client quietD(3) [OF q]) auto
  with q show ?thesis by (rule quiet_trans)
qed

lemma client_ok_updates [simp]:
  "client_ok b n (c\<lparr>c_reply := r\<rparr>) = client_ok b n c"
  "client_ok b n (c\<lparr>c_multi := v\<rparr>) = client_ok b n c"
  "client_ok b n (c\<lparr>c_dirty_exec := v\<rparr>) = client_ok b n c"
  "client_ok b n (c\<lparr>c_close := v\<rparr>) = client_ok b n c"
  "client_ok b n (c\<lparr>backend_set_sync_reply := v\<rparr>) = client_ok b n c"
  "client_ok b n (c\<lparr>backend_del_sync_reply := v\<rparr>) = client_ok b n c"
  by (simp_all add: client_ok_def)

lemma quiet_reply: "quiet b cid s s' \<Longrightarrow> quiet b cid s (reply_to cid r s')"
  unfolding reply_to_def by (rule quiet_update) simp_all

lemma quiet_discard: "quiet b cid s s' \<Longrightarrow> quiet b cid s (discardTransaction cid s')"
  unfolding discardTransaction_def by (rule quiet_update) (simp_all add: client_ok_def)

lemma quiet_flag: "quiet b cid s s' \<Longrightarrow> quiet b cid s (flagTransaction cid s')"
  unfolding flagTransaction_def by (rule quiet_update) simp_all

lemma run_ctx_quiet:
  assumes ok: "dbs_ok s" and c: "clients s cid = Some c" "client_ok b (length (dbs s)) c"
    and f: "\<And>x. db_ok (cx_db x) \<Longrightarrow> cx_argv x = c_argv c \<Longrightarrow> ensures b (f x) (cmd_ok x)"
  shows "ensures b (run_ctx f ro cid s) (quiet b cid s)"
proof -
  let ?x = "\<lparr>cx_env = client_env s ro, cx_db = dbs s ! c_db c, cx_cmd = c_cmd c, cx_argv = c_argv c, cx_out = c_reply c,
             cx_dirty = dirty s, cx_set_failed = backend_set_sync_reply c, cx_del_failed = backend_del_sync_reply c\<rparr>"
  have i: "c_db c < length (dbs s)"
    using c by (simp add: client_ok_def)
  have "ensures b (f ?x) (cmd_ok ?x)"
    using f [of ?x] ok i by (simp add: dbs_ok_def)
  then show ?thesis
    unfolding run_ctx_def c option.simps bind.simps
  proof (rule ensures_seq)
    fix x
    assume "cmd_ok ?x x"
    then have x: "same_backend (dbs s ! c_db c) (cx_db x)" "db_ok (cx_db x)"
      by (simp_all add: cmd_ok_def)
    then show "ensures b (Some ((update_client cid (\<lambda>c. c\<lparr>c_reply := cx_out x, backend_set_sync_reply := cx_set_failed x,
              backend_del_sync_reply := cx_del_failed x\<rparr>) (update_db (c_db c) (\<lambda>_. cx_db x) s))\<lparr>dirty := cx_dirty x\<rparr>)) (quiet b cid s)"
      using ok c i by (auto simp: quiet_def same_jobs_def dbs_ok_def nth_list_update intro!: same_conf_updates same_backend_waiting)
  qed
qed

lemma selectCommand_quiet:
  assumes "dbs_ok s" and c: "clients s cid = Some c" "client_ok b (length (dbs s)) c"
  shows "ensures b (selectCommand cid s) (quiet b cid s)"
proof -
  note r = quiet_refl [OF assms]
  have "quiet b cid s (update_client cid (\<lambda>c. c\<lparr>c_db := nat n\<rparr>) s)" if "0 \<le> n" "n < int (length (dbs s))" for n
    using c that by (intro quiet_update [OF r]) (auto simp: client_ok_def)
  then show ?thesis
    using r by (auto simp: selectCommand_def c selectDb_def quiet_reply not_le not_less split: option.splits if_splits)
qed

lemma multiCommand_quiet:
  assumes "dbs_ok s" and c: "clients s cid = Some c" "client_ok b (length (dbs s)) c"
  shows "ensures b (multiCommand cid s) (quiet b cid s)"
  using quiet_refl [OF assms] by (auto simp: multiCommand_def c intro!: quiet_reply quiet_update)

lemma discardCommand_quiet:
  assumes "dbs_ok s" and c: "clients s cid = Some c" "client_ok b (length (dbs s)) c"
  shows "ensures b (discardCommand cid s) (quiet b cid s)"
  using quiet_refl [OF assms] by (auto simp: discardCommand_def c intro!: quiet_reply quiet_discard)

lemma call_simple_quiet:
  assumes "dbs_ok s" and c: "clients s cid = Some c" "client_ok b (length (dbs s)) c"
    and cmd: "lookupCommand (c_cmd c) = Some cmd" "cmd_proc cmd \<noteq> ExecProc" "b \<longrightarrow> safe_args (cmd_name cmd) (c_argv c)"
  shows "ensures b (call_simple cid s) (quiet b cid s)"
proof (cases "cmd_proc cmd")
  case (CtxProc f)
  have "ensures b (run_ctx f (cmd_readonly cmd) cid s) (quiet b cid s)"
  proof (rule run_ctx_quiet [OF assms(1-3)])
    show "ensures b (f x) (cmd_ok x)" if "db_ok (cx_db x)" "cx_argv x = c_argv c" for x
      using table_total [OF lookupCommand_table [OF cmd(1)] CtxProc that(1), of b] that(2) cmd(3) by simp
  qed
  then show ?thesis
    using CtxProc by (simp add: call_simple_def c cmd)
qed (use assms cmd in \<open>simp_all add: call_simple_def selectCommand_quiet multiCommand_quiet discardCommand_quiet\<close>)

lemma exec_loop_quiet:
  assumes "dbs_ok s" and "clients s cid = Some c" and "client_ok b (length (dbs s)) c"
    and "\<forall>(name, av) \<in> set q. accepted b name av \<and> not_exec name"
  shows "ensures b (exec_loop q cid s) (quiet b cid s)"
  using assms
proof (induction q arbitrary: s c)
  case Nil
  then show ?case by (auto intro: quiet_refl)
next
  case (Cons e q)
  obtain name av where e: "e = (name, av)" by (cases e)
  let ?s = "update_client cid (\<lambda>c. c\<lparr>c_cmd := name, c_argv := av\<rparr>) s"
  obtain cmd where cmd: "lookupCommand name = Some cmd" "cmd_proc cmd \<noteq> ExecProc" "b \<longrightarrow> safe_args (cmd_name cmd) av"
    using Cons.prems(4) by (auto simp: e accepted_def not_exec_def)
  have ok: "client_ok b (length (dbs s)) (c\<lparr>c_cmd := name, c_argv := av\<rparr>)"
    using Cons.prems(3,4) by (auto simp: client_ok_def e)
  then have u: "quiet b cid s ?s"
    using Cons.prems by (intro quiet_client) auto
  have "ensures b (call_simple cid ?s) (quiet b cid ?s)"
    using cmd ok Cons.prems(2) by (intro call_simple_quiet [OF quietD(3) [OF u]]) auto
  then show ?case
    unfolding e exec_loop.simps
  proof (rule ensures_seq)
    fix s1
    assume q: "quiet b cid ?s s1"
    obtain c1 where "clients s1 cid = Some c1" "client_ok b (length (dbs s1)) c1"
      using quietD(5) [OF q] by blast
    then have "ensures b (exec_loop q cid s1) (quiet b cid s1)"
      using Cons.IH [of s1 c1] quietD(3) [OF q] Cons.prems(4) by simp
    then show "ensures b (exec_loop q cid s1) (quiet b cid s)"
      by (rule ensures_mono) (metis quiet_trans u q)
  qed
qed

lemma execCommand_quiet:
  assumes "dbs_ok s" and c: "clients s cid = Some c" "client_ok b (length (dbs s)) c"
  shows "ensures b (execCommand cid s) (quiet b cid s)"
proof -
  note r = quiet_refl [OF assms]
  consider "\<not> c_multi c" | "c_multi c" "c_dirty_exec c" | "c_multi c" "\<not> c_dirty_exec c" by blast
  then show ?thesis
  proof cases
    case 3
    let ?s = "reply_to cid (ReplyArrayLen (length (c_mstate c))) s"
    have q: "quiet b cid s ?s"
      using r by (rule quiet_reply)
    obtain c1 where "clients ?s cid = Some c1" "client_ok b (length (dbs ?s)) c1"
      using quietD(5) [OF q] by blast
    then have "ensures b (exec_loop (c_mstate c) cid ?s) (quiet b cid ?s)"
      using c(2) by (intro exec_loop_quiet quietD(3) [OF q]) (auto simp: client_ok_def)
    then have "ensures b (exec_loop (c_mstate c) cid ?s \<bind> (\<lambda>s.
        let s = discardTransaction cid (update_client cid (\<lambda>c'. c'\<lparr>c_cmd := c_cmd c, c_argv := c_argv c\<rparr>) s)
        in Some (if list_all (\<lambda>(cmd, av). is_readonly cmd) (c_mstate c) then s else s\<lparr>dirty := dirty s + 1\<rparr>))) (quiet b cid s)"
    proof (rule ensures_seq)
      fix s1
      assume q1: "quiet b cid ?s s1"
      have "quiet b cid s s1"
        using q q1 by (rule quiet_trans)
      moreover obtain c1 where c1: "clients s1 cid = Some c1" "client_ok b (length (dbs s1)) c1" "backend_state c1 = backend_state c"
        using q1 c by (auto simp: quiet_def same_conf_def reply_to_def)
      moreover have "quiet b cid s1 (update_client cid (\<lambda>c'. c'\<lparr>c_cmd := c_cmd c, c_argv := c_argv c\<rparr>) s1)"
        using quietD(3) [OF q1] c1 c by (intro quiet_client) (auto simp: client_ok_def)
      ultimately have "quiet b cid s (update_client cid (\<lambda>c'. c'\<lparr>c_cmd := c_cmd c, c_argv := c_argv c\<rparr>) s1)"
        using quiet_trans by blast
      then show "ensures b (let s = discardTransaction cid (update_client cid (\<lambda>c'. c'\<lparr>c_cmd := c_cmd c, c_argv := c_argv c\<rparr>) s1)
        in Some (if list_all (\<lambda>(cmd, av). is_readonly cmd) (c_mstate c) then s else s\<lparr>dirty := dirty s + 1\<rparr>)) (quiet b cid s)"
        by (simp add: Let_def quiet_discard quiet_dirty)
    qed
    with 3 show ?thesis by (simp add: execCommand_def c)
  qed (auto simp: execCommand_def c r intro!: quiet_reply quiet_discard)
qed

lemma call_quiet:
  assumes "dbs_ok s" and c: "clients s cid = Some c" "client_ok b (length (dbs s)) c"
    and cmd: "lookupCommand (c_cmd c) = Some cmd" "b \<longrightarrow> safe_args (cmd_name cmd) (c_argv c)"
  shows "ensures b (call cid s) (quiet b cid s)"
proof (cases "cmd_proc cmd = ExecProc")
  case True
  then show ?thesis
    using execCommand_quiet [OF assms(1-3)] by (simp add: call_def c cmd)
next
  case False
  then have "call cid s = call_simple cid s"
    by (cases "cmd_proc cmd") (simp_all add: call_def c cmd)
  then show ?thesis
    using call_simple_quiet [OF assms(1-3) cmd(1) False cmd(2)] by simp
qed

end
