(* ===== verification/Backend_Inv.thy ===== *)
theory Backend_Inv
  imports Call_Inv
begin

text \<open>
  The invariant of the cache-through protocol on the side of the main thread, and that
  the processing of a client's input keeps it.
\<close>

subsection \<open>Waiting keys\<close>

lemma card_waiting:
  assumes "dicts_ok db"
  shows "dictSize (backendGetKeys db) = card (dom (waiting GET_MODE db))"
    and "dictSize (backendSetKeys db) = card (dom (waiting SET_MODE db))"
    and "dictSize (backendDelKeys db) = card (dom (waiting DEL_MODE db))"
  using assms by (simp_all add: dicts_ok_def dictSize_card dom_def)

lemma finite_dict_map: "finite (dom (dict_map d))"
  by (simp add: dict_map_def finite_dom_map_of)

lemma finite_waiting: "finite (dom (waiting m db))"
proof (cases m)
  case SET_MODE
  then have "dom (waiting m db) = dom (dict_map (backendSetKeys db))"
    by (auto simp: dom_def)
  then show ?thesis by (simp add: finite_dict_map)
qed (simp_all add: finite_dict_map)

lemma add_waiting_spec:
  assumes "dict_inv d" and "dict_room d"
  shows "\<exists>d'. add_waiting cr d key cid sync = Some d' \<and> dict_inv d' \<and>
    dict_map d' = (dict_map d)(key \<mapsto> (case dict_map d key of None \<Rightarrow> [] | Some cs \<Rightarrow> cs) @ (if sync then [cid] else []))"
proof -
  obtain d1 r where f: "dictFind d key = (d1, r)" by (cases "dictFind d key")
  have d1: "dict_inv d1" "dict_map d1 = dict_map d" "r = dict_map d key"
    using hd.find_law [OF assms(1), of key] f by auto
  show ?thesis
  proof (cases r)
    case None
    obtain d2 a where a: "dictAdd cr d1 key [] = (d2, a)" by (cases "dictAdd cr d1 key []")
    obtain d3 r3 where f3: "dictFind d2 key = (d3, r3)" by (cases "dictFind d2 key")
    have d3: "dict_inv d3" "r3 = Some []" "dict_map d3 = (dict_map d)(key \<mapsto> [])"
      using hd.find_or_add [OF assms _ a f3] f None by auto
    then show ?thesis
      using hd.set_val_law [OF d3(1), of key "[cid]"] f a f3 None d1 by (auto simp: add_waiting_def)
  next
    case (Some cs)
    then show ?thesis
      using hd.set_val_law [OF d1(1), of key "cs @ [cid]"] f d1 by (auto simp: add_waiting_def fun_upd_idem)
  qed
qed

lemma add_set_waiting_spec:
  assumes "dict_inv d" and "dict_room d" and r: "add_set_waiting cr d key val ttl cid sync = Some d'"
  shows "dict_inv d'" and "pending_value (db\<lparr>backendSetKeys := d'\<rparr>) = (pending_value (db\<lparr>backendSetKeys := d\<rparr>))(key \<mapsto> val)"
    and "pending_value (db\<lparr>backendSetKeys := d\<rparr>) key \<in> {None, Some val}"
    and "waiting SET_MODE (db\<lparr>backendSetKeys := d'\<rparr>) = (waiting SET_MODE (db\<lparr>backendSetKeys := d\<rparr>))
      (key \<mapsto> (case dict_map d key of None \<Rightarrow> [] | Some info \<Rightarrow> set_clients info) @ (if sync then [cid] else []))"
proof -
  obtain d1 f1 where f: "dictFind d key = (d1, f1)" by (cases "dictFind d key")
  have d1: "dict_inv d1" "dict_map d1 = dict_map d" "f1 = dict_map d key"
    using hd.find_law [OF assms(1), of key] f by auto
  have "\<exists>info. dict_inv d' \<and> dict_map d' = (dict_map d)(key \<mapsto> info) \<and> setValue info = val \<and>
      (dict_map d key = None \<or> (\<exists>info0. dict_map d key = Some info0 \<and> setValue info0 = val)) \<and>
      set_clients info = (case dict_map d key of None \<Rightarrow> [] | Some info \<Rightarrow> set_clients info) @ (if sync then [cid] else [])"
  proof (cases f1)
    case None
    let ?v = "\<lparr>setValue = val, setTtl = ttl, set_clients = []\<rparr>"
    obtain d2 a where a: "dictAdd cr d1 key ?v = (d2, a)" by (cases "dictAdd cr d1 key ?v")
    obtain d3 r3 where f3: "dictFind d2 key = (d3, r3)" by (cases "dictFind d2 key")
    have d3: "dict_inv d3" "r3 = Some ?v" "dict_map d3 = (dict_map d)(key \<mapsto> ?v)"
      using hd.find_or_add [OF assms(1,2) _ a f3] f None by auto
    then show ?thesis
      using hd.set_val_law [OF d3(1), of key "?v\<lparr>set_clients := [cid]\<rparr>"] f a f3 None d1 r
      by (auto simp: add_set_waiting_def)
  next
    case (Some info)
    let ?v = "info\<lparr>setTtl := ttl\<rparr>"
    have k: "dict_map d key = Some info" and f': "dictFind d key = (d1, Some info)"
      using Some d1(3) f by simp_all
    have v: "setValue info = val"
      using r f' by (auto simp: add_set_waiting_def split: if_splits)
    have d2: "dict_inv (dictSetVal d1 key ?v)" "dict_map (dictSetVal d1 key ?v) = (dict_map d)(key \<mapsto> ?v)"
      using hd.set_val_law [OF d1(1), of key ?v] d1(2) k by auto
    show ?thesis
    proof (cases sync)
      case True
      then have "d' = dictSetVal (dictSetVal d1 key ?v) key (?v\<lparr>set_clients := set_clients ?v @ [cid]\<rparr>)"
        using r f' v by (simp add: add_set_waiting_def)
      then show ?thesis
        using hd.set_val_law [OF d2(1), of key "?v\<lparr>set_clients := set_clients ?v @ [cid]\<rparr>"] d2(2) k v True
        by (intro exI [of _ "?v\<lparr>set_clients := set_clients ?v @ [cid]\<rparr>"]) simp
    next
      case False
      then have "d' = dictSetVal d1 key ?v"
        using r f' v by (simp add: add_set_waiting_def)
      then show ?thesis
        using d2 k v False by (intro exI [of _ ?v]) simp
    qed
  qed
  then show "dict_inv d'" "pending_value (db\<lparr>backendSetKeys := d'\<rparr>) = (pending_value (db\<lparr>backendSetKeys := d\<rparr>))(key \<mapsto> val)"
    "pending_value (db\<lparr>backendSetKeys := d\<rparr>) key \<in> {None, Some val}"
    "waiting SET_MODE (db\<lparr>backendSetKeys := d'\<rparr>) = (waiting SET_MODE (db\<lparr>backendSetKeys := d\<rparr>))
      (key \<mapsto> (case dict_map d key of None \<Rightarrow> [] | Some info \<Rightarrow> set_clients info) @ (if sync then [cid] else []))"
    by (auto simp: pending_value_def fun_eq_iff)
qed

text \<open>A database as the protocol sees it, and a database after a key was added for a client.\<close>

definition same_keys :: "redisDb \<Rightarrow> redisDb \<Rightarrow> bool" where
  "same_keys db db' \<longleftrightarrow> db_dict db' = db_dict db \<and> db_expires db' = db_expires db \<and>
     (\<forall>m. waiting m db' = waiting m db) \<and> pending_value db' = pending_value db \<and> dicts_ok db'"

definition key_added :: "mode \<Rightarrow> sds \<Rightarrow> cid list \<Rightarrow> redisDb \<Rightarrow> redisDb \<Rightarrow> bool" where
  "key_added m key cs db db' \<longleftrightarrow> db_dict db' = db_dict db \<and> db_expires db' = db_expires db \<and> dicts_ok db' \<and>
     waiting m db' = (waiting m db)(key \<mapsto> (case waiting m db key of None \<Rightarrow> [] | Some cs0 \<Rightarrow> cs0) @ cs) \<and>
     (\<forall>m'. m' \<noteq> m \<longrightarrow> waiting m' db' = waiting m' db) \<and>
     (\<forall>k v. pending_value db k = Some v \<longrightarrow> pending_value db' k = Some v)"

lemma db_ok_cong: "db_dict db' = db_dict db \<Longrightarrow> db_expires db' = db_expires db \<Longrightarrow> db_ok db' = db_ok db"
  by (simp add: db_ok_def)

lemma waiting_update_other [simp]:
  "m \<noteq> GET_MODE \<Longrightarrow> waiting m (db\<lparr>backendGetKeys := d\<rparr>) = waiting m db"
  "m \<noteq> SET_MODE \<Longrightarrow> waiting m (db\<lparr>backendSetKeys := d'\<rparr>) = waiting m db"
  "m \<noteq> DEL_MODE \<Longrightarrow> waiting m (db\<lparr>backendDelKeys := d\<rparr>) = waiting m db"
  "pending_value (db\<lparr>backendGetKeys := d\<rparr>) = pending_value db"
  "pending_value (db\<lparr>backendDelKeys := d\<rparr>) = pending_value db"
  by (cases m; simp add: pending_value_def fun_eq_iff)+

lemma addKeyToBackendKeys_spec:
  assumes c: "clients s cid = Some c" and i: "dicts_ok (dbs s ! c_db c)"
    and room: "card (dom (waiting m (dbs s ! c_db c))) < 2 ^ 62" and b: "m = SET_MODE \<Longrightarrow> \<not> b"
  shows "ensures b (addKeyToBackendKeys m cid sync s) (\<lambda>s'. \<exists>db'. s' = update_db (c_db c) (\<lambda>_. db') s \<and>
    key_added m (c_argv c ! 1) (if sync then [cid] else []) (dbs s ! c_db c) db')"
proof (cases m)
  case GET_MODE
  let ?db = "dbs s ! c_db c"
  obtain d where "add_waiting (dict_can_resize s) (backendGetKeys ?db) (c_argv c ! 1) cid sync = Some d" "dict_inv d"
    "dict_map d = (waiting m ?db)(c_argv c ! 1 \<mapsto> (case waiting m ?db (c_argv c ! 1) of None \<Rightarrow> [] | Some cs \<Rightarrow> cs) @ (if sync then [cid] else []))"
    using add_waiting_spec [of "backendGetKeys ?db" "dict_can_resize s" "c_argv c ! 1" cid sync] i room card_waiting(1) [OF i]
    by (auto simp: dicts_ok_def dict_room_def GET_MODE)
  then show ?thesis
    using c i by (auto simp: addKeyToBackendKeys_def dicts_ok_def key_added_def update_db_def Let_def GET_MODE
        intro!: exI [of _ "?db\<lparr>backendGetKeys := d\<rparr>"])
next
  case DEL_MODE
  let ?db = "dbs s ! c_db c"
  obtain d where "add_waiting (dict_can_resize s) (backendDelKeys ?db) (c_argv c ! 1) cid sync = Some d" "dict_inv d"
    "dict_map d = (waiting m ?db)(c_argv c ! 1 \<mapsto> (case waiting m ?db (c_argv c ! 1) of None \<Rightarrow> [] | Some cs \<Rightarrow> cs) @ (if sync then [cid] else []))"
    using add_waiting_spec [of "backendDelKeys ?db" "dict_can_resize s" "c_argv c ! 1" cid sync] i room card_waiting(3) [OF i]
    by (auto simp: dicts_ok_def dict_room_def DEL_MODE)
  then show ?thesis
    using c i by (auto simp: addKeyToBackendKeys_def dicts_ok_def key_added_def update_db_def Let_def DEL_MODE
        intro!: exI [of _ "?db\<lparr>backendDelKeys := d\<rparr>"])
next
  case SET_MODE
  let ?db = "dbs s ! c_db c"
  let ?r = "add_set_waiting (dict_can_resize s) (backendSetKeys ?db) (c_argv c ! 1) (getValueFromSetCommand c) (getTtlForSetCommand c) cid sync"
  show ?thesis
  proof (cases ?r)
    case None
    with SET_MODE b show ?thesis by (simp add: addKeyToBackendKeys_def c Let_def)
  next
    case (Some d)
    have "dict_inv (backendSetKeys ?db)" "dict_room (backendSetKeys ?db)"
      using i room card_waiting(2) [OF i] SET_MODE by (auto simp: dicts_ok_def dict_room_def)
    note a = add_set_waiting_spec(1) [OF this Some] add_set_waiting_spec(2-4) [OF this Some, of ?db]
    have w: "(case waiting SET_MODE ?db k of None \<Rightarrow> [] | Some cs \<Rightarrow> cs) =
        (case dict_map (backendSetKeys ?db) k of None \<Rightarrow> [] | Some info \<Rightarrow> set_clients info)" for k
      by (simp split: option.splits)
    have "key_added SET_MODE (c_argv c ! 1) (if sync then [cid] else []) ?db (?db\<lparr>backendSetKeys := d\<rparr>)"
      using a i unfolding key_added_def w by (auto simp: dicts_ok_def)
    with Some SET_MODE show ?thesis
      by (auto simp: addKeyToBackendKeys_def c Let_def update_db_def intro!: exI [of _ "?db\<lparr>backendSetKeys := d\<rparr>"])
  qed
qed

subsection \<open>The next job\<close>

lemma backend_first_spec:
  assumes "dicts_ok db"
  shows "backend_size m db = 0 \<longleftrightarrow> waiting m db = Map.empty"
    and "backend_size m db \<noteq> 0 \<Longrightarrow> \<exists>key. backend_first m db = Some key \<and> waiting m db key \<noteq> None"
proof -
  show z: "backend_size m db = 0 \<longleftrightarrow> waiting m db = Map.empty"
    using assms by (cases m) (auto simp: backend_size_def dicts_ok_def dictSize_zero fun_eq_iff)
  assume "backend_size m db \<noteq> 0"
  with z show "\<exists>key. backend_first m db = Some key \<and> waiting m db key \<noteq> None"
    using assms hd.first_law [of "backendGetKeys db"] hd.first_law [of "backendSetKeys db"] hd.first_law [of "backendDelKeys db"]
    by (cases m) (auto simp: backend_first_def dicts_ok_def split: option.splits)
qed

lemma candidate_loop_spec:
  assumes "\<forall>db \<in> set l. dicts_ok db"
  shows "(candidate_loop m i l = Some None \<and> (\<forall>db \<in> set l. waiting m db = Map.empty)) \<or>
    (\<exists>j key. candidate_loop m i l = Some (Some (i + j, key)) \<and> j < length l \<and> waiting m (l ! j) key \<noteq> None)"
  using assms
proof (induction l arbitrary: i)
  case (Cons db l)
  show ?case
  proof (cases "backend_size m db = 0")
    case True
    then show ?thesis
      using Cons.IH [of "i + 1"] Cons.prems backend_first_spec(1) [of db m]
      by (fastforce intro: exI [of _ "Suc j" for j])
  next
    case False
    then show ?thesis
      using backend_first_spec(2) [of db m] Cons.prems by (fastforce intro!: exI [of _ "0 :: nat"])
  qed
qed simp

fun same_job :: "mode \<Rightarrow> server \<Rightarrow> server \<Rightarrow> bool" where
  "same_job GET_MODE s s' \<longleftrightarrow> server_getJob s' = server_getJob s"
| "same_job SET_MODE s s' \<longleftrightarrow> server_setJob s' = server_setJob s"
| "same_job DEL_MODE s s' \<longleftrightarrow> server_delJob s' = server_delJob s"

lemma same_jobs_iff: "same_jobs s s' \<longleftrightarrow> (\<forall>m. same_job m s s')"
  unfolding same_jobs_def by (metis mode.exhaust same_job.simps)

lemma same_job_refl [simp]: "same_job m s s"
  by (cases m) simp_all

lemma same_job_trans: "same_job m s s' \<Longrightarrow> same_job m s' s'' \<Longrightarrow> same_job m s s''"
  by (cases m) simp_all

lemma same_job_sel:
  assumes "same_job m s s'"
  shows "job_key m s' = job_key m s" and "job_ret m s' = job_ret m s" and "job_db m s' = job_db m s"
    and "job_all_null m s' = job_all_null m s" and "m = SET_MODE \<Longrightarrow> valToBackend (server_setJob s') = valToBackend (server_setJob s)"
  using assms by (cases m; simp add: job_all_null_iff)+

lemma same_job_updates [simp]:
  "same_job m s (update_client cid f s') = same_job m s s'"
  "same_job m s (update_db i g s') = same_job m s s'"
  "same_job m s (s'\<lparr>dirty := n\<rparr>) = same_job m s s'"
  by (cases m; simp)+

text \<open>
  The slot of a mode in its relation to the waiting keys.  An empty slot means that no key
  waits.  A key in the slot waits in the database of the slot, and for a write, the value in
  the slot is the one that waits; while the answer for \<open>hole\<close> is being distributed, its key has
  already left the waiting keys.
\<close>

definition slot_ok :: "mode option \<Rightarrow> mode \<Rightarrow> server \<Rightarrow> bool" where
  "slot_ok hole m s \<longleftrightarrow>
     (job_all_null m s \<longrightarrow> (\<forall>i < length (dbs s). waiting m (dbs s ! i) = Map.empty)) \<and>
     (job_key m s = None \<longrightarrow> job_ret m s = None \<and> (m = SET_MODE \<longrightarrow> valToBackend (server_setJob s) = None)) \<and>
     (\<forall>k. job_key m s = Some k \<longrightarrow> job_ret m s \<in> {None, Some k} \<and>
        0 \<le> job_db m s \<and> job_db m s < int (length (dbs s)) \<and>
        (m = SET_MODE \<longrightarrow> valToBackend (server_setJob s) \<noteq> None) \<and>
        (hole \<noteq> Some m \<longrightarrow> waiting m (dbs s ! nat (job_db m s)) k \<noteq> None \<and>
           (m = SET_MODE \<longrightarrow> valToBackend (server_setJob s) = pending_value (dbs s ! nat (job_db m s)) k))) \<and>
     (hole = Some m \<longrightarrow> job_ret m s \<noteq> None)"

lemma createJob_spec:
  assumes "job_all_null m s" and "i < length (dbs s)" and "waiting m (dbs s ! i) key \<noteq> None" and "dicts_ok (dbs s ! i)"
    and "m = SET_MODE \<Longrightarrow> valToBackend (server_setJob s) = None"
  shows "\<exists>s'. createJob m i key s = Some s' \<and> job_key m s' = Some key \<and> job_ret m s' = None \<and> job_db m s' = int i \<and>
    (m = SET_MODE \<longrightarrow> valToBackend (server_setJob s') = pending_value (dbs s ! i) key) \<and>
    (\<forall>m'. m' \<noteq> m \<longrightarrow> same_job m' s s') \<and> clients s' = clients s \<and> same_conf s s' \<and>
    (\<exists>db'. dbs s' = (dbs s)[i := db'] \<and> same_keys (dbs s ! i) db')"
proof (cases m)
  case SET_MODE
  let ?db = "dbs s ! i"
  obtain d f where f: "dictFind (backendSetKeys ?db) key = (d, f)" by (cases "dictFind (backendSetKeys ?db) key")
  have d: "dict_inv d" "dict_map d = dict_map (backendSetKeys ?db)" "f = dict_map (backendSetKeys ?db) key"
    using hd.find_law [of "backendSetKeys ?db" key] assms(4) f by (auto simp: dicts_ok_def)
  obtain info where info: "dict_map (backendSetKeys ?db) key = Some info"
    using assms(3) SET_MODE by auto
  let ?db' = "?db\<lparr>backendSetKeys := d\<rparr>"
  have same: "same_keys ?db ?db'"
  proof -
    have "waiting m' ?db' = waiting m' ?db" for m'
      using d(2) by (cases m') (simp_all add: fun_eq_iff)
    then show ?thesis
      using assms(4) d by (simp add: same_keys_def dicts_ok_def pending_value_def fun_eq_iff)
  qed
  have "same_job m' s (update_db i g s\<lparr>server_setJob := j\<rparr>)" if "m' \<noteq> SET_MODE" for m' g j
    using that by (cases m') simp_all
  then show ?thesis
    using assms(1,5) same info f d(3) SET_MODE
    by (auto simp: createJob_def same_conf_def pending_value_def job_all_null_iff intro!: exI [of _ ?db'])
next
  case GET_MODE
  have "same_job m' s (s\<lparr>server_getJob := j\<rparr>)" if "m' \<noteq> GET_MODE" for m' j
    using that by (cases m') simp_all
  then show ?thesis
    using assms(1,4) GET_MODE
    by (auto simp: createJob_def same_conf_def same_keys_def job_all_null_iff intro!: exI [of _ "dbs s ! i"])
next
  case DEL_MODE
  have "same_job m' s (s\<lparr>server_delJob := j\<rparr>)" if "m' \<noteq> DEL_MODE" for m' j
    using that by (cases m') simp_all
  then show ?thesis
    using assms(1,4) DEL_MODE
    by (auto simp: createJob_def same_conf_def same_keys_def job_all_null_iff intro!: exI [of _ "dbs s ! i"])
qed

definition all_dicts_ok :: "server \<Rightarrow> bool" where
  "all_dicts_ok s \<longleftrightarrow> (\<forall>i < length (dbs s). dicts_ok (dbs s ! i))"

text \<open>A state with an empty slot for the mode, made whole by the creation of a job.\<close>

lemma createNewJob_spec:
  assumes "job_all_null m s" and ok: "all_dicts_ok s" and v: "m = SET_MODE \<Longrightarrow> valToBackend (server_setJob s) = None"
    and hole: "hole \<noteq> Some m"
  shows "\<exists>s'. createNewJobIfHasMoreCandidates m nc s = Some s' \<and> slot_ok hole m s' \<and> job_ret m s' = None \<and>
    (\<forall>m'. m' \<noteq> m \<longrightarrow> same_job m' s s') \<and> clients s' = clients s \<and> same_conf s s' \<and>
    (\<forall>i < length (dbs s). same_keys (dbs s ! i) (dbs s' ! i))"
proof -
  have "\<forall>db \<in> set (dbs s). dicts_ok db"
    using ok by (auto simp: all_dicts_ok_def in_set_conv_nth)
  from candidate_loop_spec [OF this, of m 0]
  consider (none) "hasAvailableCandidate m s = Some None" "\<forall>db \<in> set (dbs s). waiting m db = Map.empty"
    | (some) i key where "hasAvailableCandidate m s = Some (Some (i, key))" "i < length (dbs s)" "waiting m (dbs s ! i) key \<noteq> None"
    by (auto simp: hasAvailableCandidate_def)
  then show ?thesis
  proof cases
    case none
    then have "createNewJobIfHasMoreCandidates m nc s = Some s"
      using assms(1) by (simp add: createNewJobIfHasMoreCandidates_def)
    moreover have "slot_ok hole m s"
      using assms none(2) by (auto simp: slot_ok_def job_all_null_iff)
    ultimately show ?thesis
      using assms by (auto simp: same_keys_def all_dicts_ok_def job_all_null_iff)
  next
    case some
    obtain s' db' where s': "createJob m i key s = Some s'" "job_key m s' = Some key" "job_ret m s' = None" "job_db m s' = int i"
      "m = SET_MODE \<longrightarrow> valToBackend (server_setJob s') = pending_value (dbs s ! i) key"
      "\<forall>m'. m' \<noteq> m \<longrightarrow> same_job m' s s'" "clients s' = clients s" "same_conf s s'"
      "dbs s' = (dbs s)[i := db']" "same_keys (dbs s ! i) db'"
      using createJob_spec [OF assms(1) some(2,3) _ v] ok some(2) by (auto simp: all_dicts_ok_def)
    have "m = SET_MODE \<Longrightarrow> pending_value (dbs s ! i) key \<noteq> None"
      using some(3) by (auto simp: pending_value_def)
    then have "slot_ok hole m s'"
      using s' some(2,3) hole by (auto simp: slot_ok_def job_all_null_iff same_keys_def)
    moreover have "createNewJobIfHasMoreCandidates m nc s = Some s'"
      using assms(1) some(1) s'(1) by (simp add: createNewJobIfHasMoreCandidates_def)
    moreover have "same_keys (dbs s ! j) (dbs s' ! j)" if "j < length (dbs s)" for j
      using s'(9,10) ok that by (cases "j = i") (simp_all add: same_keys_def all_dicts_ok_def)
    ultimately show ?thesis
      using s' by blast
  qed
qed

subsection \<open>The invariant of the main thread\<close>

text \<open>
  The work at hand: the keys that wait and the commands in the query buffers.  It bounds the
  size of every dictionary; one command makes at most one key wait.
\<close>

definition keys_load :: "redisDb \<Rightarrow> nat" where
  "keys_load db = card (dom (waiting GET_MODE db)) + card (dom (waiting SET_MODE db)) + card (dom (waiting DEL_MODE db))"

definition input_load :: "server \<Rightarrow> nat" where
  "input_load s = (\<Sum>cid \<in> dom (clients s). length (querybuf (the (clients s cid))))"

definition load :: "server \<Rightarrow> nat" where
  "load s = (\<Sum>i < length (dbs s). keys_load (dbs s ! i)) + input_load s"

text \<open>
  A client is in a list exactly when it is in the state of the mode, and then in the list of
  its own database and key; \<open>pend\<close> are the clients that have been taken off their list and are
  about to be resumed.
\<close>

definition waits_ok :: "cid set \<Rightarrow> server \<Rightarrow> bool" where
  "waits_ok pend s \<longleftrightarrow>
     (\<forall>m i k cs. i < length (dbs s) \<longrightarrow> waiting m (dbs s ! i) k = Some cs \<longrightarrow> distinct cs \<and>
        (\<forall>cid \<in> set cs. cid \<notin> pend \<and>
           (\<exists>c. clients s cid = Some c \<and> backend_state c = mode_state m \<and> c_db c = i \<and> c_argv c ! 1 = k))) \<and>
     (\<forall>cid c m. clients s cid = Some c \<longrightarrow> backend_state c = mode_state m \<longrightarrow> cid \<notin> pend \<longrightarrow>
        (\<exists>cs. waiting m (dbs s ! c_db c) (c_argv c ! 1) = Some cs \<and> cid \<in> set cs)) \<and>
     (\<forall>cid \<in> pend. \<exists>c. clients s cid = Some c \<and> backend_state c \<noteq> CLIENT_BACKEND_NORMAL)"

definition srv_inv :: "bool \<Rightarrow> mode option \<Rightarrow> cid set \<Rightarrow> server \<Rightarrow> bool" where
  "srv_inv b hole pend s \<longleftrightarrow> dbs_ok s \<and> all_dicts_ok s \<and>
     (\<forall>cid c. clients s cid = Some c \<longrightarrow> client_ok b (length (dbs s)) c) \<and> finite (dom (clients s)) \<and>
     (\<forall>m. slot_ok hole m s) \<and> waits_ok pend s \<and> load s < 2 ^ 62 \<and> (b \<longrightarrow> redisoo_set s = [])"

lemma srv_invD:
  assumes "srv_inv b hole pend s"
  shows "dbs_ok s" and "all_dicts_ok s" and "clients s cid = Some c \<Longrightarrow> client_ok b (length (dbs s)) c"
    and "finite (dom (clients s))" and "slot_ok hole m s" and "waits_ok pend s" and "load s < 2 ^ 62"
    and "b \<Longrightarrow> redisoo_set s = []"
  using assms by (simp_all add: srv_inv_def)

lemma waits_okD:
  assumes "waits_ok pend s"
  shows "i < length (dbs s) \<Longrightarrow> waiting m (dbs s ! i) k = Some cs \<Longrightarrow> distinct cs"
    and "i < length (dbs s) \<Longrightarrow> waiting m (dbs s ! i) k = Some cs \<Longrightarrow> cid \<in> set cs \<Longrightarrow>
      cid \<notin> pend \<and> (\<exists>c. clients s cid = Some c \<and> backend_state c = mode_state m \<and> c_db c = i \<and> c_argv c ! 1 = k)"
    and "clients s cid = Some c \<Longrightarrow> backend_state c = mode_state m \<Longrightarrow> cid \<notin> pend \<Longrightarrow>
      \<exists>cs. waiting m (dbs s ! c_db c) (c_argv c ! 1) = Some cs \<and> cid \<in> set cs"
    and "cid \<in> pend \<Longrightarrow> \<exists>c. clients s cid = Some c \<and> backend_state c \<noteq> CLIENT_BACKEND_NORMAL"
proof -
  show "distinct cs" if "i < length (dbs s)" "waiting m (dbs s ! i) k = Some cs"
    using assms that unfolding waits_ok_def by blast
  show "cid \<notin> pend \<and> (\<exists>c. clients s cid = Some c \<and> backend_state c = mode_state m \<and> c_db c = i \<and> c_argv c ! 1 = k)"
    if "i < length (dbs s)" "waiting m (dbs s ! i) k = Some cs" "cid \<in> set cs"
    using assms that unfolding waits_ok_def by blast
  show "\<exists>cs. waiting m (dbs s ! c_db c) (c_argv c ! 1) = Some cs \<and> cid \<in> set cs"
    if "clients s cid = Some c" "backend_state c = mode_state m" "cid \<notin> pend"
    using assms that unfolding waits_ok_def by blast
  show "\<exists>c. clients s cid = Some c \<and> backend_state c \<noteq> CLIENT_BACKEND_NORMAL" if "cid \<in> pend"
    using assms that unfolding waits_ok_def by blast
qed

lemma input_load_upd:
  assumes "finite (dom (clients s))" and "clients s cid = Some c" and "clients s' = (clients s)(cid \<mapsto> c')"
  shows "input_load s' + length (querybuf c) = input_load s + length (querybuf c')"
proof -
  let ?D = "dom (clients s) - {cid}"
  have d: "dom (clients s') = dom (clients s)" "cid \<in> dom (clients s)"
    using assms by auto
  have "(\<Sum>x \<in> ?D. length (querybuf (the (clients s' x)))) = (\<Sum>x \<in> ?D. length (querybuf (the (clients s x))))"
    by (rule sum.cong) (simp_all add: assms(3))
  then show ?thesis
    using sum.remove [OF assms(1) d(2), of "\<lambda>x. length (querybuf (the (clients s x)))"]
      sum.remove [OF assms(1) d(2), of "\<lambda>x. length (querybuf (the (clients s' x)))"] assms(2,3)
    unfolding input_load_def d(1) by simp
qed

lemma load_same:
  assumes "length (dbs s') = length (dbs s)" and "\<forall>i < length (dbs s). \<forall>m. waiting m (dbs s' ! i) = waiting m (dbs s ! i)"
    and "finite (dom (clients s))" and "clients s cid = Some c" and "clients s' = (clients s)(cid \<mapsto> c')"
  shows "load s' + length (querybuf c) = load s + length (querybuf c')"
proof -
  have "(\<Sum>i < length (dbs s'). keys_load (dbs s' ! i)) = (\<Sum>i < length (dbs s). keys_load (dbs s ! i))"
    unfolding assms(1) by (rule sum.cong) (use assms(2) in \<open>simp_all add: keys_load_def del: waiting.simps\<close>)
  then show ?thesis
    using input_load_upd [OF assms(3-5)] by (simp add: load_def)
qed

lemma load_upd:
  assumes "i < length (dbs s)" and "length (dbs s') = length (dbs s)"
    and "\<forall>j < length (dbs s). j \<noteq> i \<longrightarrow> (\<forall>m. waiting m (dbs s' ! j) = waiting m (dbs s ! j))"
    and "input_load s' = input_load s"
  shows "load s' + keys_load (dbs s ! i) = load s + keys_load (dbs s' ! i)"
proof -
  let ?D = "{..<length (dbs s)} - {i}"
  have "(\<Sum>j \<in> ?D. keys_load (dbs s' ! j)) = (\<Sum>j \<in> ?D. keys_load (dbs s ! j))"
    by (rule sum.cong) (use assms(3) in \<open>simp_all add: keys_load_def del: waiting.simps\<close>)
  then show ?thesis
    using sum.remove [of "{..<length (dbs s)}" i "\<lambda>j. keys_load (dbs s ! j)"]
      sum.remove [of "{..<length (dbs s)}" i "\<lambda>j. keys_load (dbs s' ! j)"] assms
    by (simp add: load_def)
qed

lemma keys_load_le: "i < length (dbs s) \<Longrightarrow> keys_load (dbs s ! i) \<le> load s"
  using sum.remove [of "{..<length (dbs s)}" i "\<lambda>j. keys_load (dbs s ! j)"] by (simp add: load_def)

lemma waiting_card_le: "card (dom (waiting m db)) \<le> keys_load db"
  by (cases m) (simp_all add: keys_load_def)

lemma slot_ok_cong:
  assumes "same_job m s s'" and "length (dbs s') = length (dbs s)"
    and "\<forall>i < length (dbs s). waiting m (dbs s' ! i) = waiting m (dbs s ! i) \<and>
      (m = SET_MODE \<longrightarrow> pending_value (dbs s' ! i) = pending_value (dbs s ! i))"
    and "slot_ok hole m s"
  shows "slot_ok hole m s'"
proof -
  have "nat (job_db m s) < length (dbs s)" if "job_key m s = Some k" for k
    using assms(4) that by (auto simp: slot_ok_def)
  then show ?thesis
    using assms(2-4) unfolding slot_ok_def same_job_sel(1-4) [OF assms(1)]
    by (auto simp: same_job_sel(5) [OF assms(1)] simp del: job_key.simps job_ret.simps job_db.simps waiting.simps)
qed

text \<open>What the service of one client leaves alone.\<close>

definition served :: "cid \<Rightarrow> server \<Rightarrow> server \<Rightarrow> bool" where
  "served cid s s' \<longleftrightarrow> same_conf s s' \<and> (\<forall>x. x \<noteq> cid \<longrightarrow> clients s' x = clients s x) \<and> clients s' cid \<noteq> None \<and>
     (\<forall>m. same_job m s s' \<or> job_all_null m s \<and> job_ret m s' = None)"

lemma served_trans:
  assumes "served cid s s1" and "served cid s1 s2"
  shows "served cid s s2"
proof -
  have "same_job m s s2 \<or> job_all_null m s \<and> job_ret m s2 = None" for m
    using assms unfolding served_def by (metis same_job_trans same_job_sel(2,4) job_all_null_iff)
  then show ?thesis
    using assms by (auto simp: served_def elim: same_conf_trans)
qed

lemma quiet_inv:
  assumes inv: "srv_inv b hole pend s" and q: "quiet b cid s s'"
    and c: "clients s cid = Some c" "backend_state c = CLIENT_BACKEND_NORMAL"
  shows "srv_inv b hole pend s'" and "served cid s s'" and "load s' = load s"
proof -
  obtain c' where c': "clients s' = (clients s)(cid \<mapsto> c')" "backend_state c' = CLIENT_BACKEND_NORMAL"
    "querybuf c' = querybuf c" "client_ok b (length (dbs s)) c'"
    using q c by (auto simp: quiet_def)
  have n: "length (dbs s') = length (dbs s)"
    using quietD(1) [OF q] by (rule same_conf_dbs)
  have w: "\<forall>i < length (dbs s). \<forall>m. waiting m (dbs s' ! i) = waiting m (dbs s ! i)"
    "\<forall>i < length (dbs s). pending_value (dbs s' ! i) = pending_value (dbs s ! i)"
    "\<forall>i < length (dbs s). dicts_ok (dbs s ! i) \<longrightarrow> dicts_ok (dbs s' ! i)"
    using quietD(4) [OF q] by (simp_all add: same_waiting_def)
  have l: "load s' = load s"
    using load_same [OF n w(1) srv_invD(4) [OF inv] c(1) c'(1)] c'(3) by simp
  have j: "same_job m s s'" for m
    using quietD(2) [OF q] by (simp add: same_jobs_iff)
  have "slot_ok hole m s'" for m
    by (rule slot_ok_cong [OF j n _ srv_invD(5) [OF inv]]) (use w in simp)
  moreover have "waits_ok pend s'"
  proof -
    note u = waits_okD [OF srv_invD(6) [OF inv]]
    have "cid \<notin> pend"
      using u(4) [of cid] c by auto
    moreover have "c_db x < length (dbs s)" if "clients s y = Some x" for x y
      using srv_invD(3) [OF inv that] by (simp add: client_ok_def)
    ultimately show ?thesis
      using u c c'(1,2) w(1) n unfolding waits_ok_def by (auto simp: fun_upd_def; metis mode_state_not_normal(1) option.inject)
  qed
  ultimately show "srv_inv b hole pend s'"
    using inv c'(1,4) w(3) n l quietD(1,3) [OF q] by (auto simp: srv_inv_def all_dicts_ok_def same_conf_def)
  show "served cid s s'"
    using quietD(1) [OF q] c'(1) j by (simp add: served_def)
  show "load s' = load s" by (rule l)
qed

subsection \<open>A client starts to wait\<close>

lemma key_added_waiting:
  assumes "key_added m key cs db db'"
  shows "waiting m' db' k =
    (if m' = m \<and> k = key then Some ((case waiting m db key of None \<Rightarrow> [] | Some cs0 \<Rightarrow> cs0) @ cs) else waiting m' db k)"
  using assms by (cases "m' = m") (auto simp: key_added_def simp del: waiting.simps)

lemma key_added_load:
  assumes "key_added m key cs db db'"
  shows "keys_load db' \<le> keys_load db + 1"
proof -
  have d: "dom (waiting m db') = insert key (dom (waiting m db))" and o: "\<forall>m'. m' \<noteq> m \<longrightarrow> waiting m' db' = waiting m' db"
    using assms by (auto simp: key_added_def simp del: waiting.simps)
  have "card (dom (waiting m db')) \<le> card (dom (waiting m db)) + 1"
    unfolding d using card_insert_le_m1 by (simp add: card_insert_if finite_waiting)
  then show ?thesis
    using o by (cases m) (simp_all add: keys_load_def del: waiting.simps)
qed

lemma waits_ok_added:
  assumes w: "waits_ok pend s" and n: "length (dbs s') = length (dbs s)"
    and c: "clients s cid = Some c" "backend_state c = CLIENT_BACKEND_NORMAL" "c_db c < length (dbs s)"
    and clients: "clients s' = (clients s)(cid \<mapsto> (if sync then c\<lparr>backend_state := mode_state m\<rparr> else c))"
    and others: "\<And>x y. clients s y = Some x \<Longrightarrow> c_db x < length (dbs s)"
    and wt: "\<And>m' j k. j < length (dbs s) \<Longrightarrow> waiting m' (dbs s' ! j) k =
      (if m' = m \<and> j = c_db c \<and> k = c_argv c ! 1
       then Some ((case waiting m (dbs s ! j) k of None \<Rightarrow> [] | Some cs0 \<Rightarrow> cs0) @ (if sync then [cid] else []))
       else waiting m' (dbs s ! j) k)"
  shows "waits_ok pend s'"
proof -
  note u = waits_okD [OF w]
  have nw: "cid \<notin> set cs" if "j < length (dbs s)" "waiting m' (dbs s ! j) k = Some cs" for m' j k cs
    using u(2) [OF that, of cid] c by auto
  have np: "cid \<notin> pend"
    using u(4) [of cid] c by auto
  have "distinct cs \<and> (\<forall>x \<in> set cs. x \<notin> pend \<and>
      (\<exists>y. clients s' x = Some y \<and> backend_state y = mode_state m' \<and> c_db y = j \<and> c_argv y ! 1 = k))"
    if j: "j < length (dbs s)" and cs: "waiting m' (dbs s' ! j) k = Some cs" for m' j k cs
  proof -
    have old: "distinct cs0 \<and> (\<forall>x \<in> set cs0. x \<noteq> cid \<and> x \<notin> pend \<and>
        (\<exists>y. clients s' x = Some y \<and> backend_state y = mode_state m' \<and> c_db y = j \<and> c_argv y ! 1 = k))"
      if "waiting m' (dbs s ! j) k = Some cs0" for cs0
      using u(1,2) [OF j that] nw [OF j that] by (auto simp: clients)
    show ?thesis
    proof (cases "m' = m \<and> j = c_db c \<and> k = c_argv c ! 1")
      case True
      then have "cs = (case waiting m (dbs s ! j) k of None \<Rightarrow> [] | Some cs0 \<Rightarrow> cs0) @ (if sync then [cid] else [])"
        using cs wt [OF j, of m' k] by simp
      then show ?thesis
        using old np True c by (auto simp: clients simp del: waiting.simps split: option.splits)
    next
      case False
      then show ?thesis
        using cs wt [OF j, of m' k] old by auto
    qed
  qed
  moreover have "\<exists>cs. waiting m' (dbs s' ! c_db x) (c_argv x ! 1) = Some cs \<and> y \<in> set cs"
    if x: "clients s' y = Some x" "backend_state x = mode_state m'" "y \<notin> pend" for x y m'
  proof (cases "y = cid")
    case True
    then have "sync" "m' = m" "c_db x = c_db c" "c_argv x = c_argv c"
      using x c by (auto simp: clients split: if_splits)
    then show ?thesis
      using True wt [OF c(3), of m "c_argv c ! 1"] by simp
  next
    case False
    then have x': "clients s y = Some x"
      using x by (simp add: clients)
    then show ?thesis
      using u(3) [OF x' x(2,3)] wt [OF others [OF x'], of m' "c_argv x ! 1"] by auto
  qed
  moreover have "\<exists>x. clients s' y = Some x \<and> backend_state x \<noteq> CLIENT_BACKEND_NORMAL" if "y \<in> pend" for y
    using u(4) [OF that] np that by (auto simp: clients)
  ultimately show ?thesis
    unfolding waits_ok_def n by blast
qed

text \<open>The three steps of a client that goes to the backend, as one change of the state.\<close>

definition entered :: "mode \<Rightarrow> bool \<Rightarrow> cid \<Rightarrow> client \<Rightarrow> server \<Rightarrow> server \<Rightarrow> bool" where
  "entered m sync cid c s s' \<longleftrightarrow> same_conf s s' \<and>
     clients s' = (clients s)(cid \<mapsto> (if sync then c\<lparr>backend_state := mode_state m\<rparr> else c)) \<and>
     (\<forall>j < length (dbs s). \<exists>db. (if j = c_db c then key_added m (c_argv c ! 1) (if sync then [cid] else []) (dbs s ! j) db
        else db = dbs s ! j) \<and> same_keys db (dbs s' ! j)) \<and>
     (\<forall>m'. same_job m' s s' \<or> m' = m \<and> job_all_null m s \<and> job_ret m s' = None)"

lemma enter_backend_entered:
  assumes inv: "srv_inv b' hole pend s" and c: "clients s cid = Some c" and b: "m = SET_MODE \<Longrightarrow> \<not> b"
  shows "ensures b (enter_backend m sync cid s) (\<lambda>s'. entered m sync cid c s s' \<and> slot_ok hole m s')"
proof -
  let ?c = "if sync then c\<lparr>backend_state := mode_state m\<rparr> else c"
  define s1 where "s1 = (if sync then update_client cid (\<lambda>c. c\<lparr>backend_state := mode_state m\<rparr>) s else s)"
  have i: "c_db c < length (dbs s)"
    using srv_invD(3) [OF inv c] by (simp add: client_ok_def)
  have s1: "clients s1 = (clients s)(cid \<mapsto> ?c)" "dbs s1 = dbs s" "same_conf s s1" "\<And>m'. same_job m' s s1"
    by (auto simp: s1_def c fun_upd_idem)
  have c1: "clients s1 cid = Some ?c" "c_db ?c = c_db c" "c_argv ?c = c_argv c"
    by (simp_all add: s1)
  have d: "dicts_ok (dbs s1 ! c_db ?c)"
    using srv_invD(2) [OF inv] i by (simp add: all_dicts_ok_def s1)
  have room: "card (dom (waiting m (dbs s1 ! c_db ?c))) < 2 ^ 62"
    using waiting_card_le [of m "dbs s ! c_db c"] keys_load_le [OF i] srv_invD(7) [OF inv] by (simp add: s1)
  have "ensures b (addKeyToBackendKeys m cid sync s1 \<bind> createNewJobIfHasMoreCandidates m True)
     (\<lambda>s'. entered m sync cid c s s' \<and> slot_ok hole m s')"
  proof (rule ensures_seq)
    show "ensures b (addKeyToBackendKeys m cid sync s1) (\<lambda>s'. \<exists>db'. s' = update_db (c_db ?c) (\<lambda>_. db') s1 \<and>
      key_added m (c_argv ?c ! 1) (if sync then [cid] else []) (dbs s1 ! c_db ?c) db')"
      by (rule addKeyToBackendKeys_spec [OF c1(1) d room b])
    fix s2
    assume "\<exists>db'. s2 = update_db (c_db ?c) (\<lambda>_. db') s1 \<and>
      key_added m (c_argv ?c ! 1) (if sync then [cid] else []) (dbs s1 ! c_db ?c) db'"
    then obtain db where s2: "s2 = update_db (c_db c) (\<lambda>_. db) s1"
      and db: "key_added m (c_argv c ! 1) (if sync then [cid] else []) (dbs s ! c_db c) db"
      unfolding c1(2,3) s1(2) by blast
    have n2: "length (dbs s2) = length (dbs s)" "dicts_ok db"
      using db by (simp_all add: s2 s1 key_added_def)
    have w2: "dbs s2 ! j = (if j = c_db c then db else dbs s ! j)" if "j < length (dbs s)" for j
      using that i by (simp add: s2 s1)
    have ok2: "all_dicts_ok s2"
      using srv_invD(2) [OF inv] w2 by (auto simp: all_dicts_ok_def n2)
    have j2: "same_job m' s s2" for m'
      using s1(4) by (simp add: s2)
    have conf2: "same_conf s s2" and cl2: "clients s2 = (clients s)(cid \<mapsto> ?c)"
      by (simp_all add: s2 s1)
    have e: "entered m sync cid c s s3" if "same_conf s2 s3" "clients s3 = clients s2"
      "\<forall>j < length (dbs s2). same_keys (dbs s2 ! j) (dbs s3 ! j)"
      "\<forall>m'. same_job m' s2 s3 \<or> m' = m \<and> job_all_null m s2 \<and> job_ret m s3 = None" for s3
    proof -
      have "\<exists>db. (if j = c_db c then key_added m (c_argv c ! 1) (if sync then [cid] else []) (dbs s ! j) db
        else db = dbs s ! j) \<and> same_keys db (dbs s3 ! j)" if "j < length (dbs s)" for j
        using \<open>\<forall>j < length (dbs s2). same_keys (dbs s2 ! j) (dbs s3 ! j)\<close> db w2 [OF that] that n2(1)
        by (intro exI [of _ "dbs s2 ! j"]) auto
      moreover have "same_job m' s s3 \<or> m' = m \<and> job_all_null m s \<and> job_ret m s3 = None" for m'
        using that(4) j2 same_job_trans same_job_sel(4) [OF j2] by metis
      ultimately show ?thesis
        using conf2 cl2 that by (auto simp: entered_def elim: same_conf_trans)
    qed
    show "ensures b (createNewJobIfHasMoreCandidates m True s2) (\<lambda>s'. entered m sync cid c s s' \<and> slot_ok hole m s')"
    proof (cases "job_all_null m s2")
      case True
      then have "job_all_null m s" "hole \<noteq> Some m" "m = SET_MODE \<Longrightarrow> valToBackend (server_setJob s2) = None"
        using srv_invD(5) [OF inv, of m] same_job_sel [OF j2, of m] by (auto simp: slot_ok_def job_all_null_iff)
      with createNewJob_spec [OF True ok2 _ this(2), of True] obtain s3 where s3: "createNewJobIfHasMoreCandidates m True s2 = Some s3"
        "slot_ok hole m s3" "job_ret m s3 = None" "\<forall>m'. m' \<noteq> m \<longrightarrow> same_job m' s2 s3" "clients s3 = clients s2" "same_conf s2 s3"
        "\<forall>j < length (dbs s2). same_keys (dbs s2 ! j) (dbs s3 ! j)"
        by blast
      then show ?thesis
        using True by (auto intro!: e)
    next
      case False
      have "slot_ok hole m s2"
      proof -
        have "\<not> job_all_null m s"
          using False same_job_sel(4) [OF j2] by simp
        moreover have "waiting m (dbs s2 ! j) k \<noteq> None" if "waiting m (dbs s ! j) k \<noteq> None" "j < length (dbs s)" for j k
          using that w2 [OF that(2)] db by (auto simp: key_added_def simp del: waiting.simps)
        moreover have "pending_value (dbs s2 ! j) k = pending_value (dbs s ! j) k" if "pending_value (dbs s ! j) k \<noteq> None" "j < length (dbs s)" for j k
          using that w2 [OF that(2)] db by (auto simp: key_added_def simp del: waiting.simps)
        ultimately show ?thesis
          using srv_invD(5) [OF inv, of m] same_conf_dbs [OF conf2] False
          unfolding slot_ok_def same_job_sel(1-4) [OF j2]
          by (auto simp: same_job_sel(5) [OF j2] simp del: job_key.simps job_ret.simps job_db.simps waiting.simps)
      qed
      with False show ?thesis
        using e [of s2] ok2 by (simp add: createNewJobIfHasMoreCandidates_def same_keys_def all_dicts_ok_def)
    qed
  qed
  then show ?thesis
    by (simp add: enter_backend_def s1_def Let_def)
qed

lemma entered_inv:
  assumes inv: "srv_inv b hole pend s" and c: "clients s cid = Some c" "backend_state c = CLIENT_BACKEND_NORMAL"
    and acc: "accepted b (c_cmd c) (c_argv c)" and l: "load s + 1 < 2 ^ 62"
    and e: "entered m sync cid c s s'" "slot_ok hole m s'"
  shows "srv_inv b hole pend s'" and "served cid s s'" and "load s' \<le> load s + 1"
proof -
  let ?c = "if sync then c\<lparr>backend_state := mode_state m\<rparr> else c"
  have n: "length (dbs s') = length (dbs s)" and cl: "clients s' = (clients s)(cid \<mapsto> ?c)" and conf: "same_conf s s'"
    using e(1) same_conf_dbs by (auto simp: entered_def)
  have i: "c_db c < length (dbs s)"
    using srv_invD(3) [OF inv c(1)] by (simp add: client_ok_def)
  have other: "same_keys (dbs s ! j) (dbs s' ! j)" if "j < length (dbs s)" "j \<noteq> c_db c" for j
    using e(1) that by (auto simp: entered_def)
  obtain db where db: "key_added m (c_argv c ! 1) (if sync then [cid] else []) (dbs s ! c_db c) db" "same_keys db (dbs s' ! c_db c)"
    using e(1) i by (auto simp: entered_def)
  have w: "waiting m' (dbs s' ! j) k =
      (if m' = m \<and> j = c_db c \<and> k = c_argv c ! 1
       then Some ((case waiting m (dbs s ! j) k of None \<Rightarrow> [] | Some cs0 \<Rightarrow> cs0) @ (if sync then [cid] else []))
       else waiting m' (dbs s ! j) k)" if "j < length (dbs s)" for m' j k
    using other [OF that] key_added_waiting [OF db(1), of m' k] db(2) by (cases "j = c_db c") (auto simp: same_keys_def)
  have il: "input_load s' = input_load s"
    using input_load_upd [OF srv_invD(4) [OF inv] c(1) cl] by (auto split: if_splits)
  have k: "keys_load (dbs s' ! c_db c) \<le> keys_load (dbs s ! c_db c) + 1"
    using key_added_load [OF db(1)] db(2) by (simp add: keys_load_def same_keys_def del: waiting.simps)
  show ld: "load s' \<le> load s + 1"
    using load_upd [OF i n _ il] other k by (auto simp: same_keys_def)
  have "dbs_ok s'"
  proof -
    have "db_ok (dbs s' ! j)" if "j < length (dbs s)" for j
      using srv_invD(1) [OF inv] that other [OF that] db
      by (cases "j = c_db c") (auto simp: dbs_ok_def key_added_def same_keys_def cong: db_ok_cong intro: db_ok_cong [THEN iffD2])
    then show ?thesis by (simp add: dbs_ok_def n)
  qed
  moreover have "all_dicts_ok s'"
    using e(1) by (auto simp: entered_def all_dicts_ok_def n same_keys_def)
  moreover have "client_ok b (length (dbs s)) ?c"
    using srv_invD(3) [OF inv c(1)] acc c(2) by (auto simp: client_ok_def)
  moreover have "slot_ok hole m' s'" for m'
  proof (cases "m' = m")
    case False
    then have j: "same_job m' s s'"
      using e(1) by (auto simp: entered_def)
    have "pending_value (dbs s' ! j) = pending_value (dbs s ! j)" if "m' = SET_MODE" "j < length (dbs s)" for j
    proof (rule ext)
      fix k
      show "pending_value (dbs s' ! j) k = pending_value (dbs s ! j) k"
        using other [OF that(2)] db w [OF that(2), of SET_MODE k] False that(1)
        by (cases "j = c_db c"; cases "pending_value (dbs s ! j) k")
           (auto simp: same_keys_def key_added_def pending_value_def split: if_splits)
    qed
    then show ?thesis
      using False w by (intro slot_ok_cong [OF j n _ srv_invD(5) [OF inv]]) (auto simp: fun_eq_iff simp del: waiting.simps)
  qed (simp add: e(2))
  moreover have "waits_ok pend s'"
  proof (rule waits_ok_added [OF srv_invD(6) [OF inv] n c i cl _ w])
    show "c_db x < length (dbs s)" if "clients s y = Some x" for x y
      using srv_invD(3) [OF inv that] by (simp add: client_ok_def)
  qed
  moreover have "b \<longrightarrow> redisoo_set s' = []"
    using srv_invD(8) [OF inv] conf by (simp add: same_conf_def)
  ultimately show "srv_inv b hole pend s'"
    using inv cl n ld l by (auto simp: srv_inv_def)
  show "served cid s s'"
    using e(1) cl by (auto simp: served_def entered_def)
qed

end
