(* ===== verification/Process_Inv.thy ===== *)
theory Process_Inv
  imports Backend_Inv
begin

text \<open>The processing of the input of a client keeps the invariant.\<close>

subsection \<open>The checks\<close>

lemma client_env_master [simp]: "env_slave (client_env s ro) = False"
  by (simp add: client_env_def)

text \<open>A check may remove an expired key or rehash a table; nothing else changes.\<close>

definition looked :: "bool \<Rightarrow> cid \<Rightarrow> server \<Rightarrow> server \<Rightarrow> bool" where
  "looked b cid s s' \<longleftrightarrow> quiet b cid s s' \<and> clients s' = clients s"

lemma looked_refl:
  "dbs_ok s \<Longrightarrow> clients s cid = Some c \<Longrightarrow> client_ok b (length (dbs s)) c \<Longrightarrow> looked b cid s s"
  by (simp add: looked_def quiet_refl)

lemma looked_trans: "looked b cid s s1 \<Longrightarrow> looked b cid s1 s2 \<Longrightarrow> looked b cid s s2"
  by (auto simp: looked_def elim: quiet_trans)

lemma looked_pre:
  assumes "looked b cid s s1" and "clients s cid = Some c" and "client_ok b (length (dbs s)) c"
  shows "dbs_ok s1" and "clients s1 cid = Some c" and "client_ok b (length (dbs s1)) c"
  using assms quietD(3) [of b cid s s1] same_conf_dbs [OF quietD(1), of b cid s s1] by (auto simp: looked_def)

lemma check_lookup_spec:
  assumes "dbs_ok s" and c: "clients s cid = Some c" "client_ok b (length (dbs s)) c"
  shows "\<exists>s'. check_lookup cid key s = Some (s', live (client_env s (is_readonly (c_cmd c))) (dbs s ! c_db c) key) \<and> looked b cid s s'"
proof -
  let ?e = "client_env s (is_readonly (c_cmd c))" and ?db = "dbs s ! c_db c"
  have i: "c_db c < length (dbs s)" "db_ok ?db"
    using assms by (auto simp: client_ok_def dbs_ok_def)
  have "looked b cid s (update_db (c_db c) (\<lambda>_. purge ?e ?db key) s)"
    using assms i by (auto simp: looked_def quiet_def same_jobs_def dbs_ok_def nth_list_update same_backend_waiting fun_upd_idem
        intro!: exI [of _ c])
  then show ?thesis
    using c i by (simp add: check_lookup_def lookupKeyRead_ok)
qed

lemma checkGet_spec:
  assumes "dbs_ok s" and c: "clients s cid = Some c" "client_ok b (length (dbs s)) c"
  shows "\<exists>s' need. checkGetCommandForBackendState cid s = Some (s', need) \<and> looked b cid s s'"
  using check_lookup_spec [OF assms, of "c_argv c ! 1"] looked_refl [OF assms]
  by (auto simp: checkGetCommandForBackendState_def c Let_def)

lemma isSameKey_looked:
  assumes "dbs_ok s" and c: "clients s cid = Some c" "client_ok b (length (dbs s)) c" and "all_dicts_ok s"
  shows "\<exists>s' r. isSameKeyWithDifferentValForSet cid s = Some (s', r) \<and> looked b cid s s'"
proof -
  let ?db = "dbs s ! c_db c"
  obtain d f where f: "dictFind (backendSetKeys ?db) (c_argv c ! 1) = (d, f)" by (cases "dictFind (backendSetKeys ?db) (c_argv c ! 1)")
  have i: "c_db c < length (dbs s)" "dicts_ok ?db" "db_ok ?db"
    using assms by (auto simp: client_ok_def all_dicts_ok_def dbs_ok_def)
  have d: "dict_inv d" "dict_map d = dict_map (backendSetKeys ?db)"
    using hd.find_law [of "backendSetKeys ?db" "c_argv c ! 1"] i(2) f by (auto simp: dicts_ok_def)
  have w: "same_waiting ?db (?db\<lparr>backendSetKeys := d\<rparr>)"
  proof -
    have "waiting m (?db\<lparr>backendSetKeys := d\<rparr>) = waiting m ?db" for m
      using d(2) by (cases m) simp_all
    then show ?thesis
      using d i(2) by (simp add: same_waiting_def pending_value_def dicts_ok_def fun_eq_iff)
  qed
  have "looked b cid s (update_db (c_db c) (\<lambda>db. db\<lparr>backendSetKeys := d\<rparr>) s)"
    using assms i w by (auto simp: looked_def quiet_def same_jobs_def dbs_ok_def nth_list_update fun_upd_idem db_ok_def
        intro!: exI [of _ c])
  then show ?thesis
    using f by (simp add: isSameKeyWithDifferentValForSet_def c)
qed

lemma looked_dicts: "looked b cid s s' \<Longrightarrow> all_dicts_ok s \<Longrightarrow> all_dicts_ok s'"
  using quietD(4) [of b cid s s'] same_conf_dbs [OF quietD(1), of b cid s s']
  by (auto simp: looked_def all_dicts_ok_def same_waiting_def)

lemma isSameValue_looked:
  assumes "dbs_ok s" and c: "clients s cid = Some c" "client_ok b (length (dbs s)) c"
  shows "ensures False (isSameValueInDbForSet cid s) (\<lambda>(s', r). looked b cid s s')"
proof -
  obtain s' where "check_lookup cid (c_argv c ! 1) s = Some (s', live (client_env s (is_readonly (c_cmd c))) (dbs s ! c_db c) (c_argv c ! 1))"
    "looked b cid s s'"
    using check_lookup_spec [OF assms] by blast
  then show ?thesis
    by (cases "live (client_env s (is_readonly (c_cmd c))) (dbs s ! c_db c) (c_argv c ! 1)")
      (auto simp: isSameValueInDbForSet_def c ensures_def bind_eq_Some_conv split: option.splits)
qed

lemma checkSet_spec:
  assumes "dbs_ok s" and c: "clients s cid = Some c" "client_ok b (length (dbs s)) c" and "all_dicts_ok s"
    and b: "b \<longrightarrow> redisoo_set s = []"
  shows "ensures b (checkSetCommandForBackendState cid s) (\<lambda>(s', need). looked b cid s s' \<and> (need \<longrightarrow> \<not> b))"
proof (cases "isSetCommnd (c_cmd c) \<and> redisoo_set s \<noteq> []")
  case False
  then show ?thesis
    using looked_refl [OF assms(1-3)] by (auto simp: checkSetCommandForBackendState_def c)
next
  case True
  then have nb: "\<not> b" using b by auto
  let ?r = "if c_cmd c = ''setnx'' then do {
       (s, o') \<leftarrow> check_lookup cid (c_argv c ! 1) s;
       Some (s, o' \<noteq> None)
     } else Some (s, False)"
  have "\<exists>s1 ex. ?r = Some (s1, ex) \<and> looked b cid s s1"
    using check_lookup_spec [OF assms(1-3), of "c_argv c ! 1"] looked_refl [OF assms(1-3)] by (cases "c_cmd c = ''setnx''") auto
  then obtain s1 ex where s1: "?r = Some (s1, ex)" "looked b cid s s1" by blast
  note p1 = looked_pre [OF s1(2) c]
  obtain s2 df where s2: "isSameKeyWithDifferentValForSet cid s1 = Some (s2, df)" "looked b cid s1 s2"
    using isSameKey_looked [OF p1 looked_dicts [OF s1(2) assms(4)]] by blast
  note l2 = looked_trans [OF s1(2) s2(2)]
  have "ensures b (isSameValueInDbForSet cid s2) (\<lambda>(s', r). looked b cid s2 s')"
    using isSameValue_looked [OF looked_pre [OF s2(2) p1(2,3)]] nb by simp
  then have "ensures b (do { (s, same) \<leftarrow> isSameValueInDbForSet cid s2; Some (s, \<not> same) }) (\<lambda>(s', need). looked b cid s s')"
    by (rule ensures_seq) (auto elim: looked_trans [OF l2])
  moreover have "checkSetCommandForBackendState cid s =
      (if ex then Some (s1, False) else if df then Some (s2, False)
       else do { (s, same) \<leftarrow> isSameValueInDbForSet cid s2; Some (s, \<not> same) })"
    using True by (simp only: checkSetCommandForBackendState_def c(1) bind.simps simp_thms if_True if_False s1(1) prod.case s2(1))
  ultimately show ?thesis
    using s1(2) l2 nb by (simp add: case_prod_unfold)
qed

lemma looked_inv:
  assumes "srv_inv b hole pend s" and "looked b cid s s'" and "clients s cid = Some c" "backend_state c = CLIENT_BACKEND_NORMAL"
  shows "srv_inv b hole pend s'" and "served cid s s'" and "load s' = load s" and "clients s' = clients s"
  using quiet_inv [OF assms(1) _ assms(3,4)] assms(2) by (auto simp: looked_def)

text \<open>The postcondition of a step in the processing of a command.\<close>

definition step_ok :: "bool \<Rightarrow> mode option \<Rightarrow> cid set \<Rightarrow> cid \<Rightarrow> server \<Rightarrow> server \<Rightarrow> bool" where
  "step_ok b hole pend cid s s' \<longleftrightarrow> srv_inv b hole pend s' \<and> served cid s s' \<and> load s' \<le> load s + 1"

lemma checkNeed_spec:
  assumes inv: "srv_inv b hole pend s" and c: "clients s cid = Some c" "backend_state c = CLIENT_BACKEND_NORMAL"
    and acc: "accepted b (c_cmd c) (c_argv c)" and l: "load s + 1 < 2 ^ 62"
  shows "ensures b (checkNeedToBackendState cid s) (\<lambda>s'. step_ok b hole pend cid s s' \<and>
    (\<exists>c'. clients s' cid = Some c' \<and> c_cmd c' = c_cmd c \<and> c_argv c' = c_argv c))" (is "ensures b _ ?P")
proof (cases "redisoo_db_type s = 0 \<or> c_multi c")
  case True
  then show ?thesis
    using inv c by (auto simp: checkNeedToBackendState_def step_ok_def served_def)
next
  case False
  note ok = srv_invD(1) [OF inv] c(1) srv_invD(3) [OF inv c(1)]
  have fin: "?P s'" if "looked b cid s s'" for s'
    using looked_inv [OF inv that c] c(1) by (auto simp: step_ok_def)
  have ent: "ensures b (enter_backend m sync cid s1) ?P" if "looked b cid s s1" "m = SET_MODE \<Longrightarrow> \<not> b" for m sync s1
  proof (rule ensures_mono)
    note i1 = looked_inv [OF inv that(1) c]
    have c1: "clients s1 cid = Some c"
      using i1(4) c by simp
    show "ensures b (enter_backend m sync cid s1) (\<lambda>s'. entered m sync cid c s1 s' \<and> slot_ok hole m s')"
      by (rule enter_backend_entered [OF i1(1) c1 that(2)])
    fix s2
    assume "entered m sync cid c s1 s2 \<and> slot_ok hole m s2"
    then have e: "entered m sync cid c s1 s2" "slot_ok hole m s2" by simp_all
    note i2 = entered_inv [OF i1(1) c1 c(2) acc _ e]
    show "?P s2"
      using i1 i2 l e(1) served_trans [OF i1(2)] by (auto simp: step_ok_def entered_def)
  qed
  obtain s1 n1 where s1: "checkGetCommandForBackendState cid s = Some (s1, n1)" "looked b cid s s1"
    using checkGet_spec [OF ok] by blast
  note i1 = looked_inv [OF inv s1(2) c]
  note p1 = looked_pre [OF s1(2) c(1) ok(3)]
  have "ensures b (checkSetCommandForBackendState cid s1 \<bind> (\<lambda>(s, need).
       if need then enter_backend SET_MODE (redisoo_set_sync s) cid s
       else do {
         need \<leftarrow> checkDelCommandForBackendState cid s;
         (if need then enter_backend DEL_MODE (redisoo_del_sync s) cid s else Some s)
       })) ?P"
  proof (rule ensures_seq [OF checkSet_spec [OF p1 srv_invD(2) [OF i1(1)]]], goal_cases)
    case 1
    then show ?case using srv_invD(8) [OF i1(1)] by simp
  next
    case (2 x)
    obtain s2 n2 where x: "x = (s2, n2)" by (cases x)
    have l2: "looked b cid s s2" and n2: "n2 \<Longrightarrow> \<not> b"
      using 2 looked_trans [OF s1(2)] by (auto simp: x)
    obtain n3 where n3: "checkDelCommandForBackendState cid s2 = Some n3"
      using looked_inv(4) [OF inv l2 c] c(1) by (simp add: checkDelCommandForBackendState_def)
    show ?case
      using ent [OF l2, of SET_MODE] ent [OF l2, of DEL_MODE] fin [OF l2] n2 n3 by (simp add: x)
  qed
  then show ?thesis
    using False ent [OF s1(2), of GET_MODE] by (simp add: checkNeedToBackendState_def c s1(1))
qed

subsection \<open>Commands of a client\<close>

lemma step_ok_quiet:
  assumes "srv_inv b hole pend s" and "quiet b cid s s'" and "clients s cid = Some c" "backend_state c = CLIENT_BACKEND_NORMAL"
  shows "step_ok b hole pend cid s s'"
  using quiet_inv [OF assms(1,2,3,4)] by (simp add: step_ok_def)

lemma queueMultiCommand_quiet:
  assumes "dbs_ok s" and c: "clients s cid = Some c" "client_ok b (length (dbs s)) c"
    and "accepted b (c_cmd c) (c_argv c)" "not_exec (c_cmd c)"
  shows "quiet b cid s (queueMultiCommand cid s)"
  unfolding queueMultiCommand_def using assms by (intro quiet_client) (auto simp: client_ok_def)

lemma processCommand_spec:
  assumes inv: "srv_inv b hole pend s" and c: "clients s cid = Some c" "backend_state c = CLIENT_BACKEND_NORMAL"
    and safe: "b \<longrightarrow> safe_input (c_argv c)" and l: "load s + 1 < 2 ^ 62"
  shows "ensures b (processCommand cid s) (\<lambda>(s', r). step_ok b hole pend cid s s')"
proof -
  note r = quiet_refl [OF srv_invD(1) [OF inv] c(1) srv_invD(3) [OF inv c(1)]]
  note fin = step_ok_quiet [OF inv _ c]
  have cmd_upd: "quiet b cid s (update_client cid (\<lambda>c. c\<lparr>c_cmd := name\<rparr>) s)" for name
    using srv_invD(1) [OF inv] srv_invD(3) [OF inv c(1)] c by (intro quiet_client) (auto simp: client_ok_def)
  consider (quit) "is_quit (c_argv c ! 0)" | (unknown) "\<not> is_quit (c_argv c ! 0)" "lookupCommand (c_argv c ! 0) = None"
    | (cmd) cmd where "\<not> is_quit (c_argv c ! 0)" "lookupCommand (c_argv c ! 0) = Some cmd"
    by (cases "lookupCommand (c_argv c ! 0)") auto
  then show ?thesis
  proof cases
    case quit
    have "quiet b cid s (update_client cid (\<lambda>c. c\<lparr>c_close := True\<rparr>) (reply_to cid ReplyOk s))"
      by (intro quiet_update quiet_reply r) simp_all
    then show ?thesis
      using quit fin by (simp add: processCommand_def c)
  next
    case unknown
    then show ?thesis
      using fin [OF quiet_reply [OF quiet_flag [OF cmd_upd]]] by (simp add: processCommand_def c Let_def)
  next
    case cmd
    let ?s = "update_client cid (\<lambda>c. c\<lparr>c_cmd := cmd_name cmd\<rparr>) s" and ?c = "c\<lparr>c_cmd := cmd_name cmd\<rparr>"
    note q = cmd_upd [of "cmd_name cmd"]
    note i1 = quiet_inv [OF inv q c]
    have c1: "clients ?s cid = Some ?c" "backend_state ?c = CLIENT_BACKEND_NORMAL"
      using c by simp_all
    note look = lookupCommand_name [OF cmd(2)]
    have safe': "b \<longrightarrow> safe_args (cmd_name cmd) (c_argv c)"
      using safe cmd(2) by (simp add: safe_input_def)
    have acc: "accepted b (c_cmd ?c) (c_argv ?c)"
      using look safe' by (auto simp: accepted_def)
    consider (arity) "wrong_arity cmd (length (c_argv c))" | (queue) "\<not> wrong_arity cmd (length (c_argv c))" "c_multi c \<and> queued_in_multi (cmd_proc cmd)"
      | (run) "\<not> wrong_arity cmd (length (c_argv c))" "\<not> (c_multi c \<and> queued_in_multi (cmd_proc cmd))"
      by blast
    then show ?thesis
    proof cases
      case arity
      then show ?thesis
        using cmd fin [OF quiet_reply [OF quiet_flag [OF q]]] by (simp add: processCommand_def c Let_def)
    next
      case queue
      then have "not_exec (c_cmd ?c)"
        using look by (auto simp: not_exec_def queued_in_multi_def)
      with acc have "quiet b cid ?s (queueMultiCommand cid ?s)"
        by (intro queueMultiCommand_quiet [OF srv_invD(1) [OF i1(1)] c1(1) srv_invD(3) [OF i1(1) c1(1)]])
      then show ?thesis
        using cmd queue fin [OF quiet_reply [OF quiet_trans [OF q]]] by (simp add: processCommand_def queue_or_call_def c Let_def)
    next
      case run
      have "ensures b (do {
          s \<leftarrow> checkNeedToBackendState cid ?s;
          c \<leftarrow> clients s cid;
          (if backend_state c = CLIENT_BACKEND_NORMAL then do { s \<leftarrow> call cid s; Some (s, True) } else Some (s, True))
        }) (\<lambda>(s', r). step_ok b hole pend cid s s')"
      proof (rule ensures_seq [OF checkNeed_spec [OF i1(1) c1 acc]], goal_cases)
        case 1
        then show ?case using l i1(3) by simp
      next
        case (2 s1)
        then obtain c2 where c2: "clients s1 cid = Some c2" "c_cmd c2 = cmd_name cmd" "c_argv c2 = c_argv c"
          and s1: "srv_inv b hole pend s1" "served cid ?s s1" "load s1 \<le> load s + 1"
          using i1(3) by (auto simp: step_ok_def)
        have sv: "served cid s s1"
          using i1(2) s1(2) by (rule served_trans)
        have "ensures b (call cid s1) (quiet b cid s1)"
          using look safe' c2 by (intro call_quiet [OF srv_invD(1) [OF s1(1)] c2(1) srv_invD(3) [OF s1(1) c2(1)]]) simp_all
        then have "ensures b (do { s \<leftarrow> call cid s1; Some (s, True) }) (\<lambda>(s', r). step_ok b hole pend cid s s')"
          if n: "backend_state c2 = CLIENT_BACKEND_NORMAL"
        proof (rule ensures_seq)
          fix s2
          assume "quiet b cid s1 s2"
          from quiet_inv [OF s1(1) this c2(1) n] show "ensures b (Some (s2, True)) (\<lambda>(s', r). step_ok b hole pend cid s s')"
            using s1(3) served_trans [OF sv] by (simp add: step_ok_def)
        qed
        then show ?case
          using s1 sv c2(1) by (simp add: step_ok_def)
      qed
      then show ?thesis
        using cmd run by (cases "c_multi c") (simp_all add: processCommand_def queue_or_call_def c Let_def)
    qed
  qed
qed

lemma processCommandAndResetClient_spec:
  assumes "srv_inv b hole pend s" and "clients s cid = Some c" "backend_state c = CLIENT_BACKEND_NORMAL"
    and "b \<longrightarrow> safe_input (c_argv c)" and "load s + 1 < 2 ^ 62"
  shows "ensures b (processCommandAndResetClient cid s) (step_ok b hole pend cid s)"
  unfolding processCommandAndResetClient_def
proof (rule ensures_seq [OF processCommand_spec [OF assms]])
  fix x :: "server \<times> bool"
  assume x: "case x of (s', r) \<Rightarrow> step_ok b hole pend cid s s'"
  obtain s1 r where [simp]: "x = (s1, r)" by (cases x)
  have s1: "srv_inv b hole pend s1" "served cid s s1" "load s1 \<le> load s + 1"
    using x by (simp_all add: step_ok_def)
  obtain c1 where c1: "clients s1 cid = Some c1"
    using s1(2) by (auto simp: served_def)
  have "step_ok b hole pend cid s (resetClient cid s1)" if n: "backend_state c1 = CLIENT_BACKEND_NORMAL"
  proof -
    have "quiet b cid s1 (resetClient cid s1)"
      unfolding resetClient_def using srv_invD(1) [OF s1(1)] srv_invD(3) [OF s1(1) c1] c1 n
      by (intro quiet_client) (auto simp: client_ok_def)
    from quiet_inv [OF s1(1) this c1 n] show ?thesis
      using s1(3) served_trans [OF s1(2)] by (simp add: step_ok_def)
  qed
  then show "ensures b (case x of (s, ok) \<Rightarrow> do {
      c \<leftarrow> clients s cid;
      Some (if ok \<and> backend_state c = CLIENT_BACKEND_NORMAL then resetClient cid s else s)
    }) (step_ok b hole pend cid s)"
    using c1 s1 by (simp add: step_ok_def)
qed

text \<open>A change of a client that is not waiting.\<close>

lemma client_change_inv:
  assumes inv: "srv_inv b hole pend s" and c: "clients s cid = Some c" "backend_state c = CLIENT_BACKEND_NORMAL"
    and f: "backend_state (f c) = CLIENT_BACKEND_NORMAL" "client_ok b (length (dbs s)) (f c)"
    and l: "load (update_client cid f s) < 2 ^ 62"
  shows "srv_inv b hole pend (update_client cid f s)" and "served cid s (update_client cid f s)"
    and "load (update_client cid f s) + length (querybuf c) = load s + length (querybuf (f c))"
proof -
  let ?s = "update_client cid f s"
  have cl: "clients ?s = (clients s)(cid \<mapsto> f c)"
    using c by simp
  show "load ?s + length (querybuf c) = load s + length (querybuf (f c))"
    by (rule load_same [OF _ _ srv_invD(4) [OF inv] c(1) cl]) simp_all
  have "slot_ok hole m ?s" for m
    by (rule slot_ok_cong [OF _ _ _ srv_invD(5) [OF inv]]) simp_all
  moreover have "waits_ok pend ?s"
    using srv_invD(6) [OF inv] c f(1) unfolding waits_ok_def by (auto simp: fun_upd_def; metis mode_state_not_normal(1) option.inject)
  ultimately show "srv_inv b hole pend ?s"
    using inv c f(2) l by (auto simp: srv_inv_def all_dicts_ok_def dbs_ok_def)
  show "served cid s ?s"
    using c by (simp add: served_def)
qed

text \<open>
  Every round of the loop takes a command from the buffer, and so the work at hand does not grow.
\<close>

lemma process_loop_spec:
  assumes "srv_inv b hole pend s" and "clients s cid = Some c"
  shows "ensures b (process_loop n cid s) (\<lambda>s'. srv_inv b hole pend s' \<and> served cid s s' \<and> load s' \<le> load s)"
  using assms
proof (induction n arbitrary: s c)
  case 0
  then show ?case by (auto simp: served_def)
next
  case (Suc n)
  show ?case
  proof (cases "querybuf c = [] \<or> backend_state c \<noteq> CLIENT_BACKEND_NORMAL \<or> c_close c")
    case True
    then show ?thesis
      using Suc.prems by (auto simp: served_def split: list.split)
  next
    case False
    then obtain av rest where q: "querybuf c = av # rest" and c: "clients s cid = Some c" "backend_state c = CLIENT_BACKEND_NORMAL" "\<not> c_close c"
      using Suc.prems by (cases "querybuf c") auto
    let ?f = "\<lambda>c. c\<lparr>querybuf := rest, c_argv := av\<rparr>"
    let ?s = "update_client cid ?f s"
    have ok: "client_ok b (length (dbs s)) (?f c)"
      using srv_invD(3) [OF Suc.prems(1) c(1)] q c by (simp add: client_ok_def)
    have "load ?s + 1 = load s"
      using load_same [of ?s s cid c "?f c"] srv_invD(4) [OF Suc.prems(1)] c(1) q by simp
    note l = this srv_invD(7) [OF Suc.prems(1)]
    have i1: "srv_inv b hole pend ?s" "served cid s ?s"
      using client_change_inv(1,2) [where f = ?f, OF Suc.prems(1) c(1,2)] ok c(2) l by simp_all
    have c1: "clients ?s cid = Some (?f c)" "backend_state (?f c) = CLIENT_BACKEND_NORMAL"
      using c by simp_all
    have safe: "b \<longrightarrow> safe_input (c_argv (?f c))"
      using srv_invD(3) [OF Suc.prems(1) c(1)] q by (simp add: client_ok_def)
    have "ensures b (if av = [] then Some (resetClient cid ?s) else processCommandAndResetClient cid ?s) (step_ok b hole pend cid ?s)"
    proof (cases "av = []")
      case True
      have "quiet b cid ?s (resetClient cid ?s)"
        unfolding resetClient_def using srv_invD(1) [OF i1(1)] srv_invD(3) [OF i1(1) c1(1)] c1
        by (intro quiet_client [where c = "?f c"]) (auto simp: client_ok_def)
      then show ?thesis
        using True step_ok_quiet [OF i1(1) _ c1] by simp
    next
      case False
      then show ?thesis
        using processCommandAndResetClient_spec [OF i1(1) c1 safe] l by simp
    qed
    then have "ensures b ((if av = [] then Some (resetClient cid ?s) else processCommandAndResetClient cid ?s) \<bind> process_loop n cid)
      (\<lambda>s'. srv_inv b hole pend s' \<and> served cid s s' \<and> load s' \<le> load s)"
    proof (rule ensures_seq)
      fix s1
      assume s1: "step_ok b hole pend cid ?s s1"
      then obtain c2 where c2: "clients s1 cid = Some c2"
        by (auto simp: step_ok_def served_def)
      have "ensures b (process_loop n cid s1) (\<lambda>s'. srv_inv b hole pend s' \<and> served cid s1 s' \<and> load s' \<le> load s1)"
        using Suc.IH [OF _ c2] s1 by (simp add: step_ok_def)
      then show "ensures b (process_loop n cid s1) (\<lambda>s'. srv_inv b hole pend s' \<and> served cid s s' \<and> load s' \<le> load s)"
        using s1 l i1(2) by (elim ensures_mono) (auto simp: step_ok_def intro: served_trans)
    qed
    then show ?thesis
      using c q by (simp add: Let_def)
  qed
qed

lemma processInputBuffer_spec:
  assumes "srv_inv b hole pend s" and "clients s cid = Some c"
  shows "ensures b (processInputBuffer cid s) (\<lambda>s'. srv_inv b hole pend s' \<and> served cid s s' \<and> load s' \<le> load s)"
  using process_loop_spec [OF assms] assms(2) by (simp add: processInputBuffer_def)

text \<open>
  The loop ends because it has nothing left to do: the buffer is empty, or the client waits or
  is about to be closed.
\<close>

lemma process_loop_idle:
  assumes "process_loop n cid s = Some s'" and "clients s cid = Some c" and "length (querybuf c) \<le> n"
    and "\<And>s s' c. processCommandAndResetClient cid s = Some s' \<Longrightarrow> clients s cid = Some c \<Longrightarrow>
      \<exists>c'. clients s' cid = Some c' \<and> querybuf c' = querybuf c"
  shows "\<exists>c'. clients s' cid = Some c' \<and> (querybuf c' = [] \<or> backend_state c' \<noteq> CLIENT_BACKEND_NORMAL \<or> c_close c')"
  using assms(1-3)
proof (induction n arbitrary: s c)
  case (Suc n)
  show ?case
  proof (cases "querybuf c = [] \<or> backend_state c \<noteq> CLIENT_BACKEND_NORMAL \<or> c_close c")
    case True
    then show ?thesis
      using Suc.prems by (auto split: list.splits if_splits)
  next
    case False
    then obtain av rest where q: "querybuf c = av # rest" "backend_state c = CLIENT_BACKEND_NORMAL" "\<not> c_close c"
      by (cases "querybuf c") auto
    let ?s = "update_client cid (\<lambda>c. c\<lparr>querybuf := rest, c_argv := av\<rparr>) s"
    obtain s1 where s1: "(if av = [] then Some (resetClient cid ?s) else processCommandAndResetClient cid ?s) = Some s1" "process_loop n cid s1 = Some s'"
      using Suc.prems(1,2) q by (auto simp: Let_def bind_eq_Some_conv)
    have "\<exists>c'. clients s1 cid = Some c' \<and> querybuf c' = rest"
      using s1(1) assms(4) [of ?s s1] Suc.prems(2) by (auto simp: resetClient_def split: if_splits)
    then show ?thesis
      using Suc.IH [OF s1(2)] Suc.prems(3) q(1) by auto
  qed
qed auto

end
