(* ===== verification/Finish_Inv.thy ===== *)
theory Finish_Inv
  imports Process_Inv
begin

text \<open>
  The end of a job keeps the invariant: the answer is stored, the key leaves the waiting keys,
  its clients are resumed one after the other, the slot is cleared and the next job created.
\<close>

subsection \<open>Steps outside of the clients\<close>

lemma slot_ok_hole: "m' \<noteq> m \<Longrightarrow> slot_ok (Some m) m' s = slot_ok None m' s"
  by (auto simp: slot_ok_def)

lemma load_clients:
  assumes "length (dbs s') = length (dbs s)" and "\<forall>i < length (dbs s). \<forall>m. waiting m (dbs s' ! i) = waiting m (dbs s ! i)"
    and "clients s' = clients s"
  shows "load s' = load s"
proof -
  have "(\<Sum>i < length (dbs s'). keys_load (dbs s' ! i)) = (\<Sum>i < length (dbs s). keys_load (dbs s ! i))"
    unfolding assms(1) by (rule sum.cong) (use assms(2) in \<open>simp_all add: keys_load_def del: waiting.simps\<close>)
  then show ?thesis
    using assms(3) by (simp add: load_def input_load_def)
qed

text \<open>The keyspace or a table changes, and no client does.\<close>

lemma db_change_inv:
  assumes inv: "srv_inv b hole pend s" and conf: "same_conf s s'" and j: "\<And>m. same_job m s s'" and ok: "dbs_ok s'"
    and w: "\<And>i. i < length (dbs s) \<Longrightarrow> same_waiting (dbs s ! i) (dbs s' ! i)" and cl: "clients s' = clients s"
  shows "srv_inv b hole pend s'" and "load s' = load s"
proof -
  have n: "length (dbs s') = length (dbs s)"
    using conf by (rule same_conf_dbs)
  have w': "\<forall>i < length (dbs s). \<forall>m. waiting m (dbs s' ! i) = waiting m (dbs s ! i)"
    "\<forall>i < length (dbs s). pending_value (dbs s' ! i) = pending_value (dbs s ! i)"
    "\<forall>i < length (dbs s). dicts_ok (dbs s ! i) \<longrightarrow> dicts_ok (dbs s' ! i)"
    using w by (simp_all add: same_waiting_def)
  show l: "load s' = load s"
    by (rule load_clients [OF n w'(1) cl])
  have "slot_ok hole m s'" for m
    by (rule slot_ok_cong [OF j n _ srv_invD(5) [OF inv]]) (use w' in simp)
  moreover have "waits_ok pend s'"
  proof -
    have "c_db c < length (dbs s)" if "clients s x = Some c" for c x
      using srv_invD(3) [OF inv that] by (simp add: client_ok_def)
    then show ?thesis
      using waits_okD [OF srv_invD(6) [OF inv]] w'(1) unfolding waits_ok_def n cl by auto
  qed
  ultimately show "srv_inv b hole pend s'"
    using inv ok w'(3) n l cl conf by (auto simp: srv_inv_def all_dicts_ok_def same_conf_def)
qed

lemma createStringObject_backend_ok: "robj_ok (createStringObject_backend v)" "is_string (createStringObject_backend v)"
  "obj_string (createStringObject_backend v) = v"
  by (auto simp: createStringObject_backend_def createEmbeddedStringObject_def createRawStringObject_def)

text \<open>The value is in the keyspace afterwards, with an expire time if there is one to set.\<close>

definition stored :: "nat \<Rightarrow> sds \<Rightarrow> sds \<Rightarrow> int \<Rightarrow> server \<Rightarrow> server" where
  "stored i key v ttl s =
     update_db i (\<lambda>db. let db = db_put (purge (client_env s False) db key) key (createStringObject_backend v)
        in if ttl > 0 then db_expire_at db key (sll (mstime s + ttl)) else db) (s\<lparr>dirty := dirty s + 1\<rparr>)"

lemma store_result_eq:
  assumes "db_ok (dbs s ! i)"
  shows "store_result i key v ttl s = Some (stored i key v ttl s)"
  using assms by (auto simp: store_result_def stored_def genericSetKey_eq setExpire_def db_expire_at_def Let_def update_db_def)

lemma stored_inv:
  assumes inv: "srv_inv b hole pend s" and i: "i < length (dbs s)"
  shows "srv_inv b hole pend (stored i key v ttl s)" and "load (stored i key v ttl s) = load s"
    and "clients (stored i key v ttl s) = clients s" and "same_conf s (stored i key v ttl s)"
    and "same_job m s (stored i key v ttl s)" and "j < length (dbs s) \<Longrightarrow> waiting m (dbs (stored i key v ttl s) ! j) = waiting m (dbs s ! j)"
proof -
  let ?s = "stored i key v ttl s"
  let ?db = "db_put (purge (client_env s False) (dbs s ! i) key) key (createStringObject_backend v)"
  let ?db' = "if ttl > 0 then db_expire_at ?db key (sll (mstime s + ttl)) else ?db"
  have d: "dbs ?s = (dbs s)[i := ?db']"
    by (simp add: stored_def Let_def)
  have ok: "db_ok (dbs s ! i)"
    using srv_invD(1) [OF inv] i by (simp add: dbs_ok_def)
  have ok': "db_ok ?db'"
    using ok by (auto intro!: inv_intros createStringObject_backend_ok db_ok_purge)
  have sw: "same_waiting (dbs s ! i) ?db'"
    by (rule same_backend_waiting) simp
  show cl: "clients ?s = clients s" and conf: "same_conf s ?s" and j: "same_job m s ?s" for m
    by (simp_all add: stored_def)
  have w: "same_waiting (dbs s ! k) (dbs ?s ! k)" if "k < length (dbs s)" for k
    using that sw by (cases "k = i") (simp_all add: d)
  then show "waiting m (dbs ?s ! j) = waiting m (dbs s ! j)" if "j < length (dbs s)"
    using that by (simp add: same_waiting_def)
  have "db_ok (dbs ?s ! k)" if "k < length (dbs s)" for k
    using srv_invD(1) [OF inv] ok' that by (cases "k = i") (simp_all add: dbs_ok_def d)
  then have "dbs_ok ?s"
    by (simp add: dbs_ok_def d)
  then show "srv_inv b hole pend ?s" "load ?s = load s"
    using db_change_inv [OF inv conf j _ w cl] by simp_all
qed

subsection \<open>The key leaves the waiting keys\<close>

lemma find_delete:
  assumes "dict_inv d" and "dict_map d key = Some v"
  shows "\<exists>d1 d2. dictFind d key = (d1, Some v) \<and> dict_inv d1 \<and> dict_map d1 = dict_map d \<and>
    dictDelete d1 key = (d2, True) \<and> dict_inv d2 \<and> dict_map d2 = (dict_map d)(key := None)"
proof -
  obtain d1 r where f: "dictFind d key = (d1, r)" by (cases "dictFind d key")
  have d1: "dict_inv d1" "dict_map d1 = dict_map d" "r = Some v"
    using hd.find_law [OF assms(1), of key] f assms(2) by auto
  obtain d2 a where x: "dictDelete d1 key = (d2, a)" by (cases "dictDelete d1 key")
  have "dict_inv d2" "dict_map d2 = (dict_map d)(key := None)" "a"
    using hd.delete_law [OF d1(1), of key] x d1(2) assms(2) by auto
  with f d1 x show ?thesis by simp
qed

lemma take_waiting_eq:
  assumes "dicts_ok (dbs s ! i)" and "waiting m (dbs s ! i) key = Some cs"
  shows "\<exists>db'. take_waiting m i key s = Some (update_db i (\<lambda>_. db') s, cs) \<and> dicts_ok db' \<and>
    db_dict db' = db_dict (dbs s ! i) \<and> db_expires db' = db_expires (dbs s ! i) \<and>
    waiting m db' = (waiting m (dbs s ! i))(key := None) \<and>
    (\<forall>m'. m' \<noteq> m \<longrightarrow> waiting m' db' = waiting m' (dbs s ! i) \<and>
      (m' = SET_MODE \<longrightarrow> pending_value db' = pending_value (dbs s ! i)))"
proof (cases m)
  case GET_MODE
  let ?db = "dbs s ! i"
  obtain d1 d2 where d: "dictFind (backendGetKeys ?db) key = (d1, Some cs)" "dictDelete d1 key = (d2, True)" "dict_inv d2"
    "dict_map d2 = (dict_map (backendGetKeys ?db))(key := None)"
    using find_delete [of "backendGetKeys ?db" key cs] assms GET_MODE by (auto simp: dicts_ok_def)
  then show ?thesis
    using assms(1) GET_MODE
    by (intro exI [of _ "?db\<lparr>backendGetKeys := d2\<rparr>"]) (simp add: take_waiting_def dicts_ok_def update_db_def)
next
  case DEL_MODE
  let ?db = "dbs s ! i"
  obtain d1 d2 where d: "dictFind (backendDelKeys ?db) key = (d1, Some cs)" "dictDelete d1 key = (d2, True)" "dict_inv d2"
    "dict_map d2 = (dict_map (backendDelKeys ?db))(key := None)"
    using find_delete [of "backendDelKeys ?db" key cs] assms DEL_MODE by (auto simp: dicts_ok_def)
  then show ?thesis
    using assms(1) DEL_MODE
    by (intro exI [of _ "?db\<lparr>backendDelKeys := d2\<rparr>"]) (simp add: take_waiting_def dicts_ok_def update_db_def)
next
  case SET_MODE
  let ?db = "dbs s ! i"
  obtain info where info: "dict_map (backendSetKeys ?db) key = Some info" "set_clients info = cs"
    using assms(2) SET_MODE by auto
  obtain d1 where d1: "dictFind (backendSetKeys ?db) key = (d1, Some info)" "dict_inv d1"
    "dict_map d1 = dict_map (backendSetKeys ?db)"
    using find_delete [of "backendSetKeys ?db" key info] assms(1) info by (auto simp: dicts_ok_def)
  obtain d2 d3 where d: "dictFind d1 key = (d2, Some info)" "dictDelete d2 key = (d3, True)" "dict_inv d3"
    "dict_map d3 = (dict_map (backendSetKeys ?db))(key := None)"
    using find_delete [OF d1(2), of key info] d1(3) info by auto
  then show ?thesis
    using assms(1) SET_MODE d1(1) info(2)
    by (intro exI [of _ "?db\<lparr>backendSetKeys := d3\<rparr>"]) (auto simp: take_waiting_def dicts_ok_def update_db_def)
qed

lemma take_waiting_spec:
  assumes inv: "srv_inv b None {} s" and i: "i < length (dbs s)" and k: "waiting m (dbs s ! i) key = Some cs"
    and ret: "job_ret m s \<noteq> None"
  shows "\<exists>s'. take_waiting m i key s = Some (s', cs) \<and> srv_inv b (Some m) (set cs) s' \<and> distinct cs \<and> load s' + 1 = load s \<and>
    clients s' = clients s \<and> same_conf s s' \<and> (\<forall>m'. same_job m' s s') \<and>
    (\<forall>j < length (dbs s). db_dict (dbs s' ! j) = db_dict (dbs s ! j) \<and> db_expires (dbs s' ! j) = db_expires (dbs s ! j))"
proof -
  let ?db = "dbs s ! i"
  have ok: "dicts_ok ?db" "db_ok ?db"
    using srv_invD(1,2) [OF inv] i by (simp_all add: all_dicts_ok_def dbs_ok_def)
  obtain db' where t: "take_waiting m i key s = Some (update_db i (\<lambda>_. db') s, cs)" "dicts_ok db'"
    "db_dict db' = db_dict ?db" "db_expires db' = db_expires ?db" "waiting m db' = (waiting m ?db)(key := None)"
    "\<forall>m'. m' \<noteq> m \<longrightarrow> waiting m' db' = waiting m' ?db \<and> (m' = SET_MODE \<longrightarrow> pending_value db' = pending_value ?db)"
    using take_waiting_eq [OF ok(1) k] by blast
  let ?s = "update_db i (\<lambda>_. db') s"
  have d: "(dbs s)[i := db'] ! j = (if j = i then db' else dbs s ! j)" if "j < length (dbs s)" for j
    using that i by simp
  note u = waits_okD [OF srv_invD(6) [OF inv]]
  have "load ?s + 1 = load s"
  proof -
    have "card (dom (waiting m db')) + 1 = card (dom (waiting m ?db))"
      using card_Suc_Diff1 [OF finite_waiting [of m ?db], of key] k unfolding t(5) dom_fun_upd by (simp add: domI)
    then have "keys_load db' + 1 = keys_load ?db"
      using t(6) by (cases m) (simp_all add: keys_load_def del: waiting.simps)
    then show ?thesis
      using load_upd [OF i, of ?s] i by (simp add: input_load_def)
  qed
  moreover have "srv_inv b (Some m) (set cs) ?s"
  proof -
    have "db_ok db'"
      using ok(2) t(3,4) by (simp add: db_ok_def)
    then have "dbs_ok ?s"
      using srv_invD(1) [OF inv] by (simp add: dbs_ok_def d)
    moreover have "all_dicts_ok ?s"
      using srv_invD(2) [OF inv] t(2) by (simp add: all_dicts_ok_def d)
    moreover have "slot_ok (Some m) m' ?s" for m'
    proof (cases "m' = m")
      case True
      have "\<not> job_all_null m s"
        using ret by (simp add: job_all_null_iff)
      moreover have "slot_ok (Some m) m s"
        using srv_invD(5) [OF inv, of m] ret by (auto simp: slot_ok_def)
      ultimately show ?thesis
        using True same_job_sel [of m s ?s] by (cases m) (simp_all add: slot_ok_def)
    next
      case False
      have "slot_ok None m' ?s"
        using t(6) False by (intro slot_ok_cong [OF _ _ _ srv_invD(5) [OF inv]]) (simp_all add: d)
      then show ?thesis
        using False by (simp add: slot_ok_hole)
    qed
    moreover have "waits_ok (set cs) ?s"
    proof -
      have w: "waiting m' ((dbs s)[i := db'] ! j) k' = (if m' = m \<and> j = i \<and> k' = key then None else waiting m' (dbs s ! j) k')"
        if "j < length (dbs s)" for m' j k'
        using t(5,6) d [OF that] by (cases "m' = m") (auto simp del: waiting.simps)
      have off: "x \<notin> set cs" if "j < length (dbs s)" "waiting m' (dbs s ! j) k' = Some cs'" "x \<in> set cs'" "\<not> (m' = m \<and> j = i \<and> k' = key)" for m' j k' cs' x
        using u(2) [OF that(1-3)] u(2) [OF i k, of x] that(4) by auto
      have n: "c_db c < length (dbs s)" if "clients s x = Some c" for c x
        using srv_invD(3) [OF inv that] by (simp add: client_ok_def)
      have "\<exists>cs'. waiting m' ((dbs s)[i := db'] ! c_db c) (c_argv c ! 1) = Some cs' \<and> x \<in> set cs'"
        if "clients s x = Some c" "backend_state c = mode_state m'" "x \<notin> set cs" for x c m'
        using u(3) [OF that(1,2)] w [OF n [OF that(1)], of m' "c_argv c ! 1"] k that(3) by auto
      moreover have "\<exists>c. clients s x = Some c \<and> backend_state c \<noteq> CLIENT_BACKEND_NORMAL" if "x \<in> set cs" for x
        using u(2) [OF i k that] by auto
      moreover have "distinct cs' \<and> (\<forall>x \<in> set cs'. x \<notin> set cs \<and>
          (\<exists>c. clients s x = Some c \<and> backend_state c = mode_state m' \<and> c_db c = j \<and> c_argv c ! 1 = k'))"
        if "j < length (dbs s)" "waiting m' ((dbs s)[i := db'] ! j) k' = Some cs'" for m' j k' cs'
      proof -
        have old: "waiting m' (dbs s ! j) k' = Some cs'" "\<not> (m' = m \<and> j = i \<and> k' = key)"
          using w [OF that(1), of m' k'] that(2) by (auto split: if_splits)
        show ?thesis
          using u(1,2) [OF that(1) old(1)] off [OF that(1) old(1) _ old(2)] by blast
      qed
      ultimately show ?thesis
        unfolding waits_ok_def update_db_sel length_list_update by blast
    qed
    ultimately show ?thesis
      using inv \<open>load ?s + 1 = load s\<close> by (simp add: srv_inv_def)
  qed
  moreover have "db_dict (dbs ?s ! j) = db_dict (dbs s ! j) \<and> db_expires (dbs ?s ! j) = db_expires (dbs s ! j)"
    if "j < length (dbs s)" for j
    using t(3,4) d [OF that] by simp
  ultimately show ?thesis
    using t(1) u(1) [OF i k] by simp
qed

subsection \<open>Clients are resumed\<close>

text \<open>A change of a client that is about to be resumed.\<close>

lemma pending_change_inv:
  assumes inv: "srv_inv b hole pend s" and c: "clients s cid = Some c" "cid \<in> pend"
    and f: "backend_state (f c) = backend_state c" "querybuf (f c) = querybuf c" "client_ok b (length (dbs s)) (f c)"
  shows "srv_inv b hole pend (update_client cid f s)" and "load (update_client cid f s) = load s"
proof -
  let ?s = "update_client cid f s"
  have cl: "clients ?s = (clients s)(cid \<mapsto> f c)"
    using c by simp
  show l: "load ?s = load s"
    using load_same [OF _ _ srv_invD(4) [OF inv] c(1) cl] f(2) by simp
  have "slot_ok hole m ?s" for m
    by (rule slot_ok_cong [OF _ _ _ srv_invD(5) [OF inv]]) simp_all
  moreover have "waits_ok pend ?s"
  proof -
    have "backend_state c \<noteq> CLIENT_BACKEND_NORMAL"
      using waits_okD(4) [OF srv_invD(6) [OF inv] c(2)] c(1) by simp
    then show ?thesis
      using waits_okD [OF srv_invD(6) [OF inv]] c f(1) unfolding waits_ok_def cl by (auto split: if_splits)
  qed
  ultimately show "srv_inv b hole pend ?s"
    using inv c f(3) l by (auto simp: srv_inv_def all_dicts_ok_def dbs_ok_def)
qed

lemma resume_state_inv:
  assumes inv: "srv_inv b hole (insert cid pend) s" and c: "clients s cid = Some c" "cid \<notin> pend"
  shows "srv_inv b hole pend (update_client cid (\<lambda>c. c\<lparr>backend_state := CLIENT_BACKEND_NORMAL\<rparr>) s)" (is "srv_inv b hole pend ?s")
    and "load (update_client cid (\<lambda>c. c\<lparr>backend_state := CLIENT_BACKEND_NORMAL\<rparr>) s) = load s"
proof -
  have cl: "clients ?s = (clients s)(cid \<mapsto> c\<lparr>backend_state := CLIENT_BACKEND_NORMAL\<rparr>)"
    using c by simp
  show l: "load ?s = load s"
    using load_same [OF _ _ srv_invD(4) [OF inv] c(1) cl] by simp
  have "slot_ok hole m ?s" for m
    by (rule slot_ok_cong [OF _ _ _ srv_invD(5) [OF inv]]) simp_all
  moreover have "waits_ok pend ?s"
  proof -
    note u = waits_okD [OF srv_invD(6) [OF inv]]
    have "distinct cs \<and> (\<forall>x \<in> set cs. x \<notin> pend \<and>
        (\<exists>y. clients ?s x = Some y \<and> backend_state y = mode_state m \<and> c_db y = i \<and> c_argv y ! 1 = k))"
      if "i < length (dbs s)" "waiting m (dbs s ! i) k = Some cs" for i m k cs
      using u(1,2) [OF that] unfolding cl by (auto simp del: waiting.simps)
    moreover have "\<exists>cs. waiting m (dbs s ! c_db y) (c_argv y ! 1) = Some cs \<and> x \<in> set cs"
      if "clients ?s x = Some y" "backend_state y = mode_state m" "x \<notin> pend" for x y m
    proof -
      have "x \<noteq> cid"
        using that(1,2) unfolding cl by auto
      then show ?thesis
        using u(3) [of x y m] that unfolding cl by (simp del: waiting.simps)
    qed
    moreover have "\<exists>y. clients ?s x = Some y \<and> backend_state y \<noteq> CLIENT_BACKEND_NORMAL" if "x \<in> pend" for x
      using u(4) [of x] that c(2) unfolding cl by auto
    ultimately show ?thesis
      unfolding waits_ok_def update_client_sel(1) by blast
  qed
  moreover have "client_ok b (length (dbs s)) (c\<lparr>backend_state := CLIENT_BACKEND_NORMAL\<rparr>)"
    using srv_invD(3) [OF inv c(1)] by (simp add: client_ok_def)
  ultimately show "srv_inv b hole pend ?s"
    using inv c l by (auto simp: srv_inv_def all_dicts_ok_def dbs_ok_def)
qed

lemma resumeBackendClient_spec:
  assumes inv: "srv_inv b hole (insert cid pend) s" and np: "cid \<notin> pend"
  shows "ensures b (resumeBackendClient cid s) (\<lambda>s'. srv_inv b hole pend s' \<and> served cid s s' \<and> load s' \<le> load s)"
proof -
  obtain c where c: "clients s cid = Some c" "backend_state c \<noteq> CLIENT_BACKEND_NORMAL"
    using waits_okD(4) [OF srv_invD(6) [OF inv], of cid] by auto
  let ?s = "update_client cid (\<lambda>c. c\<lparr>backend_state := CLIENT_BACKEND_NORMAL\<rparr>) s"
  let ?c = "c\<lparr>backend_state := CLIENT_BACKEND_NORMAL\<rparr>"
  note i1 = resume_state_inv [OF inv c(1) np]
  have c1: "clients ?s cid = Some ?c" "backend_state ?c = CLIENT_BACKEND_NORMAL"
    using c by simp_all
  have sv: "served cid s ?s"
    using c by (simp add: served_def)
  obtain cmd where cmd: "lookupCommand (c_cmd c) = Some cmd" "b \<longrightarrow> safe_args (cmd_name cmd) (c_argv c)"
    using srv_invD(3) [OF inv c(1)] c(2) by (auto simp: client_ok_def accepted_def)
  have "ensures b (call cid ?s) (quiet b cid ?s)"
    using cmd by (intro call_quiet [OF srv_invD(1) [OF i1(1)] c1(1) srv_invD(3) [OF i1(1) c1(1)]]) simp_all
  then have "ensures b (call cid ?s \<bind> (\<lambda>s. processInputBuffer cid (resetClient cid s)))
    (\<lambda>s'. srv_inv b hole pend s' \<and> served cid s s' \<and> load s' \<le> load s)"
  proof (rule ensures_seq)
    fix s1
    assume q: "quiet b cid ?s s1"
    obtain c2 where c2: "clients s1 cid = Some c2" "client_ok b (length (dbs s1)) c2" "backend_state c2 = CLIENT_BACKEND_NORMAL"
      using q c by (auto simp: quiet_def same_conf_def)
    have "quiet b cid s1 (resetClient cid s1)"
      unfolding resetClient_def using c2 quietD(3) [OF q] by (intro quiet_client) (auto simp: client_ok_def)
    with q have "quiet b cid ?s (resetClient cid s1)"
      by (rule quiet_trans)
    note i2 = quiet_inv [OF i1(1) this c1]
    have "clients (resetClient cid s1) cid = Some (c2\<lparr>c_argv := []\<rparr>)"
      using c2 by (simp add: resetClient_def)
    from processInputBuffer_spec [OF i2(1) this]
    show "ensures b (processInputBuffer cid (resetClient cid s1)) (\<lambda>s'. srv_inv b hole pend s' \<and> served cid s s' \<and> load s' \<le> load s)"
      using i2(2,3) i1(2) sv by (elim ensures_mono) (auto intro: served_trans)
  qed
  then show ?thesis
    using c by (simp add: resumeBackendClient_def)
qed

definition resumed :: "server \<Rightarrow> server \<Rightarrow> bool" where
  "resumed s s' \<longleftrightarrow> same_conf s s' \<and> load s' \<le> load s \<and> dom (clients s') = dom (clients s) \<and>
     (\<forall>m. same_job m s s' \<or> job_all_null m s \<and> job_ret m s' = None)"

lemma resumed_trans:
  assumes "resumed s s1" and "resumed s1 s2"
  shows "resumed s s2"
proof -
  have "same_job m s s2 \<or> job_all_null m s \<and> job_ret m s2 = None" for m
    using assms unfolding resumed_def by (metis same_job_trans same_job_sel(2,4) job_all_null_iff)
  then show ?thesis
    using assms by (auto simp: resumed_def elim: same_conf_trans)
qed

lemma served_resumed:
  assumes "served cid s s'" and "load s' \<le> load s" and "clients s cid \<noteq> None"
  shows "resumed s s'"
proof -
  have "dom (clients s') = dom (clients s)"
    using assms(1,3) unfolding served_def dom_def by (metis)
  then show ?thesis
    using assms by (simp add: served_def resumed_def)
qed

lemma resume_all_spec:
  assumes "srv_inv b hole (set cs) s" and "distinct cs"
  shows "ensures b (resume_all m r cs s) (\<lambda>s'. srv_inv b hole {} s' \<and> resumed s s')"
  using assms
proof (induction cs arbitrary: s)
  case Nil
  then show ?case by (simp add: resumed_def)
next
  case (Cons cid cs)
  obtain c where c: "clients s cid = Some c"
    using waits_okD(4) [OF srv_invD(6) [OF Cons.prems(1)], of cid] by auto
  define s1 where "s1 = (if m = SET_MODE \<and> r = 0 then update_client cid (\<lambda>c. c\<lparr>backend_set_sync_reply := True\<rparr>) s
    else if m = DEL_MODE \<and> r = 0 then update_client cid (\<lambda>c. c\<lparr>backend_del_sync_reply := True\<rparr>) s else s)"
  have i1: "srv_inv b hole (insert cid (set cs)) s1" "load s1 = load s"
    using pending_change_inv [OF Cons.prems(1) c] Cons.prems(1) srv_invD(3) [OF Cons.prems(1) c] by (auto simp: s1_def)
  have r1: "resumed s s1"
    using c i1(2) by (auto simp: resumed_def s1_def)
  have "cid \<notin> set cs" using Cons.prems(2) by simp
  from resumeBackendClient_spec [OF i1(1) this]
  have "ensures b (resumeBackendClient cid s1 \<bind> resume_all m r cs) (\<lambda>s'. srv_inv b hole {} s' \<and> resumed s s')"
  proof (rule ensures_seq)
    fix s2
    assume s2: "srv_inv b hole (set cs) s2 \<and> served cid s1 s2 \<and> load s2 \<le> load s1"
    have "resumed s s2"
      using s2 resumed_trans [OF r1 served_resumed] c by (auto simp: s1_def)
    then show "ensures b (resume_all m r cs s2) (\<lambda>s'. srv_inv b hole {} s' \<and> resumed s s')"
      using Cons.IH [of s2] s2 Cons.prems(2) resumed_trans by (auto elim!: ensures_mono)
  qed
  then show ?case
    by (simp add: s1_def Let_def)
qed

subsection \<open>The slot is cleared\<close>

lemma clear_job_spec:
  assumes "job_key m s = Some k" and "job_ret m s = Some k"
  shows "\<exists>s'. clear_job m s = Some s' \<and> job_all_null m s' \<and> (m = SET_MODE \<longrightarrow> valToBackend (server_setJob s') = None) \<and>
    (\<forall>m'. m' \<noteq> m \<longrightarrow> same_job m' s s') \<and> clients s' = clients s \<and> dbs s' = dbs s \<and> same_conf s s'"
proof -
  have "same_job m' s (s\<lparr>server_getJob := g\<rparr>)" if "m' \<noteq> GET_MODE" for m' g
    using that by (cases m') simp_all
  moreover have "same_job m' s (s\<lparr>server_setJob := g\<rparr>)" if "m' \<noteq> SET_MODE" for m' g
    using that by (cases m') simp_all
  moreover have "same_job m' s (s\<lparr>server_delJob := g\<rparr>)" if "m' \<noteq> DEL_MODE" for m' g
    using that by (cases m') simp_all
  ultimately show ?thesis
    using assms by (cases m) (simp_all add: clear_job_def job_all_null_iff same_conf_def)
qed

text \<open>Distribution of an answer: what is left of the state after the end of a job.\<close>

definition finished :: "mode \<Rightarrow> server \<Rightarrow> server \<Rightarrow> bool" where
  "finished m s s' \<longleftrightarrow> same_conf s s' \<and> load s' < load s \<and> dom (clients s') = dom (clients s) \<and> job_ret m s' = None \<and>
     (\<forall>m'. m' \<noteq> m \<longrightarrow> same_job m' s s' \<or> job_all_null m' s \<and> job_ret m' s' = None)"

lemma end_of_job:
  assumes inv: "srv_inv b (Some m) {} s" and k: "job_key m s = Some k" "job_ret m s = Some k"
  shows "\<exists>s1 s2. clear_job m s = Some s1 \<and> createNewJobIfHasMoreCandidates m False s1 = Some s2 \<and> srv_inv b None {} s2 \<and>
    load s2 = load s \<and> clients s2 = clients s \<and> same_conf s s2 \<and> job_ret m s2 = None \<and> (\<forall>m'. m' \<noteq> m \<longrightarrow> same_job m' s s2)"
proof -
  obtain s1 where s1: "clear_job m s = Some s1" "job_all_null m s1" "m = SET_MODE \<Longrightarrow> valToBackend (server_setJob s1) = None"
    "\<forall>m'. m' \<noteq> m \<longrightarrow> same_job m' s s1" "clients s1 = clients s" "dbs s1 = dbs s" "same_conf s s1"
    using clear_job_spec [OF k] by blast
  have d1: "all_dicts_ok s1"
    using srv_invD(2) [OF inv] s1(6) by (simp add: all_dicts_ok_def)
  obtain s2 where s2: "createNewJobIfHasMoreCandidates m False s1 = Some s2" "slot_ok None m s2" "job_ret m s2 = None"
    "\<forall>m'. m' \<noteq> m \<longrightarrow> same_job m' s1 s2" "clients s2 = clients s1" "same_conf s1 s2"
    "\<forall>i < length (dbs s1). same_keys (dbs s1 ! i) (dbs s2 ! i)"
    using createNewJob_spec [OF s1(2) d1 s1(3), of None False] by blast
  have n: "length (dbs s2) = length (dbs s)"
    using same_conf_dbs [OF s2(6)] s1(6) by simp
  have w: "\<forall>i < length (dbs s). \<forall>m'. waiting m' (dbs s2 ! i) = waiting m' (dbs s ! i)"
    "\<forall>i < length (dbs s). pending_value (dbs s2 ! i) = pending_value (dbs s ! i)"
    "\<forall>i < length (dbs s). dicts_ok (dbs s2 ! i)"
    "\<forall>i < length (dbs s). db_dict (dbs s2 ! i) = db_dict (dbs s ! i) \<and> db_expires (dbs s2 ! i) = db_expires (dbs s ! i)"
    using s2(7) s1(6) by (simp_all add: same_keys_def)
  have j: "same_job m' s s2" if "m' \<noteq> m" for m'
    using s1(4) s2(4) that same_job_trans by blast
  have l: "load s2 = load s"
    using load_clients [OF n w(1)] s1(5) s2(5) by simp
  have "slot_ok None m' s2" for m'
  proof (cases "m' = m")
    case False
    then have "slot_ok None m' s"
      using srv_invD(5) [OF inv, of m'] slot_ok_hole by simp
    then show ?thesis
      using slot_ok_cong [OF j [OF False] n] w by simp
  qed (simp add: s2(2))
  moreover have "waits_ok {} s2"
  proof -
    have "c_db c < length (dbs s)" if "clients s x = Some c" for c x
      using srv_invD(3) [OF inv that] by (simp add: client_ok_def)
    then show ?thesis
      using waits_okD [OF srv_invD(6) [OF inv]] w(1) s1(5) s2(5) unfolding waits_ok_def n by auto
  qed
  moreover have "dbs_ok s2"
  proof -
    have "db_ok (dbs s2 ! i)" if "i < length (dbs s)" for i
      using w(4) srv_invD(1) [OF inv] that by (simp add: db_ok_def dbs_ok_def)
    then show ?thesis by (simp add: dbs_ok_def n)
  qed
  moreover have conf: "same_conf s s2"
    using s1(7) s2(6) by (rule same_conf_trans)
  ultimately have "srv_inv b None {} s2"
    using inv w(3) n l s1(5) s2(5) by (auto simp: srv_inv_def all_dicts_ok_def same_conf_def)
  then show ?thesis
    using s1(1) s2(1,3) l s1(5) s2(5) conf j by auto
qed

lemma clearFinishKey_spec:
  assumes inv: "srv_inv b None {} s" and k: "job_key m s = Some k" "job_ret m s = Some k"
    and val: "m = SET_MODE \<Longrightarrow> val \<noteq> None"
  shows "ensures b (clearFinishKey m (nat (job_db m s)) k val r ttl s) (\<lambda>s'. srv_inv b None {} s' \<and> finished m s s')"
proof -
  let ?i = "nat (job_db m s)"
  have i: "?i < length (dbs s)" and wt: "waiting m (dbs s ! ?i) k \<noteq> None"
    using srv_invD(5) [OF inv, of m] k by (auto simp: slot_ok_def)
  have db: "db_ok (dbs s ! ?i)"
    using srv_invD(1) [OF inv] i by (simp add: dbs_ok_def)
  define s1 where "s1 = (case m of
      GET_MODE \<Rightarrow> (case val of None \<Rightarrow> s | Some v \<Rightarrow> stored ?i k v (redisoo_get_ttl s) s)
    | SET_MODE \<Rightarrow> if r \<noteq> 0 then stored ?i k (the val) ttl s else s
    | DEL_MODE \<Rightarrow> s)"
  have first: "(case m of
      GET_MODE \<Rightarrow> (case val of None \<Rightarrow> Some s | Some v \<Rightarrow> store_result ?i k v (redisoo_get_ttl s) s)
    | SET_MODE \<Rightarrow> if r \<noteq> 0 then do { v \<leftarrow> val; store_result ?i k v ttl s } else Some s
    | DEL_MODE \<Rightarrow> Some s) = Some s1"
    using val store_result_eq [OF db] by (cases m) (auto simp: s1_def split: option.splits)
  have "s1 = s \<or> (\<exists>v t. s1 = stored ?i k v t s)"
    by (auto simp: s1_def split: mode.splits option.splits)
  then have i1: "srv_inv b None {} s1" "load s1 = load s" "clients s1 = clients s" "same_conf s s1" "\<And>m'. same_job m' s s1"
    "waiting m (dbs s1 ! ?i) k = waiting m (dbs s ! ?i) k"
    using inv stored_inv [OF inv i] i by auto
  obtain cs where cs: "waiting m (dbs s1 ! ?i) k = Some cs"
    using wt i1(6) by auto
  have n1: "?i < length (dbs s1)" "job_ret m s1 \<noteq> None"
    using i same_conf_dbs [OF i1(4)] k same_job_sel(2) [OF i1(5)] by simp_all
  obtain s2 where s2: "take_waiting m ?i k s1 = Some (s2, cs)" "srv_inv b (Some m) (set cs) s2" "distinct cs" "load s2 + 1 = load s1"
    "clients s2 = clients s1" "same_conf s1 s2" "\<forall>m'. same_job m' s1 s2"
    using take_waiting_spec [OF i1(1) n1(1) cs n1(2)] by blast
  have j2: "same_job m' s s2" for m'
    using i1(5) s2(7) same_job_trans by blast
  have "ensures b (resume_all m r cs s2 \<bind> (\<lambda>s. clear_job m s \<bind> createNewJobIfHasMoreCandidates m False))
    (\<lambda>s'. srv_inv b None {} s' \<and> finished m s s')"
  proof (rule ensures_seq [OF resume_all_spec [OF s2(2,3)]])
    fix s3
    assume s3: "srv_inv b (Some m) {} s3 \<and> resumed s2 s3"
    have "\<not> job_all_null m s2"
      using same_job_sel(4) [OF j2] k by (simp add: job_all_null_iff)
    then have "same_job m s2 s3"
      using s3 by (auto simp: resumed_def)
    then have k3: "job_key m s3 = Some k" "job_ret m s3 = Some k"
      using same_job_sel(1,2) [OF j2] same_job_sel(1,2) [of m s2 s3] k by simp_all
    from end_of_job [OF conjunct1 [OF s3] this] obtain s4 s5 where s5: "clear_job m s3 = Some s4"
      "createNewJobIfHasMoreCandidates m False s4 = Some s5" "srv_inv b None {} s5" "load s5 = load s3" "clients s5 = clients s3"
      "same_conf s3 s5" "job_ret m s5 = None" "\<forall>m'. m' \<noteq> m \<longrightarrow> same_job m' s3 s5"
      by blast
    have "same_job m' s s5 \<or> job_all_null m' s \<and> job_ret m' s5 = None" if "m' \<noteq> m" for m'
      using s5(8) s3 that j2 unfolding resumed_def by (metis same_job_trans same_job_sel(2,4))
    moreover have "same_conf s s5"
      using same_conf_trans [OF same_conf_trans [OF same_conf_trans [OF i1(4) s2(6)]] s5(6)] s3 by (simp add: resumed_def)
    ultimately have "finished m s s5"
      using s3 s5 s2 i1 by (auto simp: finished_def resumed_def)
    then show "ensures b (clear_job m s3 \<bind> createNewJobIfHasMoreCandidates m False) (\<lambda>s'. srv_inv b None {} s' \<and> finished m s s')"
      using s5 by simp
  qed
  then show ?thesis
    unfolding clearFinishKey_def first bind.simps s2(1) prod.case by simp
qed

subsection \<open>The handlers\<close>

definition pipe_handler :: "mode \<Rightarrow> server \<Rightarrow> server option" where
  "pipe_handler m s =
     (case m of GET_MODE \<Rightarrow> getPipeMainThreadHandler s | SET_MODE \<Rightarrow> setPipeMainThreadHandler s | DEL_MODE \<Rightarrow> delPipeMainThreadHandler s)"

lemma srv_inv_cong:
  assumes "dbs s' = dbs s" and "clients s' = clients s" and "same_jobs s s'" and "redisoo_set s' = redisoo_set s"
  shows "srv_inv b hole pend s' = srv_inv b hole pend s" and "load s' = load s"
proof -
  have j: "job_key m s' = job_key m s" "job_ret m s' = job_ret m s" "job_db m s' = job_db m s"
    "valToBackend (server_setJob s') = valToBackend (server_setJob s)" for m
    using assms(3) by (cases m; simp add: same_jobs_def)+
  show l: "load s' = load s"
    by (simp add: load_def input_load_def assms)
  show "srv_inv b hole pend s' = srv_inv b hole pend s"
    unfolding srv_inv_def dbs_ok_def all_dicts_ok_def waits_ok_def slot_ok_def job_all_null_iff j assms(1,2,4) l ..
qed

text \<open>The pipe of a mode, after a byte has been read or written.\<close>

fun set_job_pipe :: "mode \<Rightarrow> nat \<Rightarrow> server \<Rightarrow> server" where
  "set_job_pipe GET_MODE n s = s\<lparr>get_pipe := n\<rparr>"
| "set_job_pipe SET_MODE n s = s\<lparr>set_pipe := n\<rparr>"
| "set_job_pipe DEL_MODE n s = s\<lparr>del_pipe := n\<rparr>"

lemma set_job_pipe_sel [simp]:
  "dbs (set_job_pipe m n s) = dbs s" "clients (set_job_pipe m n s) = clients s" "same_jobs s' (set_job_pipe m n s) = same_jobs s' s"
  "redisoo_set (set_job_pipe m n s) = redisoo_set s" "same_job m' s' (set_job_pipe m n s) = same_job m' s' s"
  "job_ret m' (set_job_pipe m n s) = job_ret m' s" "job_key m' (set_job_pipe m n s) = job_key m' s"
  "job_pipe m' (set_job_pipe m n s) = (if m' = m then n else job_pipe m' s)"
  by (cases m; cases m'; simp add: same_jobs_def)+

lemma srv_inv_pipe [simp]:
  "srv_inv b hole pend (set_job_pipe m n s) = srv_inv b hole pend s" "load (set_job_pipe m n s) = load s"
  using srv_inv_cong [of "set_job_pipe m n s" s] by (simp_all add: same_jobs_def [of s s])

text \<open>A handler takes one byte from its own pipe.\<close>

definition handled :: "mode \<Rightarrow> server \<Rightarrow> server \<Rightarrow> bool" where
  "handled m s s' \<longleftrightarrow> length (dbs s') = length (dbs s) \<and> load s' < load s \<and> dom (clients s') = dom (clients s) \<and> job_ret m s' = None \<and> job_pipe m s' = job_pipe m s - 1 \<and>
     (\<forall>m'. m' \<noteq> m \<longrightarrow> job_pipe m' s' = job_pipe m' s \<and> (same_job m' s s' \<or> job_all_null m' s \<and> job_ret m' s' = None))"

lemma pipe_handler_eq:
  assumes "job_key m s = Some k" and "job_ret m s = Some k" and "job_db m s \<noteq> -1"
  shows "\<exists>val r ttl. (m = SET_MODE \<longrightarrow> val = valToBackend (server_setJob s)) \<and>
    pipe_handler m s = clearFinishKey m (nat (job_db m s)) k val r ttl s \<bind> (\<lambda>s. Some (set_job_pipe m (job_pipe m s - 1) s))"
proof (cases m)
  case GET_MODE
  with assms show ?thesis
    by (intro exI [of _ "valFromBackend (server_getJob s)"] exI [of _ "0 :: int"])
      (simp add: pipe_handler_def getPipeMainThreadHandler_def Let_def)
next
  case SET_MODE
  with assms show ?thesis
    by (intro exI [of _ "valToBackend (server_setJob s)"] exI [of _ "setSyncResult (server_setJob s)"] exI [of _ "job_setTtl (server_setJob s)"])
      (simp add: pipe_handler_def setPipeMainThreadHandler_def Let_def)
next
  case DEL_MODE
  with assms show ?thesis
    by (intro exI [of _ "None :: sds option"] exI [of _ "delSyncResult (server_delJob s)"] exI [of _ "0 :: int"])
      (simp add: pipe_handler_def delPipeMainThreadHandler_def Let_def)
qed

lemma pipe_handler_spec:
  assumes inv: "srv_inv b None {} s" and k: "job_key m s = Some k" "job_ret m s = Some k"
  shows "ensures b (pipe_handler m s) (\<lambda>s'. srv_inv b None {} s' \<and> handled m s s')"
proof -
  have d: "job_db m s \<noteq> -1" and v: "m = SET_MODE \<Longrightarrow> valToBackend (server_setJob s) \<noteq> None"
    using srv_invD(5) [OF inv, of m] k by (auto simp: slot_ok_def)
  obtain val r ttl where h: "m = SET_MODE \<Longrightarrow> val = valToBackend (server_setJob s)"
    "pipe_handler m s = clearFinishKey m (nat (job_db m s)) k val r ttl s \<bind> (\<lambda>s. Some (set_job_pipe m (job_pipe m s - 1) s))"
    using pipe_handler_eq [OF k d] by blast
  show ?thesis
    unfolding h(2)
  proof (rule ensures_seq [OF clearFinishKey_spec [OF inv k]], goal_cases)
    case 1
    then show ?case using h(1) v by simp
  next
    case (2 s')
    then show ?case
      using same_conf_pipe [of s s'] same_conf_dbs [of s s'] by (auto simp: finished_def handled_def)
  qed
qed

end
