(* ===== verification/Backend_Sys.thy ===== *)
theory Backend_Sys
  imports Finish_Inv
begin

text \<open>
  The whole protocol: the main thread, three workers and the clients, as a system of events.

  The main thread runs its events one at a time; a worker takes a step between any two of them.
  That is no restriction: inside an event the main thread looks at a job in several locked
  sections, but a worker changes a job only from \<open>posted\<close> to \<open>returned\<close>, and every decision of an
  event that depends on the job comes out the same before and after that change, or reads the
  answer in one section.
\<close>

subsection \<open>Workers\<close>

text \<open>
  What the main thread relies on when it shares a slot with a worker: \<open>key\<close>, \<open>ret\<close> and \<open>sig\<close> are the
  two keys of the slot and the bytes in the pipe, \<open>valid\<close> that the slot is well-formed, and \<open>ready\<close> the
  program counters of a worker that has taken a key.
\<close>

locale handshake =
  fixes key ret :: "'s \<Rightarrow> sds option" and sig :: "'s \<Rightarrow> nat" and valid :: "'s \<Rightarrow> bool"
    and ready :: "sds \<Rightarrow> 's \<Rightarrow> wpc \<Rightarrow> bool" and step :: "wpc \<Rightarrow> 's \<Rightarrow> (wpc \<times> 's) option" and good :: bool
  assumes no_job: "key s = None \<or> ret s \<noteq> None \<Longrightarrow> step W_Idle s = Some (W_Idle, s)"
    and take_job: "key s = Some k \<Longrightarrow> ret s = None \<Longrightarrow> valid s \<Longrightarrow> step W_Idle s = Some (W_Key k, s)"
    and take_ready: "key s = Some k \<Longrightarrow> ready k s (W_Key k)"
    and work: "key s = Some k \<Longrightarrow> ret s = None \<Longrightarrow> valid s \<Longrightarrow> ready k s pc \<Longrightarrow>
      ensures good (step pc s) (\<lambda>(pc', s'). key s' = Some k \<and> sig s' = sig s \<and>
        (ret s' = Some k \<and> pc' = W_Done \<or> ret s' = None \<and> ready k s' pc' \<and> (\<exists>x y. pc = W_Key x \<and> pc' = W_Val x y)))"
    and signal: "\<exists>s'. step W_Done s = Some (W_Idle, s') \<and> key s' = key s \<and> ret s' = ret s \<and> sig s' = sig s + 1"
    and ready_pc: "ready k s pc \<Longrightarrow> pc \<noteq> W_Idle \<and> pc \<noteq> W_Done"
begin

definition in_step :: "wpc \<Rightarrow> 's \<Rightarrow> bool" where
  "in_step pc s \<longleftrightarrow>
     (case key s of
        None \<Rightarrow> ret s = None \<and> pc = W_Idle \<and> sig s = 0
      | Some k \<Rightarrow>
          if ret s = None then sig s = 0 \<and> (pc = W_Idle \<or> ready k s pc)
          else ret s = Some k \<and> (pc = W_Done \<and> sig s = 0 \<or> pc = W_Idle \<and> sig s = 1))"

text \<open>The steps of the worker that are left until the main thread has its signal.\<close>

definition todo :: "wpc \<Rightarrow> 's \<Rightarrow> nat" where
  "todo pc s =
     (if key s = None then 0
      else if ret s = None then (case pc of W_Idle \<Rightarrow> 5 | W_Key _ \<Rightarrow> 4 | W_Val _ _ \<Rightarrow> 3 | W_Done \<Rightarrow> 3)
      else if pc = W_Done then 2 else 1)"

text \<open>
  A worker in step stays in step.  It does nothing while there is no job or the main thread has
  its signal, and comes closer to the signal otherwise.
\<close>

lemma worker_in_step:
  assumes h: "in_step pc s" and v: "key s \<noteq> None \<Longrightarrow> valid s"
  shows "ensures good (step pc s) (\<lambda>(pc', s'). in_step pc' s' \<and> key s' = key s \<and>
    (if todo pc s \<le> 1 then pc' = pc \<and> s' = s else todo pc' s' < todo pc s))"
proof (cases "key s")
  case None
  then show ?thesis
    using h no_job [of s] by (simp add: in_step_def todo_def)
next
  case (Some k)
  show ?thesis
  proof (cases "ret s")
    case None
    have v: "valid s"
      using v Some by simp
    have big: "\<not> todo pc s \<le> 1"
      using Some None by (simp add: todo_def split: wpc.split)
    have "pc = W_Idle \<or> ready k s pc" "sig s = 0"
      using h Some None by (auto simp: in_step_def)
    then consider "pc = W_Idle" | (busy) "ready k s pc" by blast
    then show ?thesis
    proof cases
      case 1
      then show ?thesis
        using take_job [OF Some None v] take_ready [OF Some] Some None \<open>sig s = 0\<close> by (simp add: in_step_def todo_def)
    next
      case busy
      have "ensures good (step pc s) (\<lambda>(pc', s'). in_step pc' s' \<and> key s' = key s \<and> todo pc' s' < todo pc s)"
        using work [OF Some None v busy] Some None \<open>sig s = 0\<close> ready_pc [OF busy]
        by (elim ensures_mono) (auto simp: in_step_def todo_def split: wpc.splits)
      with big show ?thesis by simp
    qed
  next
    case (Some k')
    then have "k' = k" and "pc = W_Done \<and> sig s = 0 \<or> pc = W_Idle \<and> sig s = 1"
      using h \<open>key s = Some k\<close> by (auto simp: in_step_def)
    then show ?thesis
      using Some \<open>key s = Some k\<close> no_job [of s] signal [of s] by (auto simp: in_step_def todo_def)
  qed
qed

text \<open>The main thread posts a job in an empty slot, or empties the slot after the signal.\<close>

lemma main_post:
  assumes "in_step pc s" and "key s = None" and "ret s' = None" and "sig s' = sig s"
  shows "in_step pc s'"
  using assms by (auto simp: in_step_def split: option.splits)

lemma main_finish:
  assumes "in_step pc s" and "sig s > 0" and "ret s' = None" and "sig s' = sig s - 1"
  shows "in_step pc s'" and "\<exists>k. key s = Some k \<and> ret s = Some k"
  using assms by (auto simp: in_step_def split: option.splits if_splits)

lemma main_other:
  assumes "in_step pc s" and "key s' = key s" and "ret s' = ret s" and "sig s' = sig s" and "\<And>k. ready k s pc \<Longrightarrow> ready k s' pc"
  shows "in_step pc s'" and "todo pc s' = todo pc s"
  using assms by (auto simp: in_step_def todo_def split: option.splits)

lemma todo_le: "todo pc s \<le> 5"
  by (simp add: todo_def split: wpc.split)

lemma todo_zero: "todo pc s = 0 \<longleftrightarrow> key s = None"
  by (simp add: todo_def split: wpc.split)

lemma todo_one: "in_step pc s \<Longrightarrow> todo pc s = 1 \<longleftrightarrow> sig s > 0"
  by (auto simp: todo_def in_step_def split: wpc.splits option.splits if_splits)

end

text \<open>
  The answers of the backend after which a worker goes on: the value that a read returns is not
  the empty string.
\<close>

definition nonempty_lib :: "backend_lib \<Rightarrow> bool" where
  "nonempty_lib lib \<longleftrightarrow> (\<forall>st ks. soci_exec lib st ks \<noteq> Soci_row (I_ok [])) \<and> (\<forall>c k t. grpc_call lib c k \<noteq> Some ([], t))"

definition slot_valid :: "mode \<Rightarrow> server \<Rightarrow> bool" where
  "slot_valid m s \<longleftrightarrow> 0 \<le> job_db m s \<and> job_db m s < int (length (dbs s)) \<and> (m = SET_MODE \<longrightarrow> valToBackend (server_setJob s) \<noteq> None)"

definition worker_ready :: "mode \<Rightarrow> sds \<Rightarrow> server \<Rightarrow> wpc \<Rightarrow> bool" where
  "worker_ready m k s pc \<longleftrightarrow> pc = W_Key k \<or> m = SET_MODE \<and> (\<exists>v. pc = W_Val k v \<and> valToBackend (server_setJob s) = Some v)"

lemma implementGetJob_nonempty: "nonempty_lib lib \<Longrightarrow> \<exists>val. implementGetJob lib s key = Some val"
  by (auto simp: implementGetJob_def nonempty_lib_def db_get_def grpc_get_def grpc_GetString_def Let_def
      split: option.splits soci_result.splits indicator.splits)

lemma getJobInWorkingThread_eq:
  "getJobInWorkingThread m s = (if job_ret m s = None then map_option (\<lambda>k. (job_db m s, k)) (job_key m s) else None)"
  by (cases m) (simp_all add: getJobInWorkingThread_def)

interpretation slot: handshake "job_key m" "job_ret m" "job_pipe m" "slot_valid m" "worker_ready m" "worker_step m lib" "nonempty_lib lib"
  for m lib
proof unfold_locales
  fix s k pc
  show "worker_step m lib W_Idle s = Some (W_Idle, s)" if "job_key m s = None \<or> job_ret m s \<noteq> None"
    using that by (auto simp: worker_step_def getJobInWorkingThread_eq)
  show "worker_step m lib W_Idle s = Some (W_Key k, s)" if "job_key m s = Some k" "job_ret m s = None" "slot_valid m s"
    using that by (simp add: worker_step_def getJobInWorkingThread_eq slot_valid_def)
  show "worker_ready m k s (W_Key k)"
    by (simp add: worker_ready_def)
  show "\<exists>s'. worker_step m lib W_Done s = Some (W_Idle, s') \<and> job_key m s' = job_key m s \<and> job_ret m s' = job_ret m s \<and>
      job_pipe m s' = job_pipe m s + 1"
    by (cases m) (simp_all add: worker_step_def signal_main_def)
  show "pc \<noteq> W_Idle \<and> pc \<noteq> W_Done" if "worker_ready m k s pc"
    using that by (auto simp: worker_ready_def)
  show "ensures (nonempty_lib lib) (worker_step m lib pc s) (\<lambda>(pc', s'). job_key m s' = Some k \<and> job_pipe m s' = job_pipe m s \<and>
      (job_ret m s' = Some k \<and> pc' = W_Done \<or> job_ret m s' = None \<and> worker_ready m k s' pc' \<and> (\<exists>x y. pc = W_Key x \<and> pc' = W_Val x y)))"
    if h: "job_key m s = Some k" "job_ret m s = None" "slot_valid m s" "worker_ready m k s pc"
  proof (cases m)
    case GET_MODE
    then have pc: "pc = W_Key k"
      using h(4) by (simp add: worker_ready_def)
    show ?thesis
    proof (cases "implementGetJob lib s k")
      case None
      then show ?thesis
        using GET_MODE pc implementGetJob_nonempty [of lib s k] by (auto simp: worker_step_def)
    next
      case (Some val)
      then show ?thesis
        using GET_MODE pc h by (simp add: worker_step_def return_get_def)
    qed
  next
    case SET_MODE
    then show ?thesis
      using h by (auto simp: worker_ready_def worker_step_def return_set_def slot_valid_def)
  next
    case DEL_MODE
    then have "pc = W_Key k"
      using h(4) by (simp add: worker_ready_def)
    then show ?thesis
      using h DEL_MODE by (simp add: worker_step_def return_del_def)
  qed
qed

subsection \<open>Events\<close>

text \<open>
  The state of the system: the server, and where each worker is.  The clients connect, send
  commands and go away; time passes; the configuration changes; a worker takes a step, in which
  the backend may answer in any way; and the main thread reads a byte from a pipe.
\<close>

record sys =
  srv :: server
  pcs :: "mode \<Rightarrow> wpc"

record redisoo_conf =
  conf_db :: sds
  conf_connection :: sds
  conf_get :: sds
  conf_set :: sds
  conf_del :: sds
  conf_get_sync :: bool
  conf_set_sync :: bool
  conf_del_sync :: bool
  conf_get_ttl :: int

definition apply_conf :: "redisoo_conf \<Rightarrow> server \<Rightarrow> server" where
  "apply_conf f s = s\<lparr>redisoo_db_type := parseDbType (conf_db f), redisoo_connection := conf_connection f, redisoo_get := conf_get f,
     redisoo_set := conf_set f, redisoo_del := conf_del f, redisoo_get_sync := conf_get_sync f, redisoo_set_sync := conf_set_sync f,
     redisoo_del_sync := conf_del_sync f, redisoo_get_ttl := conf_get_ttl f\<rparr>"

datatype event =
    Connect cid | Input cid "sds list list" | Disconnect cid | Tick int | Config redisoo_conf
  | Work mode backend_lib | Deliver mode

text \<open>
  When an event can happen.  The bound on the work at hand stands for the memory of the
  machine: a key that waits and a command in a buffer take more than one byte each.
\<close>

fun enabled :: "event \<Rightarrow> sys \<Rightarrow> bool" where
  "enabled (Connect cid) st \<longleftrightarrow> clients (srv st) cid = None"
| "enabled (Input cid cmds) st \<longleftrightarrow> clients (srv st) cid \<noteq> None \<and> load (srv st) + length cmds < 2 ^ 62"
| "enabled (Disconnect cid) st \<longleftrightarrow> clients (srv st) cid \<noteq> None"
| "enabled (Tick t) st \<longleftrightarrow> mstime (srv st) \<le> t"
| "enabled (Config f) st \<longleftrightarrow> isValidRedisooDb (conf_db f)"
| "enabled (Work m lib) st \<longleftrightarrow> True"
| "enabled (Deliver m) st \<longleftrightarrow> job_pipe m (srv st) > 0"

fun run :: "event \<Rightarrow> sys \<Rightarrow> sys option" where
  "run (Connect cid) st = Some (st\<lparr>srv := createClient cid (srv st)\<rparr>)"
| "run (Input cid cmds) st = map_option (\<lambda>s. st\<lparr>srv := s\<rparr>) (readQueryFromClient cid cmds (srv st))"
| "run (Disconnect cid) st = Some (st\<lparr>srv := freeClient cid (srv st)\<rparr>)"
| "run (Tick t) st = Some (st\<lparr>srv := (srv st)\<lparr>mstime := t\<rparr>\<rparr>)"
| "run (Config f) st = Some (st\<lparr>srv := apply_conf f (srv st)\<rparr>)"
| "run (Work m lib) st = map_option (\<lambda>(pc, s). st\<lparr>srv := s, pcs := (pcs st)(m := pc)\<rparr>) (worker_step m lib (pcs st m) (srv st))"
| "run (Deliver m) st = map_option (\<lambda>s. st\<lparr>srv := s\<rparr>) (pipe_handler m (srv st))"

text \<open>
  The events under which the process does not abort: no SETRANGE with an offset that overflows,
  no statement for SET, and no empty value from the backend.
\<close>

fun safe_event :: "event \<Rightarrow> bool" where
  "safe_event (Input cid cmds) \<longleftrightarrow> (\<forall>av \<in> set cmds. safe_input av)"
| "safe_event (Config f) \<longleftrightarrow> conf_set f = []"
| "safe_event (Work m lib) \<longleftrightarrow> nonempty_lib lib"
| "safe_event _ \<longleftrightarrow> True"

definition init_db :: "(sds \<Rightarrow> u64) \<Rightarrow> redisDb" where
  "init_db hf = \<lparr>db_dict = Map.empty, db_expires = Map.empty, backendGetKeys = dictCreate hf, backendSetKeys = dictCreate hf,
     backendDelKeys = dictCreate hf\<rparr>"

definition init_server :: "(sds \<Rightarrow> u64) \<Rightarrow> nat \<Rightarrow> int \<Rightarrow> server" where
  "init_server hf n t = initBackendZeroJobs
     \<lparr>dbs = replicate n (init_db hf), clients = Map.empty,
      server_getJob = \<lparr>get_dbid = 0, getKey = None, returnGetKey = None, valFromBackend = None\<rparr>,
      server_setJob = \<lparr>set_dbid = 0, setKey_job = None, returnSetKey = None, valToBackend = None, setSyncResult = 0, job_setTtl = 0\<rparr>,
      server_delJob = \<lparr>del_dbid = 0, delKey = None, returnDelKey = None, delSyncResult = 0\<rparr>,
      get_pipe = 0, set_pipe = 0, del_pipe = 0, redisoo_db_type = parseDbType [], redisoo_connection = [],
      redisoo_get = [], redisoo_set = [], redisoo_del = [], redisoo_get_sync = False, redisoo_set_sync = False,
      redisoo_del_sync = False, redisoo_get_ttl = 0, dirty = 0, mstime = t, dict_can_resize = True,
      lazy_expire = False, lazy_user_del = False, lazy_server_del = False\<rparr>"

definition init_sys :: "(sds \<Rightarrow> u64) \<Rightarrow> nat \<Rightarrow> int \<Rightarrow> sys" where
  "init_sys hf n t = \<lparr>srv = init_server hf n t, pcs = (\<lambda>_. W_Idle)\<rparr>"

text \<open>The states that the system can get to; with \<open>b\<close>, by safe events.\<close>

inductive reachable :: "bool \<Rightarrow> sys \<Rightarrow> bool" for b where
  init: "0 < n \<Longrightarrow> reachable b (init_sys hf n t)"
| step: "reachable b st \<Longrightarrow> enabled e st \<Longrightarrow> (b \<longrightarrow> safe_event e) \<Longrightarrow> run e st = Some st' \<Longrightarrow> reachable b st'"

definition sys_inv :: "bool \<Rightarrow> sys \<Rightarrow> bool" where
  "sys_inv b st \<longleftrightarrow> srv_inv b None {} (srv st) \<and> (\<forall>m. slot.in_step m (pcs st m) (srv st))"

subsection \<open>Clients come and go\<close>

lemma dict_map_values_spec:
  assumes inv: "dict_inv d"
  shows "dict_inv (dict_map_values f d)" and "dict_map (dict_map_values f d) = (\<lambda>k. map_option f (dict_map d k))"
proof -
  let ?d = "d\<lparr>ht0 := (ht0 d)\<lparr>table := map (map (apsnd f)) (table (ht0 d))\<rparr>,
             ht1 := (ht1 d)\<lparr>table := map (map (apsnd f)) (table (ht1 d))\<rparr>\<rparr>"
  have e: "dict_entries ?d = map (apsnd f) (dict_entries d)"
    by (simp add: dict_entries_def map_concat)
  have ht: "ht_ok hf (ht\<lparr>table := map (map (apsnd f)) (table ht)\<rparr>)" if "ht_ok hf ht" for hf and ht :: "('a, 'b) dictht"
    using that by (auto simp: ht_ok_def bucket_index_def map_concat [symmetric]) (metis fst_conv)
  have "(dictReset :: ('a, 'b) dictht)\<lparr>table := map (map (apsnd f)) (table (dictReset :: ('a, 'b) dictht))\<rparr> = dictReset"
    by (simp add: dictReset_def)
  moreover have "map fst (dict_entries ?d) = map fst (dict_entries d)"
    by (simp add: e comp_def)
  ultimately have i: "dict_inv ?d"
    using inv ht by (auto simp: dict_inv_def)
  have m: "dict_map ?d = (\<lambda>k. map_option f (dict_map d k))"
    unfolding dict_map_def e by (simp add: apsnd_def map_prod_def map_of_map comp_def fun_eq_iff)
  have z: "dict_map d = Map.empty" if "dictSize d = 0"
    using that dictSize_zero [OF inv] by simp
  show "dict_inv (dict_map_values f d)" "dict_map (dict_map_values f d) = (\<lambda>k. map_option f (dict_map d k))"
    using i m inv z by (auto simp: dict_map_values_def fun_eq_iff)
qed

lemma release_waiting:
  assumes "all_dicts_ok s" and "i < length (dbs s)"
  shows "waiting m (dbs (releaseWhenFreeClient cid s) ! i) = (\<lambda>k. map_option (removeAll cid) (waiting m (dbs s ! i) k))"
    and "pending_value (dbs (releaseWhenFreeClient cid s) ! i) = pending_value (dbs s ! i)"
    and "dicts_ok (dbs (releaseWhenFreeClient cid s) ! i)"
    and "db_dict (dbs (releaseWhenFreeClient cid s) ! i) = db_dict (dbs s ! i)"
    and "db_expires (dbs (releaseWhenFreeClient cid s) ! i) = db_expires (dbs s ! i)"
proof -
  have d: "dict_inv (backendGetKeys (dbs s ! i))" "dict_inv (backendSetKeys (dbs s ! i))" "dict_inv (backendDelKeys (dbs s ! i))"
    using assms by (simp_all add: all_dicts_ok_def dicts_ok_def)
  note v = dict_map_values_spec [OF d(1)] dict_map_values_spec [OF d(2)] dict_map_values_spec [OF d(3)]
  show "waiting m (dbs (releaseWhenFreeClient cid s) ! i) = (\<lambda>k. map_option (removeAll cid) (waiting m (dbs s ! i) k))"
    using assms(2) by (cases m) (simp_all add: releaseWhenFreeClient_def v option.map_comp comp_def)
  show "pending_value (dbs (releaseWhenFreeClient cid s) ! i) = pending_value (dbs s ! i)"
    using assms(2) by (simp add: releaseWhenFreeClient_def v pending_value_def fun_eq_iff option.map_comp comp_def)
  show "dicts_ok (dbs (releaseWhenFreeClient cid s) ! i)"
    "db_dict (dbs (releaseWhenFreeClient cid s) ! i) = db_dict (dbs s ! i)"
    "db_expires (dbs (releaseWhenFreeClient cid s) ! i) = db_expires (dbs s ! i)"
    using assms(2) by (simp_all add: releaseWhenFreeClient_def v dicts_ok_def)
qed

lemma freeClient_sel [simp]:
  "length (dbs (freeClient cid s)) = length (dbs s)" "dbs (freeClient cid s) = dbs (releaseWhenFreeClient cid s)"
  "clients (freeClient cid s) = (clients s)(cid := None)" "same_job m s' (freeClient cid s) = same_job m s' s"
  "job_pipe m (freeClient cid s) = job_pipe m s" "redisoo_set (freeClient cid s) = redisoo_set s"
  by (cases m; simp add: freeClient_def releaseWhenFreeClient_def)+

lemma freeClient_inv:
  assumes inv: "srv_inv b None {} s" and c: "clients s cid = Some c"
  shows "srv_inv b None {} (freeClient cid s)"
proof -
  let ?s = "freeClient cid s"
  note w = release_waiting [OF srv_invD(2) [OF inv], where cid = cid]
  have n: "length (dbs ?s) = length (dbs s)" "length (dbs (releaseWhenFreeClient cid s)) = length (dbs s)"
    by (simp_all add: releaseWhenFreeClient_def)
  have "slot_ok None m ?s" for m
  proof -
    have j: "same_job m s ?s" by simp
    have "\<forall>k. job_key m s = Some k \<longrightarrow> nat (job_db m s) < length (dbs s)"
      using srv_invD(5) [OF inv, of m] by (auto simp: slot_ok_def)
    then show ?thesis
      using srv_invD(5) [OF inv, of m] unfolding slot_ok_def same_job_sel(1-4) [OF j] n
      by (auto simp: w n same_job_sel(5) [OF j] simp del: waiting.simps job_key.simps job_ret.simps job_db.simps)
  qed
  moreover have "waits_ok {} ?s"
  proof -
    note u = waits_okD [OF srv_invD(6) [OF inv]]
    have "c_db y < length (dbs s)" if "clients s x = Some y" for x y
      using srv_invD(3) [OF inv that] by (simp add: client_ok_def)
    then have "\<exists>cs. waiting m (dbs ?s ! c_db y) (c_argv y ! 1) = Some cs \<and> x \<in> set cs"
      if "clients ?s x = Some y" "backend_state y = mode_state m" for x y m
      using u(3) [of x y m] that by (auto simp: w split: if_splits)
    moreover have "distinct cs \<and> (\<forall>x \<in> set cs. \<exists>y. clients ?s x = Some y \<and> backend_state y = mode_state m \<and> c_db y = i \<and> c_argv y ! 1 = k)"
      if i: "i < length (dbs s)" and cs: "waiting m (dbs ?s ! i) k = Some cs" for m i k cs
    proof -
      obtain cs0 where cs0: "waiting m (dbs s ! i) k = Some cs0" "cs = removeAll cid cs0"
        using cs i by (auto simp: w)
      show ?thesis
        using u(1) [OF i cs0(1)] u(2) [OF i cs0(1)] by (auto simp: cs0(2) distinct_removeAll)
    qed
    ultimately show ?thesis
      unfolding waits_ok_def n by blast
  qed
  moreover have "load ?s \<le> load s"
  proof -
    have "keys_load (dbs ?s ! i) = keys_load (dbs s ! i)" if "i < length (dbs s)" for i
      using that by (simp add: keys_load_def w dom_def del: waiting.simps)
    moreover have "input_load ?s \<le> input_load s"
    proof -
      have "input_load ?s = (\<Sum>x \<in> dom (clients s) - {cid}. length (querybuf (the (clients s x))))"
        unfolding input_load_def freeClient_sel dom_fun_upd by (rule sum.cong) auto
      also have "\<dots> \<le> input_load s"
        unfolding input_load_def using srv_invD(4) [OF inv] by (intro sum_mono2) auto
      finally show ?thesis .
    qed
    ultimately show ?thesis
      by (simp add: load_def n)
  qed
  moreover have "dbs_ok ?s" "all_dicts_ok ?s"
    using srv_invD(1) [OF inv] by (simp_all add: dbs_ok_def all_dicts_ok_def n w db_ok_def)
  ultimately show ?thesis
    using inv unfolding srv_inv_def n by (auto simp: n split: if_splits)
qed

lemma createClient_inv:
  assumes inv: "srv_inv b None {} s" and c: "clients s cid = None" and n: "0 < length (dbs s)"
  shows "srv_inv b None {} (createClient cid s)"
proof -
  let ?s = "createClient cid s"
  obtain c' where cl: "clients ?s = (clients s)(cid \<mapsto> c')" "backend_state c' = CLIENT_BACKEND_NORMAL" "querybuf c' = []"
    "client_ok b (length (dbs s)) c'"
    using n by (simp add: createClient_def client_ok_def)
  have d: "dbs ?s = dbs s" "redisoo_set ?s = redisoo_set s" "same_job m s ?s" for m
    by (cases m; simp add: createClient_def)+
  have "input_load ?s = input_load s"
  proof -
    have "(\<Sum>x \<in> dom (clients s). length (querybuf (the (clients ?s x)))) = input_load s"
      unfolding input_load_def by (rule sum.cong) (use c cl(1) in auto)
    then show ?thesis
      using srv_invD(4) [OF inv] c cl by (simp add: input_load_def [of ?s] insert_absorb domIff)
  qed
  then have l: "load ?s = load s"
    by (simp add: load_def d)
  have "slot_ok None m ?s" for m
    by (rule slot_ok_cong [OF d(3) _ _ srv_invD(5) [OF inv]]) (simp_all add: d)
  moreover have "waits_ok {} ?s"
    using waits_okD [OF srv_invD(6) [OF inv]] c cl(1,2) unfolding waits_ok_def d by (auto split: if_splits) (metis option.distinct(1))
  ultimately show ?thesis
    using inv cl l by (auto simp: srv_inv_def dbs_ok_def all_dicts_ok_def d)
qed


subsection \<open>Every event keeps the invariant\<close>

lemma in_step_cong:
  assumes "slot.in_step m pc s" and "same_job m s s'" and "job_pipe m s' = job_pipe m s"
  shows "slot.in_step m pc s'" and "slot.todo m pc s' = slot.todo m pc s"
proof -
  have "worker_ready m k s pc \<Longrightarrow> worker_ready m k s' pc" for k
    using same_job_sel(5) [OF assms(2)] by (auto simp: worker_ready_def)
  then show "slot.in_step m pc s'" "slot.todo m pc s' = slot.todo m pc s"
    using slot.main_other [OF assms(1) same_job_sel(1,2) [OF assms(2)] assms(3)] by simp_all
qed

text \<open>A slot that the main thread may have filled is in step as well.\<close>

lemma in_step_main:
  assumes "slot.in_step m pc s" and "same_job m s s' \<or> job_all_null m s \<and> job_ret m s' = None" and "job_pipe m s' = job_pipe m s"
  shows "slot.in_step m pc s'"
  using assms(2)
proof
  assume "same_job m s s'"
  then show ?thesis using in_step_cong(1) [OF assms(1) _ assms(3)] by simp
next
  assume "job_all_null m s \<and> job_ret m s' = None"
  then show ?thesis
    using slot.main_post [OF assms(1) _ _ assms(3)] by (simp add: job_all_null_iff)
qed

lemma input_inv:
  assumes inv: "srv_inv b None {} s" and c: "clients s cid = Some c" and l: "load s + length cmds < 2 ^ 62"
    and safe: "b \<longrightarrow> (\<forall>av \<in> set cmds. safe_input av)"
  shows "srv_inv b None {} (update_client cid (\<lambda>c. c\<lparr>querybuf := querybuf c @ cmds\<rparr>) s)" (is "srv_inv b None {} ?s")
proof -
  let ?c = "c\<lparr>querybuf := querybuf c @ cmds\<rparr>"
  have cl: "clients ?s = (clients s)(cid \<mapsto> ?c)"
    using c by simp
  have "load ?s = load s + length cmds"
    using load_same [OF _ _ srv_invD(4) [OF inv] c(1) cl] by simp
  moreover have "slot_ok None m ?s" for m
    by (rule slot_ok_cong [OF _ _ _ srv_invD(5) [OF inv]]) simp_all
  moreover have "waits_ok {} ?s"
  proof -
    note u = waits_okD [OF srv_invD(6) [OF inv]]
    have "\<exists>y. clients ?s x = Some y \<and> backend_state y = mode_state m \<and> c_db y = i \<and> c_argv y ! 1 = k"
      if "i < length (dbs s)" "waiting m (dbs s ! i) k = Some cs" "x \<in> set cs" for x m i k cs
      using u(2) [OF that] c by auto
    moreover have "\<exists>cs. waiting m (dbs s ! c_db y) (c_argv y ! 1) = Some cs \<and> x \<in> set cs"
      if "clients ?s x = Some y" "backend_state y = mode_state m" for x y m
      using u(3) [of x] c that by (auto split: if_splits)
    ultimately show ?thesis
      using u(1) unfolding waits_ok_def by simp
  qed
  moreover have "client_ok b (length (dbs s)) ?c"
    using srv_invD(3) [OF inv c(1)] safe by (auto simp: client_ok_def)
  ultimately show ?thesis
    using inv c l by (auto simp: srv_inv_def all_dicts_ok_def dbs_ok_def)
qed

text \<open>A step of a worker changes the job and the pipe of its own mode only, and of the job only the answer.\<close>

lemma worker_cases:
  assumes "worker_step m lib pc s = Some (pc', s')" and "\<forall>k v. pc = W_Val k v \<longrightarrow> m = SET_MODE"
  shows "s' = s \<or> s' = set_job_pipe m (job_pipe m s + 1) s \<or>
    m = GET_MODE \<and> (\<exists>k v. s' = s\<lparr>server_getJob := (server_getJob s)\<lparr>returnGetKey := k, valFromBackend := v\<rparr>\<rparr>) \<or>
    m = SET_MODE \<and> (\<exists>k v. s' = s\<lparr>server_setJob := (server_setJob s)\<lparr>returnSetKey := k, setSyncResult := v\<rparr>\<rparr>) \<or>
    m = DEL_MODE \<and> (\<exists>k v. s' = s\<lparr>server_delJob := (server_delJob s)\<lparr>returnDelKey := k, delSyncResult := v\<rparr>\<rparr>)"
proof (cases pc)
  case W_Idle
  then show ?thesis
    using assms by (auto simp: worker_step_def split: option.splits if_splits)
next
  case (W_Key k)
  then show ?thesis
    using assms by (cases m) (auto simp: worker_step_def return_get_def return_del_def Let_def bind_eq_Some_conv split: if_splits)
next
  case (W_Val k v)
  then show ?thesis
    using assms by (auto simp: worker_step_def return_set_def Let_def bind_eq_Some_conv split: if_splits)
next
  case W_Done
  then show ?thesis
    using assms by (cases m) (auto simp: worker_step_def signal_main_def)
qed

lemma worker_frame:
  assumes "worker_step m lib pc s = Some (pc', s')" and "slot.in_step m pc s"
  shows "dbs s' = dbs s" and "clients s' = clients s" and "redisoo_set s' = redisoo_set s"
    and "m' \<noteq> m \<Longrightarrow> same_job m' s s' \<and> job_pipe m' s' = job_pipe m' s"
    and "job_db m s' = job_db m s" and "valToBackend (server_setJob s') = valToBackend (server_setJob s)"
proof -
  have "\<forall>k v. pc = W_Val k v \<longrightarrow> m = SET_MODE"
    using assms(2) by (auto simp: slot.in_step_def worker_ready_def split: option.splits if_splits)
  note c = worker_cases [OF assms(1) this]
  show "dbs s' = dbs s" "clients s' = clients s" "redisoo_set s' = redisoo_set s"
    "valToBackend (server_setJob s') = valToBackend (server_setJob s)" "job_db m s' = job_db m s"
    using c by (cases m; auto)+
  show "same_job m' s s' \<and> job_pipe m' s' = job_pipe m' s" if "m' \<noteq> m"
    using c that by (cases m; cases m'; auto)
qed

lemma worker_inv:
  assumes inv: "sys_inv b st" and good: "b \<longrightarrow> nonempty_lib lib"
  shows "ensures b (run (Work m lib) st) (\<lambda>st'. sys_inv b st' \<and> load (srv st') = load (srv st) \<and> clients (srv st') = clients (srv st) \<and>
    (if slot.todo m (pcs st m) (srv st) \<le> 1 then st' = st
     else slot.todo m (pcs st' m) (srv st') < slot.todo m (pcs st m) (srv st)) \<and>
    (\<forall>m'. m' \<noteq> m \<longrightarrow> slot.todo m' (pcs st' m') (srv st') = slot.todo m' (pcs st m') (srv st)))"
proof -
  let ?s = "srv st" and ?pc = "pcs st m"
  have i: "srv_inv b None {} ?s" and h: "slot.in_step m' (pcs st m') ?s" for m'
    using inv by (simp_all add: sys_inv_def)
  have v: "slot_valid m ?s" if "job_key m ?s \<noteq> None"
    using srv_invD(5) [OF i, of m] that by (auto simp: slot_ok_def slot_valid_def)
  show ?thesis
  proof (cases "worker_step m lib ?pc ?s")
    case None
    then have "\<not> nonempty_lib lib"
      using slot.worker_in_step [OF h v, of lib] by simp
    with None good show ?thesis by auto
  next
    case (Some x)
    obtain pc' s' where x: "x = (pc', s')" by (cases x)
    note f = worker_frame [OF Some [unfolded x] h]
    have w: "slot.in_step m pc' s'" "job_key m s' = job_key m ?s"
      "if slot.todo m ?pc ?s \<le> 1 then pc' = ?pc \<and> s' = ?s else slot.todo m pc' s' < slot.todo m ?pc ?s"
      using slot.worker_in_step [OF h v, of lib] Some by (simp_all add: x)
    have l: "load s' = load ?s"
      by (rule load_clients) (simp_all add: f(1,2))
    have "slot_ok None m' s'" for m'
    proof (cases "m' = m")
      case True
      have r: "job_ret m s' = None \<or> job_ret m s' = job_key m ?s" "job_key m ?s = None \<longrightarrow> job_ret m s' = None"
        using w(1) unfolding w(2) [symmetric] by (auto simp: slot.in_step_def split: option.splits if_splits)
      show ?thesis
        using srv_invD(5) [OF i, of m] r unfolding True slot_ok_def job_all_null_iff w(2) f(1,5,6)
        by (cases "job_key m ?s") (simp_all del: job_key.simps job_ret.simps job_db.simps waiting.simps, metis)
    next
      case False
      then show ?thesis
        using f(1,4) by (intro slot_ok_cong [OF _ _ _ srv_invD(5) [OF i]]) simp_all
    qed
    moreover have "waits_ok {} s'"
      using srv_invD(6) [OF i] by (simp add: waits_ok_def f(1,2))
    ultimately have "srv_inv b None {} s'"
      using i by (simp add: srv_inv_def f l dbs_ok_def all_dicts_ok_def)
    moreover have "slot.in_step m' (pcs st m') s'" "slot.todo m' (pcs st m') s' = slot.todo m' (pcs st m') ?s" if "m' \<noteq> m" for m'
      using in_step_cong [OF h conjunct1 [OF f(4) [OF that]] conjunct2 [OF f(4) [OF that]]] by blast+
    moreover have "st\<lparr>srv := s', pcs := (pcs st)(m := pc')\<rparr> = st" if "pc' = ?pc \<and> s' = ?s"
      using that by simp
    ultimately show ?thesis
      using w l f(2) h by (simp add: sys_inv_def Some x)
  qed
qed

text \<open>What is left to do in all: the work at hand, and for every slot the steps to the next answer.\<close>

definition sys_todo :: "sys \<Rightarrow> nat" where
  "sys_todo st = 16 * load (srv st) + slot.todo GET_MODE (pcs st GET_MODE) (srv st) +
     slot.todo SET_MODE (pcs st SET_MODE) (srv st) + slot.todo DEL_MODE (pcs st DEL_MODE) (srv st)"

lemma deliver_inv:
  assumes inv: "sys_inv b st" and p: "job_pipe m (srv st) > 0"
  shows "ensures b (run (Deliver m) st) (\<lambda>st'. sys_inv b st' \<and> sys_todo st' < sys_todo st \<and> dom (clients (srv st')) = dom (clients (srv st)) \<and>
    length (dbs (srv st')) = length (dbs (srv st)))"
proof -
  let ?s = "srv st"
  have i: "srv_inv b None {} ?s" and h: "slot.in_step m' (pcs st m') ?s" for m'
    using inv by (simp_all add: sys_inv_def)
  obtain k where k: "job_key m ?s = Some k" "job_ret m ?s = Some k"
    using h [of m] p by (auto simp: slot.in_step_def split: option.splits if_splits)
  have "ensures b (pipe_handler m ?s) (\<lambda>s'. sys_inv b (st\<lparr>srv := s'\<rparr>) \<and> sys_todo (st\<lparr>srv := s'\<rparr>) < sys_todo st \<and> dom (clients s') = dom (clients ?s) \<and>
      length (dbs s') = length (dbs ?s))"
  proof (rule ensures_mono [OF pipe_handler_spec [OF i k]])
    fix s'
    assume s': "srv_inv b None {} s' \<and> handled m ?s s'"
    have "slot.in_step m' (pcs st m') s'" for m'
    proof (cases "m' = m")
      case True
      then show ?thesis
        using slot.main_finish(1) [OF h p] s' by (simp add: handled_def)
    next
      case False
      then show ?thesis
        using in_step_main [OF h] s' by (simp add: handled_def)
    qed
    moreover have "sys_todo (st\<lparr>srv := s'\<rparr>) < sys_todo st"
      using s' slot.todo_le [of GET_MODE "pcs st GET_MODE" s'] slot.todo_le [of SET_MODE "pcs st SET_MODE" s']
        slot.todo_le [of DEL_MODE "pcs st DEL_MODE" s']
      by (simp add: sys_todo_def handled_def)
    ultimately show "sys_inv b (st\<lparr>srv := s'\<rparr>) \<and> sys_todo (st\<lparr>srv := s'\<rparr>) < sys_todo st \<and> dom (clients s') = dom (clients ?s) \<and>
      length (dbs s') = length (dbs ?s)"
      using s' by (simp add: sys_inv_def handled_def)
  qed
  then show ?thesis
    by (cases "pipe_handler m ?s") simp_all
qed

lemma run_inv:
  assumes inv: "sys_inv b st" and n: "0 < length (dbs (srv st))" and e: "enabled e st" and safe: "b \<longrightarrow> safe_event e"
  shows "ensures b (run e st) (\<lambda>st'. sys_inv b st' \<and> 0 < length (dbs (srv st')))"
proof -
  let ?s = "srv st"
  have i: "srv_inv b None {} ?s" and h: "slot.in_step m (pcs st m) ?s" for m
    using inv by (simp_all add: sys_inv_def)
  show ?thesis
  proof (cases e)
    case (Connect cid)
    have "same_job m ?s (createClient cid ?s)" "job_pipe m (createClient cid ?s) = job_pipe m ?s" for m
      by (cases m; simp add: createClient_def)+
    then show ?thesis
      using createClient_inv [OF i _ n, of cid] e in_step_cong(1) [OF h] n Connect
      by (simp add: sys_inv_def) (simp add: createClient_def)
  next
    case (Disconnect cid)
    then show ?thesis
      using freeClient_inv [OF i, of cid] e in_step_cong(1) [OF h] n by (auto simp: sys_inv_def releaseWhenFreeClient_def)
  next
    case (Tick t)
    have "same_job m ?s (?s\<lparr>mstime := t\<rparr>)" "job_pipe m (?s\<lparr>mstime := t\<rparr>) = job_pipe m ?s" for m
      by (cases m; simp)+
    then show ?thesis
      using srv_inv_cong(1) [of "?s\<lparr>mstime := t\<rparr>" ?s b None "{}"] i in_step_cong(1) [OF h] n Tick by (simp add: sys_inv_def same_jobs_def)
  next
    case (Config f)
    have j: "same_job m ?s (apply_conf f ?s)" "job_pipe m (apply_conf f ?s) = job_pipe m ?s" for m
      by (cases m; simp add: apply_conf_def)+
    have "srv_inv b None {} (apply_conf f ?s)"
    proof -
      have d: "dbs (apply_conf f ?s) = dbs ?s" "clients (apply_conf f ?s) = clients ?s" "redisoo_set (apply_conf f ?s) = conf_set f"
        by (simp_all add: apply_conf_def)
      have "load (apply_conf f ?s) = load ?s"
        by (simp add: load_def input_load_def d)
      moreover have "slot_ok None m (apply_conf f ?s)" for m
        by (rule slot_ok_cong [OF j(1) _ _ srv_invD(5) [OF i]]) (simp_all add: d)
      ultimately show ?thesis
        using i safe Config unfolding srv_inv_def dbs_ok_def all_dicts_ok_def waits_ok_def d by auto
    qed
    then show ?thesis
      using in_step_cong(1) [OF h j] n Config by (simp add: sys_inv_def) (simp add: apply_conf_def)
  next
    case (Input cid cmds)
    obtain c where c: "clients ?s cid = Some c"
      using e Input by auto
    let ?s1 = "update_client cid (\<lambda>c. c\<lparr>querybuf := querybuf c @ cmds\<rparr>) ?s"
    have i1: "srv_inv b None {} ?s1"
      using input_inv [OF i c] e safe Input by simp
    have c1: "clients ?s1 cid = Some (c\<lparr>querybuf := querybuf c @ cmds\<rparr>)"
      using c by simp
    have "ensures b (processInputBuffer cid ?s1) (\<lambda>s'. sys_inv b (st\<lparr>srv := s'\<rparr>) \<and> 0 < length (dbs s'))"
    proof (rule ensures_mono [OF processInputBuffer_spec [OF i1 c1]])
      fix s'
      assume s': "srv_inv b None {} s' \<and> served cid ?s1 s' \<and> load s' \<le> load ?s1"
      have conf: "same_conf ?s s'"
        using s' by (simp add: served_def same_conf_def)
      have "slot.in_step m (pcs st m) s'" for m
      proof (rule in_step_main [OF h])
        have j: "same_job m ?s ?s1" by simp
        have "same_job m ?s1 s' \<or> job_all_null m ?s1 \<and> job_ret m s' = None"
          using s' unfolding served_def by blast
        then show "same_job m ?s s' \<or> job_all_null m ?s \<and> job_ret m s' = None"
          using same_job_trans [OF j] same_job_sel(4) [OF j] by blast
        show "job_pipe m s' = job_pipe m ?s"
          using conf by (rule same_conf_pipe)
      qed
      then show "sys_inv b (st\<lparr>srv := s'\<rparr>) \<and> 0 < length (dbs s')"
        using s' n same_conf_dbs [OF conf] by (simp add: sys_inv_def)
    qed
    then show ?thesis
      unfolding Input run.simps readQueryFromClient_def by (cases "processInputBuffer cid ?s1") simp_all
  next
    case (Work m lib)
    have "length (dbs (srv st')) = length (dbs ?s)" if "run (Work m lib) st = Some st'" for st'
      using that worker_frame(1) [OF _ h] by (auto split: prod.splits)
    then show ?thesis
      using worker_inv [OF inv, of lib m] safe n unfolding Work by (auto elim!: ensures_mono)
  next
    case (Deliver m)
    have p: "job_pipe m ?s > 0"
      using e Deliver by simp
    show ?thesis
      unfolding Deliver using deliver_inv [OF inv p] n by (elim ensures_mono) auto
  qed
qed

end
