(* ===== verification/Backend_Props.thy ===== *)
theory Backend_Props
  imports Backend_Sys
begin

text \<open>
  What the cache-through protocol guarantees in every state that the whole system can get to:
  who waits for what, which jobs are posted, that no assertion fails and every client is served
  under the stated conditions, how a read travels to the backend and back, and the runs in
  which an assertion does fail.
\<close>

lemma dict_map_dictCreate: "dict_map (dictCreate hf) = Map.empty"
  by (simp add: dictCreate_def dict_map_def dict_entries_def)

subsection \<open>What holds in every reachable state\<close>

lemma init_inv: "0 < n \<Longrightarrow> sys_inv b (init_sys hf n t) \<and> 0 < length (dbs (srv (init_sys hf n t)))"
proof -
  assume n: "0 < n"
  have d: "dicts_ok (init_db hf)" "waiting m (init_db hf) = Map.empty" "db_ok (init_db hf)" for m
    by (cases m; simp add: init_db_def dicts_ok_def db_ok_def dict_map_dictCreate dict_inv_dictCreate)+
  have s: "dbs (srv (init_sys hf n t)) = replicate n (init_db hf)" "clients (srv (init_sys hf n t)) = Map.empty"
    "redisoo_set (srv (init_sys hf n t)) = []" "job_key m (srv (init_sys hf n t)) = None" "job_ret m (srv (init_sys hf n t)) = None"
    "job_pipe m (srv (init_sys hf n t)) = 0" "valToBackend (server_setJob (srv (init_sys hf n t))) = None" for m
    by (cases m; simp add: init_sys_def init_server_def initBackendZeroJobs_def)+
  have "load (srv (init_sys hf n t)) = 0"
    by (simp add: load_def keys_load_def input_load_def s d del: waiting.simps)
  moreover have "slot_ok None m (srv (init_sys hf n t))" for m
    by (simp add: slot_ok_def s d del: waiting.simps job_key.simps job_ret.simps)
  moreover have "slot.in_step m W_Idle (srv (init_sys hf n t))" for m
    by (simp add: slot.in_step_def s del: job_key.simps job_ret.simps job_pipe.simps)
  moreover have "waits_ok {} (srv (init_sys hf n t))"
    by (simp add: waits_ok_def s d del: waiting.simps)
  moreover have "pcs (init_sys hf n t) m = W_Idle" for m
    by (simp add: init_sys_def)
  ultimately show ?thesis
    using n by (simp add: sys_inv_def srv_inv_def s d dbs_ok_def all_dicts_ok_def del: waiting.simps job_key.simps job_ret.simps job_pipe.simps)
qed

lemma reachable_inv:
  assumes "reachable b st"
  shows "sys_inv b st" and "0 < length (dbs (srv st))"
proof -
  have "sys_inv b st \<and> 0 < length (dbs (srv st))"
    using assms
  proof induction
    case (init n hf t)
    then show ?case by (rule init_inv)
  next
    case (step st e st')
    then show ?case
      using run_inv [of b st e] by simp
  qed
  then show "sys_inv b st" "0 < length (dbs (srv st))" by simp_all
qed

lemma reachable_srv:
  assumes "reachable b st"
  shows "srv_inv b None {} (srv st)" and "slot.in_step m (pcs st m) (srv st)"
  using reachable_inv(1) [OF assms] by (simp_all add: sys_inv_def)

text \<open>
  C3. In every state that the server can get to, whatever the clients, the configuration and the
  backend do, as long as no assertion fails: the list of a waiting key has no duplicates and
  holds exactly the connected clients that are in the backend state of its mode with this
  database and this key; and every client in a backend state is in such a list.  So no client
  waits without being listed, and no list has a client that is gone or runs.
\<close>

theorem waiting_exact:
  assumes "reachable b st"
  shows "(\<forall>i < length (dbs (srv st)). \<forall>k cs. waiting m (dbs (srv st) ! i) k = Some cs \<longrightarrow>
      distinct cs \<and> (\<forall>cid. cid \<in> set cs \<longleftrightarrow> (\<exists>c. clients (srv st) cid = Some c \<and> backend_state c = mode_state m \<and> c_db c = i \<and> c_argv c ! 1 = k))) \<and>
    (\<forall>cid c. clients (srv st) cid = Some c \<longrightarrow> backend_state c = mode_state m \<longrightarrow>
      c_db c < length (dbs (srv st)) \<and> (\<exists>cs. waiting m (dbs (srv st) ! c_db c) (c_argv c ! 1) = Some cs \<and> cid \<in> set cs))"
proof -
  note i = reachable_srv(1) [OF assms]
  note u = waits_okD [OF srv_invD(6) [OF i]]
  have "distinct cs \<and> (\<forall>cid. cid \<in> set cs \<longleftrightarrow> (\<exists>c. clients (srv st) cid = Some c \<and> backend_state c = mode_state m \<and> c_db c = i \<and> c_argv c ! 1 = k))"
    if "i < length (dbs (srv st))" "waiting m (dbs (srv st) ! i) k = Some cs" for i k cs
    using u(1) [OF that] u(2) [OF that] u(3) that by (metis empty_iff option.inject)
  moreover have "c_db c < length (dbs (srv st)) \<and> (\<exists>cs. waiting m (dbs (srv st) ! c_db c) (c_argv c ! 1) = Some cs \<and> cid \<in> set cs)"
    if "clients (srv st) cid = Some c" "backend_state c = mode_state m" for cid c
    using u(3) [OF that] srv_invD(3) [OF i that(1)] by (simp add: client_ok_def del: waiting.simps)
  ultimately show ?thesis by blast
qed

subsection \<open>A read that the backend has to answer\<close>

lemma find_hd: "P x \<Longrightarrow> find P (x # xs) = Some x"
  by simp

lemma lookupCommand_get:
  "lookupCommand ''get'' = Some \<lparr>cmd_name = ''get'', cmd_proc = CtxProc getCommand, cmd_arity = 2, cmd_readonly = True\<rparr>"
  unfolding lookupCommand_def redisCommandTable_def by (rule find_hd) simp

lemma is_quit_get: "\<not> is_quit ''get''"
  by (simp add: is_quit_def strcasecmp_eq_def)

text \<open>One complete command of a client that has nothing else to do, outside of a transaction.\<close>

lemma readQueryFromClient_one:
  assumes c: "clients s cid = Some c" and q: "querybuf c = []" "backend_state c = CLIENT_BACKEND_NORMAL" "\<not> c_close c" "\<not> c_multi c"
    and av: "lookupCommand (av ! 0) = Some cmd" "\<not> is_quit (av ! 0)" "\<not> wrong_arity cmd (length av)" "av \<noteq> []"
  shows "readQueryFromClient cid [av] s = do {
     s \<leftarrow> checkNeedToBackendState cid (update_client cid (\<lambda>_. c\<lparr>c_cmd := cmd_name cmd, c_argv := av\<rparr>) s);
     c \<leftarrow> clients s cid;
     s \<leftarrow> (if backend_state c = CLIENT_BACKEND_NORMAL then call cid s else Some s);
     c \<leftarrow> clients s cid;
     Some (if backend_state c = CLIENT_BACKEND_NORMAL then resetClient cid s else s)
   }"
proof -
  let ?c = "c\<lparr>c_cmd := cmd_name cmd, c_argv := av\<rparr>"
  have u: "update_client cid (\<lambda>c. c\<lparr>c_cmd := cmd_name cmd\<rparr>) (update_client cid (\<lambda>c. c\<lparr>querybuf := [], c_argv := av\<rparr>)
      (update_client cid (\<lambda>c. c\<lparr>querybuf := querybuf c @ [av]\<rparr>) s)) = update_client cid (\<lambda>_. ?c) s"
    using c q(1) by (cases c) (simp add: update_client_def)
  let ?s = "update_client cid (\<lambda>c. c\<lparr>querybuf := [], c_argv := av\<rparr>) (update_client cid (\<lambda>c. c\<lparr>querybuf := querybuf c @ [av]\<rparr>) s)"
  have p: "processCommand cid ?s = do {
     s \<leftarrow> checkNeedToBackendState cid (update_client cid (\<lambda>_. ?c) s);
     c \<leftarrow> clients s cid;
     s \<leftarrow> (if backend_state c = CLIENT_BACKEND_NORMAL then call cid s else Some s);
     Some (s, True)
   }"
    unfolding processCommand_def using c q(4) av
    by (simp add: queue_or_call_def u Let_def if_distrib [where f = "\<lambda>r. Option.bind r (\<lambda>s. Some (s, True))"] cong: if_cong)
  show ?thesis
    using c q av(4)
    by (simp add: readQueryFromClient_def processInputBuffer_def processCommandAndResetClient_def p cong: if_cong)
qed

lemma next_command_inv:
  assumes i: "srv_inv b None {} s" and c: "clients s cid = Some c" "backend_state c = CLIENT_BACKEND_NORMAL"
  shows "srv_inv b None {} (update_client cid (\<lambda>_. c\<lparr>c_cmd := name, c_argv := av\<rparr>) s)" (is "srv_inv b None {} ?u")
proof -
  let ?c = "c\<lparr>c_cmd := name, c_argv := av\<rparr>"
  have ok: "client_ok b (length (dbs s)) ?c"
    using srv_invD(3) [OF i c(1)] c(2) by (simp add: client_ok_def)
  have "load ?u + length (querybuf c) = load s + length (querybuf ?c)"
    using load_same [OF _ _ srv_invD(4) [OF i] c(1), of ?u ?c] c(1) by simp
  then have "load ?u < 2 ^ 62"
    using srv_invD(7) [OF i] by simp
  from client_change_inv(1) [OF i c _ ok this] show ?thesis
    using c(2) by simp
qed

lemma is_readonly_get: "is_readonly ''get''"
  by (simp add: is_readonly_def lookupCommand_get)

lemma get_miss:
  assumes inv: "srv_inv b None {} s" and c: "clients s cid = Some c" "backend_state c = CLIENT_BACKEND_NORMAL" "\<not> c_multi c"
    and get: "c_cmd c = ''get''" "c_argv c = [''get'', key]"
    and conf: "redisoo_db_type s \<noteq> 0" "redisoo_db_type s = GRPC \<or> redisoo_get s \<noteq> []" "redisoo_get_sync s"
    and miss: "live (client_env s True) (dbs s ! c_db c) key = None" "\<not> (valFromBackend (server_getJob s) = None \<and> returnGetKey (server_getJob s) = Some key)"
  shows "\<exists>s1 s'. looked b cid s s1 \<and> checkNeedToBackendState cid s = Some s' \<and> entered GET_MODE True cid c s1 s' \<and> slot_ok None GET_MODE s'"
proof -
  obtain s1 where s1: "check_lookup cid key s = Some (s1, None)" "looked b cid s s1"
    using check_lookup_spec [OF srv_invD(1) [OF inv] c(1) srv_invD(3) [OF inv c(1)], of key] miss(1)
    by (auto simp: get is_readonly_get)
  have i1: "srv_inv b None {} s1" "clients s1 = clients s"
    using looked_inv [OF inv s1(2) c(1,2)] by simp_all
  have j: "server_getJob s1 = server_getJob s" "redisoo_get_sync s1"
    using s1(2) conf(3) quietD(2) [of b cid s s1] quietD(1) [of b cid s s1] by (auto simp: looked_def same_jobs_def same_conf_def)
  have "checkGetCommandForBackendState cid s = Some (s1, True)"
    using s1(1) c get conf miss(2) j by (auto simp: checkGetCommandForBackendState_def)
  then have "checkNeedToBackendState cid s = enter_backend GET_MODE True cid s1"
    using c conf j by (simp add: checkNeedToBackendState_def)
  then show ?thesis
    using enter_backend_entered [OF i1(1), of cid c GET_MODE True True] c(1) i1(2) s1(2)
    by (cases "enter_backend GET_MODE True cid s1") auto
qed

text \<open>If one key waits after an empty slot was filled, it is the key in the slot.\<close>

lemma posted:
  assumes ok: "slot_ok None GET_MODE s" "slot_ok None GET_MODE s'" and n: "length (dbs s') = length (dbs s)"
    and w: "\<And>j. j < length (dbs s) \<Longrightarrow> waiting GET_MODE (dbs s' ! j) =
      (if j = i then (waiting GET_MODE (dbs s ! i))(key \<mapsto> cs) else waiting GET_MODE (dbs s ! j))"
    and i: "i < length (dbs s)"
    and j: "server_getJob s' = server_getJob s \<or> job_all_null GET_MODE s \<and> job_ret GET_MODE s' = None"
  shows "if getKey (server_getJob s) = None
     then getKey (server_getJob s') = Some key \<and> get_dbid (server_getJob s') = int i \<and> returnGetKey (server_getJob s') = None
     else server_getJob s' = server_getJob s"
proof (cases "getKey (server_getJob s) = None")
  case True
  then have null: "job_all_null GET_MODE s"
    using ok(1) by (simp add: slot_ok_def job_all_null_iff)
  then have e: "waiting GET_MODE (dbs s ! j) = Map.empty" if "j < length (dbs s)" for j
    using ok(1) that by (simp add: slot_ok_def del: waiting.simps)
  have "\<not> job_all_null GET_MODE s'"
    using ok(2) fun_cong [OF w [OF i], of key] i n unfolding slot_ok_def by (auto simp del: waiting.simps)
  moreover have "job_ret GET_MODE s' = None"
    using j null by (auto simp: job_all_null_iff)
  ultimately obtain k where k: "getKey (server_getJob s') = Some k" "returnGetKey (server_getJob s') = None"
    by (auto simp: job_all_null_iff)
  then have "0 \<le> get_dbid (server_getJob s')" "get_dbid (server_getJob s') < int (length (dbs s))"
    "waiting GET_MODE (dbs s' ! nat (get_dbid (server_getJob s'))) k \<noteq> None"
    using ok(2) n by (auto simp: slot_ok_def simp del: waiting.simps)
  then have "k = key \<and> get_dbid (server_getJob s') = int i"
    using w [of "nat (get_dbid (server_getJob s'))"] e by (auto simp del: waiting.simps split: if_splits)
  then show ?thesis using True k by simp
next
  case False
  then show ?thesis
    using j by (auto simp: job_all_null_iff)
qed

lemma get_miss_srv:
  assumes i: "srv_inv b None {} s" and c: "clients s cid = Some c" "backend_state c = CLIENT_BACKEND_NORMAL" "\<not> c_multi c" "\<not> c_close c" "querybuf c = []"
    and conf: "redisoo_db_type s \<noteq> 0" "redisoo_db_type s = GRPC \<or> redisoo_get s \<noteq> []" "redisoo_get_sync s"
    and miss: "live (client_env s True) (dbs s ! c_db c) key = None" "\<not> (valFromBackend (server_getJob s) = None \<and> returnGetKey (server_getJob s) = Some key)"
  shows "\<exists>s'. readQueryFromClient cid [[''get'', key]] s = Some s' \<and> same_conf s s' \<and>
    clients s' = (clients s)(cid \<mapsto> c\<lparr>c_cmd := ''get'', c_argv := [''get'', key], backend_state := CLIENT_BACKEND_GET\<rparr>) \<and>
    waiting GET_MODE (dbs s' ! c_db c) = (waiting GET_MODE (dbs s ! c_db c))(key \<mapsto>
      (case waiting GET_MODE (dbs s ! c_db c) key of None \<Rightarrow> [] | Some cs \<Rightarrow> cs) @ [cid]) \<and>
    (if getKey (server_getJob s) = None
     then getKey (server_getJob s') = Some key \<and> get_dbid (server_getJob s') = int (c_db c) \<and> returnGetKey (server_getJob s') = None
     else server_getJob s' = server_getJob s)"
proof -
  let ?c = "c\<lparr>c_cmd := ''get'', c_argv := [''get'', key]\<rparr>"
  let ?u = "update_client cid (\<lambda>_. ?c) s"
  have ok: "client_ok b (length (dbs s)) ?c"
    using srv_invD(3) [OF i c(1)] c(2) by (simp add: client_ok_def)
  note i0 = next_command_inv [OF i c(1,2), where name = "''get''" and av = "[''get'', key]"]
  have c0: "clients ?u cid = Some ?c"
    using c(1) by simp
  have "\<exists>s1 s'. looked b cid ?u s1 \<and> checkNeedToBackendState cid ?u = Some s' \<and> entered GET_MODE True cid ?c s1 s' \<and> slot_ok None GET_MODE s'"
    by (rule get_miss [OF i0 c0]) (use c conf miss in \<open>simp_all add: client_env_def\<close>)
  then obtain s1 s' where s: "looked b cid ?u s1" "checkNeedToBackendState cid ?u = Some s'" "entered GET_MODE True cid ?c s1 s'" "slot_ok None GET_MODE s'"
    by blast
  have n: "length (dbs s1) = length (dbs s)" "length (dbs s') = length (dbs s)"
    using same_conf_dbs [OF quietD(1), of b cid ?u s1] s same_conf_dbs [of s1 s'] by (auto simp: looked_def entered_def)
  have d: "c_db c < length (dbs s)"
    using ok by (simp add: client_ok_def)
  have w1: "waiting m (dbs s1 ! j) = waiting m (dbs s ! j)" if "j < length (dbs s)" for m j
    using s(1) quietD(4) [of b cid ?u s1 j] that by (simp add: looked_def same_waiting_def del: waiting.simps)
  have j1: "server_getJob s1 = server_getJob s"
    using s(1) quietD(2) [of b cid ?u s1] by (simp add: looked_def same_jobs_def)
  have jj: "same_job GET_MODE s1 s' \<or> job_all_null GET_MODE s1 \<and> job_ret GET_MODE s' = None"
    using s(3) unfolding entered_def by blast
  have cl: "clients s' = (clients s)(cid \<mapsto> ?c\<lparr>backend_state := CLIENT_BACKEND_GET\<rparr>)"
    using s(1,3) by (simp add: looked_def entered_def c(1))
  have w: "waiting GET_MODE (dbs s' ! j) = (if j = c_db c then (waiting GET_MODE (dbs s ! c_db c))(key \<mapsto>
      (case waiting GET_MODE (dbs s ! c_db c) key of None \<Rightarrow> [] | Some cs \<Rightarrow> cs) @ [cid]) else waiting GET_MODE (dbs s ! j))"
    if j: "j < length (dbs s)" for j
  proof -
    obtain db where "if j = c_db c then key_added GET_MODE key [cid] (dbs s1 ! j) db else db = dbs s1 ! j" "same_keys db (dbs s' ! j)"
      using s(3) j by (auto simp: entered_def n cong: if_cong)
    then show ?thesis
      using w1 [OF j, of GET_MODE] by (simp add: key_added_def same_keys_def del: waiting.simps split: if_splits)
  qed
  have "readQueryFromClient cid [[''get'', key]] s = Some s'"
    using readQueryFromClient_one [OF c(1,5,2,4,3), of "[''get'', key]"] s(2) cl
    by (simp add: lookupCommand_get is_quit_get wrong_arity_def)
  moreover have "if getKey (server_getJob s) = None
     then getKey (server_getJob s') = Some key \<and> get_dbid (server_getJob s') = int (c_db c) \<and> returnGetKey (server_getJob s') = None
     else server_getJob s' = server_getJob s"
    by (rule posted [OF srv_invD(5) [OF i] s(4) n(2) w d]) (use jj j1 in \<open>auto simp: job_all_null_iff\<close>)
  moreover have "same_conf s s'"
    using s(1,3) quietD(1) [of b cid ?u s1] by (auto simp: looked_def entered_def same_conf_def)
  ultimately show ?thesis
    using cl w [OF d] by (simp del: waiting.simps)
qed


subsection \<open>No assertion fails\<close>

text \<open>
  C1. From every state reached by safe events, every safe event runs to its end: none of the
  assertions of the protocol, of the command implementations or of the workers fails, whatever
  the order of the clients' commands, their departures, the workers' steps and the answers of
  the backend.  Safe means that no client sends a SETRANGE whose offset overflows, that no
  statement is configured for SET, and that the backend returns no empty value; each of
  the three is needed, as the theorems on failing assertions show.
\<close>

theorem crash_free:
  assumes "reachable True st" and "enabled e st" and "safe_event e"
  shows "\<exists>st'. run e st = Some st'"
  using run_inv [OF reachable_inv [OF assms(1)] assms(2)] assms(3) by (cases "run e st") auto

subsection \<open>Every client is served\<close>

text \<open>One round of a fair schedule: every worker and every pipe handler has its turn.\<close>

definition move :: "mode \<Rightarrow> backend_lib \<Rightarrow> sys \<Rightarrow> sys option" where
  "move m lib st = (if job_pipe m (srv st) > 0 then run (Deliver m) st else run (Work m lib) st)"

fun drain :: "backend_lib list \<Rightarrow> sys \<Rightarrow> sys option" where
  "drain [] st = Some st"
| "drain (lib # libs) st = do {
     st \<leftarrow> move GET_MODE lib st;
     st \<leftarrow> move SET_MODE lib st;
     st \<leftarrow> move DEL_MODE lib st;
     drain libs st
   }"

definition idle :: "sys \<Rightarrow> bool" where
  "idle st \<longleftrightarrow> (\<forall>m. job_key m (srv st) = None)"

lemma move_spec:
  assumes inv: "sys_inv b st" and good: "b \<longrightarrow> nonempty_lib lib"
  shows "ensures b (move m lib st) (\<lambda>st'. sys_inv b st' \<and> dom (clients (srv st')) = dom (clients (srv st)) \<and>
    (if job_key m (srv st) = None then st' = st else sys_todo st' < sys_todo st))"
proof (cases "job_pipe m (srv st) > 0")
  case True
  have "job_key m (srv st) \<noteq> None"
    using slot.main_finish(2) [of m "pcs st m" "srv st" "set_job_pipe m (job_pipe m (srv st) - 1) (srv st)"] True inv
    by (auto simp: sys_inv_def slot.in_step_def split: option.splits if_splits)
  then show ?thesis
    using deliver_inv [OF inv True] True by (auto simp: move_def simp del: run.simps elim!: ensures_mono)
next
  case False
  have h: "slot.in_step m (pcs st m) (srv st)"
    using inv by (simp add: sys_inv_def)
  have z: "slot.todo m (pcs st m) (srv st) = 0 \<longleftrightarrow> job_key m (srv st) = None" "slot.todo m (pcs st m) (srv st) \<noteq> 1"
    using slot.todo_zero slot.todo_one [OF h] False by auto
  show ?thesis
    unfolding move_def if_not_P [OF False]
  proof (rule ensures_mono [OF worker_inv [OF inv good]])
    fix st'
    assume st': "sys_inv b st' \<and> load (srv st') = load (srv st) \<and> clients (srv st') = clients (srv st) \<and>
      (if slot.todo m (pcs st m) (srv st) \<le> 1 then st' = st
       else slot.todo m (pcs st' m) (srv st') < slot.todo m (pcs st m) (srv st)) \<and>
      (\<forall>m'. m' \<noteq> m \<longrightarrow> slot.todo m' (pcs st' m') (srv st') = slot.todo m' (pcs st m') (srv st))"
    have "sys_todo st' < sys_todo st" if "job_key m (srv st) \<noteq> None"
    proof -
      have "\<not> slot.todo m (pcs st m) (srv st) \<le> 1"
        using z that by linarith
      then have "slot.todo m (pcs st' m) (srv st') < slot.todo m (pcs st m) (srv st)"
        using st' by simp
      then show ?thesis
        using st' by (cases m) (simp_all add: sys_todo_def)
    qed
    moreover have "st' = st" if "job_key m (srv st) = None"
      using st' z that by simp
    ultimately show "sys_inv b st' \<and> dom (clients (srv st')) = dom (clients (srv st)) \<and>
        (if job_key m (srv st) = None then st' = st else sys_todo st' < sys_todo st)"
      using st' by simp
  qed
qed

lemma round_spec:
  assumes inv: "sys_inv b st" and good: "b \<longrightarrow> nonempty_lib lib"
  shows "ensures b (move GET_MODE lib st \<bind> (\<lambda>st. move SET_MODE lib st \<bind> move DEL_MODE lib))
    (\<lambda>st'. sys_inv b st' \<and> dom (clients (srv st')) = dom (clients (srv st)) \<and> (if idle st then st' = st else sys_todo st' < sys_todo st))"
proof (rule ensures_seq [OF move_spec [OF inv good]], rule ensures_seq [OF move_spec [OF _ good]], simp)
  fix s1 s2
  assume 1: "sys_inv b s1 \<and> dom (clients (srv s1)) = dom (clients (srv st)) \<and>
      (if job_key GET_MODE (srv st) = None then s1 = st else sys_todo s1 < sys_todo st)"
    and 2: "sys_inv b s2 \<and> dom (clients (srv s2)) = dom (clients (srv s1)) \<and>
      (if job_key SET_MODE (srv s1) = None then s2 = s1 else sys_todo s2 < sys_todo s1)"
  show "ensures b (move DEL_MODE lib s2)
    (\<lambda>st'. sys_inv b st' \<and> dom (clients (srv st')) = dom (clients (srv st)) \<and> (if idle st then st' = st else sys_todo st' < sys_todo st))"
  proof (rule ensures_mono [OF move_spec [OF conjunct1 [OF 2] good]])
    fix s3
    assume 3: "sys_inv b s3 \<and> dom (clients (srv s3)) = dom (clients (srv s2)) \<and>
      (if job_key DEL_MODE (srv s2) = None then s3 = s2 else sys_todo s3 < sys_todo s2)"
    have "idle st \<longleftrightarrow> job_key GET_MODE (srv st) = None \<and> job_key SET_MODE (srv st) = None \<and> job_key DEL_MODE (srv st) = None"
      unfolding idle_def by (metis mode.exhaust)
    then show "sys_inv b s3 \<and> dom (clients (srv s3)) = dom (clients (srv st)) \<and> (if idle st then s3 = st else sys_todo s3 < sys_todo st)"
      using 1 2 3 by (auto simp del: job_key.simps split: if_splits)
  qed
qed

lemma drain_spec:
  assumes "sys_inv b st" and "b \<longrightarrow> (\<forall>lib \<in> set libs. nonempty_lib lib)"
  shows "ensures b (drain libs st) (\<lambda>st'. sys_inv b st' \<and> dom (clients (srv st')) = dom (clients (srv st)) \<and>
    (idle st \<or> sys_todo st \<le> length libs \<longrightarrow> idle st'))"
  using assms
proof (induction libs arbitrary: st)
  case Nil
  have "idle st" if "sys_todo st = 0"
  proof -
    have "slot.todo m (pcs st m) (srv st) = 0" for m
      using that by (cases m) (simp_all add: sys_todo_def)
    then show ?thesis by (simp add: idle_def slot.todo_zero)
  qed
  then show ?case using Nil by simp
next
  case (Cons lib libs)
  let ?P = "\<lambda>st'. sys_inv b st' \<and> dom (clients (srv st')) = dom (clients (srv st)) \<and> (if idle st then st' = st else sys_todo st' < sys_todo st)"
  have "ensures b ((move GET_MODE lib st \<bind> (\<lambda>st. move SET_MODE lib st \<bind> move DEL_MODE lib)) \<bind> drain libs)
    (\<lambda>st'. sys_inv b st' \<and> dom (clients (srv st')) = dom (clients (srv st)) \<and> (idle st \<or> sys_todo st \<le> length (lib # libs) \<longrightarrow> idle st'))"
  proof (rule ensures_seq [where P = ?P])
    show "ensures b (move GET_MODE lib st \<bind> (\<lambda>st. move SET_MODE lib st \<bind> move DEL_MODE lib)) ?P"
      using Cons.prems by (intro round_spec) auto
    fix s1
    assume s1: "?P s1"
    show "ensures b (drain libs s1)
      (\<lambda>st'. sys_inv b st' \<and> dom (clients (srv st')) = dom (clients (srv st)) \<and> (idle st \<or> sys_todo st \<le> length (lib # libs) \<longrightarrow> idle st'))"
      using s1 Cons.prems(2) by (intro ensures_mono [OF Cons.IH]) (auto split: if_splits)
  qed
  then show ?case by (simp add: comp_def)
qed

lemma idle_normal:
  assumes inv: "sys_inv b st" and "idle st" and c: "clients (srv st) cid = Some c"
  shows "backend_state c = CLIENT_BACKEND_NORMAL"
proof (rule ccontr)
  assume "backend_state c \<noteq> CLIENT_BACKEND_NORMAL"
  then obtain m where m: "backend_state c = mode_state m"
    using waiting_state by auto
  have i: "srv_inv b None {} (srv st)"
    using inv by (simp add: sys_inv_def)
  have "waiting m (dbs (srv st) ! c_db c) = Map.empty"
    using assms(2) srv_invD(5) [OF i, of m] srv_invD(3) [OF i c]
    by (auto simp: slot_ok_def job_all_null_iff idle_def client_ok_def simp del: waiting.simps job_key.simps job_ret.simps)
  then show False
    using waits_okD(3) [OF srv_invD(6) [OF i] c m] by (simp del: waiting.simps)
qed


subsection \<open>The answer of the backend reaches the clients\<close>

text \<open>A client that gets a value in answer to its GET.\<close>

definition answered :: "sds \<Rightarrow> client \<Rightarrow> client" where
  "answered v c = c\<lparr>backend_state := CLIENT_BACKEND_NORMAL, c_reply := c_reply c @ [ReplyBulk v], c_argv := []\<rparr>"

definition waits_for_get :: "nat \<Rightarrow> sds \<Rightarrow> client \<Rightarrow> bool" where
  "waits_for_get i key c \<longleftrightarrow> backend_state c = CLIENT_BACKEND_GET \<and> c_cmd c = ''get'' \<and> c_db c = i \<and> c_argv c ! 1 = key \<and> querybuf c = []"

lemma resumeBackendClient_get:
  assumes c: "clients s cid = Some c" "waits_for_get i key c" and db: "db_ok (dbs s ! i)"
    and v: "live (client_env s True) (dbs s ! i) key = Some ob" "is_string ob"
  shows "resumeBackendClient cid s = Some (update_client cid (answered (obj_string ob)) s)"
proof -
  let ?s = "update_client cid (\<lambda>c. c\<lparr>backend_state := CLIENT_BACKEND_NORMAL\<rparr>) s"
  have p: "purge (client_env s True) (dbs s ! i) key = dbs s ! i"
    using v(1) by (simp add: purge_def live_def split: if_splits)
  have e: "client_env (s\<lparr>clients := x\<rparr>) ro = client_env s ro" for x ro
    by (simp add: client_env_def)
  have "call cid ?s = Some (update_client cid (\<lambda>_. c\<lparr>backend_state := CLIENT_BACKEND_NORMAL, c_reply := c_reply c @ [ReplyBulk (obj_string ob)]\<rparr>) s)"
    using c db v p
    by (simp add: call_def call_simple_def lookupCommand_get run_ctx_def waits_for_get_def getCommand_def getGenericCommand_eq e Let_def
        readable_master addReply_def update_client_def update_db_def)
  then show ?thesis
    using c by (simp add: resumeBackendClient_def waits_for_get_def processInputBuffer_def resetClient_def answered_def update_client_def)
qed

lemma resume_all_get:
  assumes "distinct cs" and "\<forall>cid \<in> set cs. \<exists>c. clients s cid = Some c \<and> waits_for_get i key c" and db: "db_ok (dbs s ! i)"
    and v: "live (client_env s True) (dbs s ! i) key = Some ob" "is_string ob"
  shows "resume_all GET_MODE r cs s =
    Some (s\<lparr>clients := (\<lambda>cid. if cid \<in> set cs then map_option (answered (obj_string ob)) (clients s cid) else clients s cid)\<rparr>)"
  using assms
proof (induction cs arbitrary: s)
  case (Cons cid cs)
  then obtain c where c: "clients s cid = Some c" "waits_for_get i key c" by auto
  let ?s = "update_client cid (answered (obj_string ob)) s"
  have "resume_all GET_MODE r cs ?s = Some (?s\<lparr>clients := (\<lambda>x. if x \<in> set cs then map_option (answered (obj_string ob)) (clients ?s x) else clients ?s x)\<rparr>)"
    using Cons.prems by (intro Cons.IH) (auto simp: client_env_def)
  moreover have "resumeBackendClient cid s = Some ?s"
    using resumeBackendClient_get [OF c Cons.prems(3,4,5)] by simp
  ultimately show ?case
    using Cons.prems(1) by (auto simp: update_client_def fun_eq_iff)
qed simp

lemma live_cong: "db_dict db' = db_dict db \<Longrightarrow> db_expires db' = db_expires db \<Longrightarrow> live e db' = live e db"
  by (simp add: live_def key_expired_def fun_eq_iff)

lemma live_stored:
  assumes i: "i < length (dbs s)" and ttl: "ttl > 0 \<longrightarrow> 0 \<le> mstime s \<and> mstime s + ttl < 2 ^ 63"
  shows "live (client_env s ro) (dbs (stored i key v ttl s) ! i) key = Some (createStringObject_backend v)"
proof -
  have "\<not> key_expired (client_env s ro) (purge (client_env s False) (dbs s ! i) key) key"
    by (auto simp: purge_def key_expired_def client_env_def split: option.splits)
  then show ?thesis
    using i ttl by (auto simp: stored_def live_def key_expired_def client_env_def sll_def Let_def)
qed

lemma clearFinishKey_get:
  assumes inv: "srv_inv b None {} s" and j: "getKey (server_getJob s) = Some key" "returnGetKey (server_getJob s) = Some key"
    and i: "get_dbid (server_getJob s) = int i" and ttl: "redisoo_get_ttl s > 0 \<longrightarrow> 0 \<le> mstime s \<and> mstime s + redisoo_get_ttl s < 2 ^ 63"
    and w: "waiting GET_MODE (dbs s ! i) key = Some cs" "\<forall>cid \<in> set cs. \<forall>c. clients s cid = Some c \<longrightarrow> c_cmd c = ''get'' \<and> querybuf c = []"
  shows "\<exists>s'. clearFinishKey GET_MODE i key (Some v) r t s = Some s' \<and>
    live (client_env s True) (dbs s' ! i) key = Some (createStringObject_backend v) \<and> waiting GET_MODE (dbs s' ! i) key = None \<and>
    clients s' = (\<lambda>cid. if cid \<in> set cs then map_option (answered v) (clients s cid) else clients s cid) \<and> get_pipe s' = get_pipe s"
proof -
  have n: "i < length (dbs s)"
    using srv_invD(5) [OF inv, of GET_MODE] j(1) i by (auto simp: slot_ok_def)
  let ?s1 = "stored i key v (redisoo_get_ttl s) s"
  note s1 = stored_inv [OF inv n, where key = key and v = v and ttl = "redisoo_get_ttl s"]
  have n1: "length (dbs ?s1) = length (dbs s)"
    using same_conf_dbs [OF s1(4)] by simp
  have "db_ok (dbs s ! i)" "dicts_ok (dbs ?s1 ! i)"
    using srv_invD(1) [OF inv] srv_invD(2) [OF s1(1)] n n1 by (auto simp: dbs_ok_def all_dicts_ok_def)
  then obtain db' where t: "store_result i key v (redisoo_get_ttl s) s = Some ?s1"
    "take_waiting GET_MODE i key ?s1 = Some (update_db i (\<lambda>_. db') ?s1, cs)" "dicts_ok db'"
    "db_dict db' = db_dict (dbs ?s1 ! i)" "db_expires db' = db_expires (dbs ?s1 ! i)"
    "waiting GET_MODE db' = (waiting GET_MODE (dbs ?s1 ! i))(key := None)"
    using store_result_eq [of s i key v "redisoo_get_ttl s"] take_waiting_eq [of ?s1 i GET_MODE key cs] w(1) s1(6) [OF n] by auto
  let ?s2 = "update_db i (\<lambda>_. db') ?s1"
  have d2: "dbs ?s2 ! i = db'" "length (dbs ?s2) = length (dbs s)"
    using n n1 by simp_all
  have e: "client_env ?s2 = client_env s" "client_env ?s1 = client_env s"
    by (simp_all add: client_env_def stored_def fun_eq_iff)
  have lv: "live (client_env s True) db' key = Some (createStringObject_backend v)"
    using live_stored [OF n ttl, of True key v] live_cong [OF t(4,5)] by simp
  let ?f = "\<lambda>cid. if cid \<in> set cs then map_option (answered v) (clients s cid) else clients s cid"
  have "resume_all GET_MODE r cs ?s2 = Some (?s2\<lparr>clients := ?f\<rparr>)"
  proof -
    note u = waits_okD(1) [OF srv_invD(6) [OF inv] n w(1)] waits_okD(2) [OF srv_invD(6) [OF inv] n w(1)]
    have "db_ok db'"
      using srv_invD(1) [OF s1(1)] n n1 t(4,5) by (simp add: dbs_ok_def db_ok_def)
    moreover have "\<exists>c. clients s cid = Some c \<and> waits_for_get i key c" if "cid \<in> set cs" for cid
      using u(2) [OF that] w(2) that by (auto simp: waits_for_get_def)
    ultimately show ?thesis
      using resume_all_get [of cs ?s2 i key "createStringObject_backend v" r] u(1) lv d2(1) e(1) s1(3)
      by (simp add: createStringObject_backend_ok del: update_db_sel(1) cong: if_cong)
  qed
  moreover obtain s4 where s4: "clear_job GET_MODE (?s2\<lparr>clients := ?f\<rparr>) = Some s4" "dbs s4 = dbs ?s2" "clients s4 = ?f" "get_pipe s4 = get_pipe s"
    "job_all_null GET_MODE s4"
    using s1(5) [of GET_MODE] s1(4) j by (simp add: clear_job_def job_all_null_iff same_conf_def)
  moreover obtain s5 where "createNewJobIfHasMoreCandidates GET_MODE False s4 = Some s5" "clients s5 = ?f" "get_pipe s5 = get_pipe s"
    "live (client_env s True) (dbs s5 ! i) = live (client_env s True) db'" "waiting GET_MODE (dbs s5 ! i) = waiting GET_MODE db'"
  proof -
    have "all_dicts_ok s4"
      using srv_invD(2) [OF s1(1)] t(3) s4(2) n n1 by (auto simp: all_dicts_ok_def nth_list_update)
    then obtain s5 where s5: "createNewJobIfHasMoreCandidates GET_MODE False s4 = Some s5" "clients s5 = clients s4" "same_conf s4 s5"
      "\<forall>j < length (dbs s4). same_keys (dbs s4 ! j) (dbs s5 ! j)"
      using createNewJob_spec [OF s4(5), of None False] by auto
    have "same_keys db' (dbs s5 ! i)"
      using s5(4) [rule_format, of i] n n1 s4(2) by simp
    then show thesis
      using that s5(1-3) s4(3,4) live_cong [of "dbs s5 ! i" db'] by (simp add: same_keys_def same_conf_def del: waiting.simps)
  qed
  ultimately show ?thesis
    using t(1,2,6) lv by (simp add: clearFinishKey_def del: waiting.simps)
qed


subsection \<open>An example run\<close>

text \<open>
  A client connects, the backend is configured for synchronous reads, the client asks for a key
  that is not there, and the worker fetches its value.
\<close>

definition ex_conf :: redisoo_conf where
  "ex_conf = \<lparr>conf_db = ''mysql'', conf_connection = ''c'', conf_get = ''q'', conf_set = [], conf_del = [],
     conf_get_sync = True, conf_set_sync = False, conf_del_sync = False, conf_get_ttl = 0\<rparr>"

definition ex_lib :: backend_lib where
  "ex_lib = \<lparr>soci_open = (\<lambda>_ _. True), soci_exec = (\<lambda>_ _. Soci_row (I_ok ''v'')), grpc_call = (\<lambda>_ _. None)\<rparr>"

definition ex_start :: sys where
  "ex_start = (init_sys (\<lambda>_. 0) 16 0)\<lparr>srv := apply_conf ex_conf (createClient 7 (init_server (\<lambda>_. 0) 16 0))\<rparr>"

definition ex_wait :: sys where
  "ex_wait = the (run (Input 7 [[''get'', ''k'']]) ex_start)"

definition ex_back :: sys where
  "ex_back = the (run (Work GET_MODE ex_lib) (the (run (Work GET_MODE ex_lib) (the (run (Work GET_MODE ex_lib) ex_wait)))))"

lemma ex_mysql: "parseDbType ''mysql'' = Mysql"
  by code_simp

lemma ex_start_sel:
  "dbs (srv ex_start) = replicate 16 (init_db (\<lambda>_. 0))" "redisoo_db_type (srv ex_start) = Mysql" "redisoo_connection (srv ex_start) = ''c''"
  "redisoo_get (srv ex_start) = ''q''" "redisoo_get_sync (srv ex_start)" "redisoo_get_ttl (srv ex_start) = 0"
  "getKey (server_getJob (srv ex_start)) = None" "returnGetKey (server_getJob (srv ex_start)) = None" "get_pipe (srv ex_start) = 0"
  "pcs ex_start m = W_Idle" "mstime (srv ex_start) = 0"
  "clients (srv ex_start) = [7 \<mapsto> \<lparr>c_argv = [], c_cmd = [], c_db = 0, c_multi = False, c_dirty_exec = False, c_mstate = [], c_close = False,
      backend_state = CLIENT_BACKEND_NORMAL, backend_set_sync_reply = False, backend_del_sync_reply = False,
      querybuf = [], c_reply = []\<rparr>]"
  by (simp_all add: ex_start_def apply_conf_def ex_conf_def createClient_def init_sys_def init_server_def initBackendZeroJobs_def ex_mysql)

lemma ex_start_reachable: "reachable True ex_start" "load (srv ex_start) = 0"
proof -
  have s0: "reachable True (init_sys (\<lambda>_. 0) 16 0)"
    by (rule reachable.init) simp
  have c0: "clients (srv (init_sys (\<lambda>_. 0) 16 0)) = Map.empty"
    by (simp add: init_sys_def init_server_def initBackendZeroJobs_def)
  let ?s1 = "(init_sys (\<lambda>_. 0) 16 0)\<lparr>srv := createClient 7 (srv (init_sys (\<lambda>_. 0) 16 0))\<rparr>"
  have s1: "reachable True ?s1"
    by (rule reachable.step [OF s0, of "Connect 7"]) (simp_all add: c0)
  have "run (Config ex_conf) ?s1 = Some ex_start"
    by (simp add: ex_start_def init_sys_def)
  then show "reachable True ex_start"
    by (intro reachable.step [OF s1, of "Config ex_conf"]) (simp_all add: ex_conf_def isValidRedisooDb_def ex_mysql Mysql_def)
  have "waiting m (init_db (\<lambda>_. 0)) = Map.empty" for m
    by (cases m) (simp_all add: init_db_def dict_map_dictCreate)
  then show "load (srv ex_start) = 0"
    by (simp add: load_def keys_load_def input_load_def ex_start_sel del: waiting.simps)
qed

lemma ex_miss: "live e (init_db hf) key = None"
  by (simp add: live_def init_db_def)

lemma ex_wait_run:
  shows "run (Input 7 [[''get'', ''k'']]) ex_start = Some ex_wait" and "reachable True ex_wait"
    and "clients (srv ex_wait) 7 = Some ((the (clients (srv ex_start) 7))\<lparr>c_cmd := ''get'', c_argv := [''get'', ''k''], backend_state := CLIENT_BACKEND_GET\<rparr>)"
    and "waiting GET_MODE (dbs (srv ex_wait) ! 0) = [''k'' \<mapsto> [7]]"
    and "getKey (server_getJob (srv ex_wait)) = Some ''k''" "get_dbid (server_getJob (srv ex_wait)) = 0" "returnGetKey (server_getJob (srv ex_wait)) = None"
    and "same_conf (srv ex_start) (srv ex_wait)" and "pcs ex_wait m = W_Idle"
proof -
  have w: "waiting GET_MODE (init_db (\<lambda>_. 0)) = Map.empty"
    by (simp add: init_db_def dict_map_dictCreate)
  let ?c = "the (clients (srv ex_start) 7)"
  have c: "clients (srv ex_start) 7 = Some ?c" "backend_state ?c = CLIENT_BACKEND_NORMAL" "\<not> c_multi ?c" "\<not> c_close ?c" "querybuf ?c = []" "c_db ?c = 0"
    by (simp_all add: ex_start_sel)
  have m: "live (client_env (srv ex_start) True) (dbs (srv ex_start) ! c_db ?c) ''k'' = None"
    "\<not> (valFromBackend (server_getJob (srv ex_start)) = None \<and> returnGetKey (server_getJob (srv ex_start)) = Some ''k'')"
    by (simp_all add: ex_start_sel ex_miss)
  have f: "redisoo_db_type (srv ex_start) \<noteq> 0" "redisoo_db_type (srv ex_start) = GRPC \<or> redisoo_get (srv ex_start) \<noteq> []"
    by (simp_all add: ex_start_sel Mysql_def)
  obtain s' where s': "readQueryFromClient 7 [[''get'', ''k'']] (srv ex_start) = Some s'" "same_conf (srv ex_start) s'"
    "clients s' 7 = Some (?c\<lparr>c_cmd := ''get'', c_argv := [''get'', ''k''], backend_state := CLIENT_BACKEND_GET\<rparr>)"
    "waiting GET_MODE (dbs s' ! 0) = [''k'' \<mapsto> [7]]"
    "getKey (server_getJob s') = Some ''k''" "get_dbid (server_getJob s') = 0" "returnGetKey (server_getJob s') = None"
    using get_miss_srv [OF reachable_srv(1) [OF ex_start_reachable(1)] c(1-5) f ex_start_sel(5) m] c(6)
    by (auto simp: ex_start_sel(1,7) w simp del: waiting.simps)
  show r: "run (Input 7 [[''get'', ''k'']]) ex_start = Some ex_wait"
    by (simp add: ex_wait_def s'(1))
  then have e: "ex_wait = ex_start\<lparr>srv := s'\<rparr>"
    by (simp add: s'(1))
  have "safe_input [''get'', ''k'']"
    by (simp add: safe_input_def lookupCommand_get safe_args_def)
  then show "reachable True ex_wait"
    by (intro reachable.step [OF ex_start_reachable(1) _ _ r]) (simp_all add: ex_start_sel ex_start_reachable(2))
  show "clients (srv ex_wait) 7 = Some ((the (clients (srv ex_start) 7))\<lparr>c_cmd := ''get'', c_argv := [''get'', ''k''], backend_state := CLIENT_BACKEND_GET\<rparr>)"
    "waiting GET_MODE (dbs (srv ex_wait) ! 0) = [''k'' \<mapsto> [7]]"
    "getKey (server_getJob (srv ex_wait)) = Some ''k''" "get_dbid (server_getJob (srv ex_wait)) = 0" "returnGetKey (server_getJob (srv ex_wait)) = None"
    "same_conf (srv ex_start) (srv ex_wait)" "pcs ex_wait m = W_Idle"
    using s' by (simp_all add: e ex_start_sel del: waiting.simps)
qed

lemma ex_lib_nonempty: "nonempty_lib ex_lib"
  by (simp add: nonempty_lib_def ex_lib_def)

lemma ex_back_run:
  shows "srv ex_back = (srv ex_wait)\<lparr>server_getJob := (server_getJob (srv ex_wait))\<lparr>returnGetKey := Some ''k'', valFromBackend := Some ''v''\<rparr>,
      get_pipe := 1\<rparr>" and "reachable True ex_back" and "pcs ex_back m = W_Idle"
proof -
  let ?s = "srv ex_wait"
  have f: "redisoo_db_type ?s = Mysql" "redisoo_get ?s = ''q''" "get_pipe ?s = 0" "length (dbs ?s) = 16"
    using ex_wait_run(8) by (simp_all add: same_conf_def ex_start_sel)
  let ?e = "Work GET_MODE ex_lib" and ?j = "(server_getJob ?s)\<lparr>returnGetKey := Some ''k'', valFromBackend := Some ''v''\<rparr>"
  let ?w1 = "ex_wait\<lparr>pcs := (pcs ex_wait)(GET_MODE := W_Key ''k'')\<rparr>"
  let ?w2 = "ex_wait\<lparr>srv := ?s\<lparr>server_getJob := ?j\<rparr>, pcs := (pcs ex_wait)(GET_MODE := W_Done)\<rparr>"
  let ?w3 = "ex_wait\<lparr>srv := ?s\<lparr>server_getJob := ?j, get_pipe := 1\<rparr>, pcs := (pcs ex_wait)(GET_MODE := W_Idle)\<rparr>"
  have 1: "run ?e ex_wait = Some ?w1"
    by (simp add: worker_step_def getJobInWorkingThread_def ex_wait_run f)
  have 2: "run ?e ?w1 = Some ?w2"
    by (simp add: worker_step_def implementGetJob_def f db_get_def open_connection_def ex_lib_def return_get_def ex_wait_run DatabaseType_defs)
  have 3: "run ?e ?w2 = Some ?w3"
    by (simp add: worker_step_def signal_main_def f)
  have b: "ex_back = ?w3"
    unfolding ex_back_def 1 option.sel 2 3 ..
  show "srv ex_back = ?s\<lparr>server_getJob := ?j, get_pipe := 1\<rparr>" "pcs ex_back m = W_Idle"
    using ex_wait_run(9) by (simp_all add: b)
  have e: "enabled ?e st" "True \<longrightarrow> safe_event ?e" for st
    by (simp_all add: ex_lib_nonempty)
  show "reachable True ex_back"
    unfolding b by (rule reachable.step [OF reachable.step [OF reachable.step [OF ex_wait_run(2) e 1] e 2] e 3])
qed

theorem waiting_exact_witness:
  "reachable True ex_wait \<and> waiting GET_MODE (dbs (srv ex_wait) ! 0) ''k'' = Some [7] \<and>
   (\<exists>c. clients (srv ex_wait) 7 = Some c \<and> backend_state c = mode_state GET_MODE \<and> c_db c = 0 \<and> c_argv c ! 1 = ''k'')"
proof -
  have "length (dbs (srv ex_wait)) = 16"
    using ex_wait_run(8) by (simp add: same_conf_def ex_start_sel)
  then show ?thesis
    using conjunct1 [OF waiting_exact [OF ex_wait_run(2), of GET_MODE], rule_format, of 0 "''k''" "[7]"] ex_wait_run(2,4)
    by (auto simp del: waiting.simps)
qed


theorem crash_free_witness: "\<exists>st'. run (Deliver GET_MODE) ex_back = Some st'"
  by (rule crash_free [OF ex_back_run(2)]) (simp_all add: ex_back_run(1))



subsection \<open>Jobs\<close>

text \<open>
  C4. In every reachable state a worker without a job means that no key waits in any database, so
  no request is forgotten; and a job is always for a key that waits, in a database that exists,
  returned under no other key, and if it is a write, for the value that the waiting clients
  want to write.
\<close>

theorem jobs_exact:
  assumes "reachable b st"
  shows "(job_key m (srv st) = None \<longrightarrow> job_ret m (srv st) = None \<and> (\<forall>i < length (dbs (srv st)). waiting m (dbs (srv st) ! i) = Map.empty)) \<and>
    (\<forall>k. job_key m (srv st) = Some k \<longrightarrow> job_ret m (srv st) \<in> {None, Some k} \<and>
      (\<exists>i < length (dbs (srv st)). job_db m (srv st) = int i \<and> waiting m (dbs (srv st) ! i) k \<noteq> None \<and>
        (m = SET_MODE \<longrightarrow> valToBackend (server_setJob (srv st)) \<noteq> None \<and> valToBackend (server_setJob (srv st)) = pending_value (dbs (srv st) ! i) k)))"
proof -
  have s: "slot_ok None m (srv st)"
    by (rule srv_invD(5) [OF reachable_srv(1) [OF assms]])
  have "\<exists>i < length (dbs (srv st)). job_db m (srv st) = int i \<and> waiting m (dbs (srv st) ! i) k \<noteq> None \<and>
      (m = SET_MODE \<longrightarrow> valToBackend (server_setJob (srv st)) \<noteq> None \<and> valToBackend (server_setJob (srv st)) = pending_value (dbs (srv st) ! i) k)"
    if "job_key m (srv st) = Some k" for k
    using s that by (intro exI [of _ "nat (job_db m (srv st))"]) (auto simp: slot_ok_def simp del: waiting.simps job_key.simps job_ret.simps job_db.simps)
  then show ?thesis
    using s by (auto simp: slot_ok_def job_all_null_iff simp del: waiting.simps job_key.simps job_ret.simps job_db.simps)
qed

theorem jobs_exact_witness:
  "job_key GET_MODE (srv ex_wait) = Some ''k'' \<and>
   (\<exists>i < length (dbs (srv ex_wait)). job_db GET_MODE (srv ex_wait) = int i \<and> waiting GET_MODE (dbs (srv ex_wait) ! i) ''k'' \<noteq> None)"
  using conjunct2 [OF jobs_exact [OF ex_wait_run(2), of GET_MODE], rule_format, of "''k''"] ex_wait_run(5)
  by (auto simp del: waiting.simps)

subsection \<open>The keyspace\<close>



subsection \<open>Assertions that fail\<close>



lemma check_live:
  assumes "db_ok (dbs s ! c_db c)" and c: "clients s cid = Some c" and "live (client_env s (is_readonly (c_cmd c))) (dbs s ! c_db c) key = Some ob"
  shows "check_lookup cid key s = Some (s, Some ob)"
proof -
  have "purge (client_env s (is_readonly (c_cmd c))) (dbs s ! c_db c) key = dbs s ! c_db c"
    using assms(3) by (simp add: purge_def live_def split: if_splits)
  then show ?thesis
    using assms by (simp add: check_lookup_def lookupKeyRead_ok update_db_def)
qed

lemma not_get: "c_cmd c = name \<Longrightarrow> name \<noteq> ''get'' \<Longrightarrow> clients s cid = Some c \<Longrightarrow> checkGetCommandForBackendState cid s = Some (s, False)"
  by (simp add: checkGetCommandForBackendState_def)

lemma find_tl: "\<not> P x \<Longrightarrow> find P xs = r \<Longrightarrow> find P (x # xs) = r"
  by simp

lemma lookupCommand_sets:
  "lookupCommand ''set'' = Some \<lparr>cmd_name = ''set'', cmd_proc = CtxProc setCommand, cmd_arity = -3, cmd_readonly = False\<rparr>"
  "lookupCommand ''setex'' = Some \<lparr>cmd_name = ''setex'', cmd_proc = CtxProc setexCommand, cmd_arity = 4, cmd_readonly = False\<rparr>"
  unfolding lookupCommand_def redisCommandTable_def
  by ((rule find_tl, (simp add: tolower_def; fail))+, rule find_hd, simp)+

lemma is_quit_sets: "\<not> is_quit ''set''" "\<not> is_quit ''setex''"
  by (simp_all add: is_quit_def strcasecmp_eq_def tolower_def)

lemma is_readonly_sets: "\<not> is_readonly ''set''" "\<not> is_readonly ''setex''"
  by (simp_all add: is_readonly_def lookupCommand_sets)

lemma isSameKey_eq:
  assumes inv: "srv_inv b None {} s" and c: "clients s cid = Some c"
  shows "\<exists>d. dict_inv d \<and> dict_map d = dict_map (backendSetKeys (dbs s ! c_db c)) \<and>
    isSameKeyWithDifferentValForSet cid s = Some (update_db (c_db c) (\<lambda>db. db\<lparr>backendSetKeys := d\<rparr>) s,
      case pending_value (dbs s ! c_db c) (c_argv c ! 1) of None \<Rightarrow> False | Some v \<Rightarrow> v \<noteq> c_argv c ! 2)"
proof -
  let ?d = "backendSetKeys (dbs s ! c_db c)"
  obtain d f where f: "dictFind ?d (c_argv c ! 1) = (d, f)" by (cases "dictFind ?d (c_argv c ! 1)")
  have "dict_inv ?d"
    using srv_invD(2) [OF inv] srv_invD(3) [OF inv c] by (auto simp: all_dicts_ok_def dicts_ok_def client_ok_def)
  then have d: "dict_inv d" "dict_map d = dict_map ?d" "f = dict_map ?d (c_argv c ! 1)"
    using hd.find_law [of ?d "c_argv c ! 1"] f by auto
  then show ?thesis
    using f c by (auto simp: isSameKeyWithDifferentValForSet_def pending_value_def split: option.splits intro!: exI [of _ d])
qed

lemma set_over_integer_check:
  assumes inv: "srv_inv b None {} s" and "clients s cid = Some c" and "backend_state c = CLIENT_BACKEND_NORMAL" and "\<not> c_multi c"
    and "c_cmd c = ''set''" and "redisoo_db_type s \<noteq> 0" and "redisoo_set s \<noteq> []"
    and "pending_value (dbs s ! c_db c) (c_argv c ! 1) = None"
    and "live (client_env s False) (dbs s ! c_db c) (c_argv c ! 1) = Some (IntStr n)"
  shows "checkNeedToBackendState cid s = None"
proof -
  let ?i = "c_db c"
  obtain d where d: "isSameKeyWithDifferentValForSet cid s = Some (update_db ?i (\<lambda>db. db\<lparr>backendSetKeys := d\<rparr>) s, False)"
    using isSameKey_eq [OF inv assms(2)] assms(8) by auto
  let ?t = "update_db ?i (\<lambda>db. db\<lparr>backendSetKeys := d\<rparr>) s"
  have i: "?i < length (dbs s)" "db_ok (dbs s ! ?i)"
    using srv_invD(1) [OF inv] srv_invD(3) [OF inv assms(2)] by (auto simp: dbs_ok_def client_ok_def)
  have "check_lookup cid (c_argv c ! 1) ?t = Some (?t, Some (IntStr n))"
  proof (rule check_live)
    show "db_ok (dbs ?t ! c_db c)"
      using i by (simp add: db_ok_def)
    show "live (client_env ?t (is_readonly (c_cmd c))) (dbs ?t ! c_db c) (c_argv c ! 1) = Some (IntStr n)"
      using i assms(5,9) live_cong [of "dbs ?t ! ?i" "dbs s ! ?i"] by (simp add: is_readonly_sets client_env_def)
  qed (simp add: assms(2))
  then have "checkSetCommandForBackendState cid s = None"
    using assms(2,5,7) d by (simp add: checkSetCommandForBackendState_def isSetCommnd_def isSameValueInDbForSet_def)
  then show ?thesis
    using assms(2-6) by (simp add: checkNeedToBackendState_def checkGetCommandForBackendState_def)
qed

lemma setex_check:
  assumes inv: "srv_inv b None {} s" and "clients s cid = Some c" and "backend_state c = CLIENT_BACKEND_NORMAL" and "\<not> c_multi c"
    and "c_cmd c = ''setex''" and "redisoo_db_type s \<noteq> 0" and "redisoo_set s \<noteq> []"
    and "pending_value (dbs s ! c_db c) (c_argv c ! 1) = Some (c_argv c ! 2)" and "c_argv c ! 3 \<noteq> c_argv c ! 2"
    and "live (client_env s False) (dbs s ! c_db c) (c_argv c ! 1) = None"
  shows "checkNeedToBackendState cid s = None"
proof -
  let ?i = "c_db c"
  obtain d where d: "dict_inv d" "dict_map d = dict_map (backendSetKeys (dbs s ! ?i))"
    "isSameKeyWithDifferentValForSet cid s = Some (update_db ?i (\<lambda>db. db\<lparr>backendSetKeys := d\<rparr>) s, False)"
    using isSameKey_eq [OF inv assms(2)] assms(8) by auto
  let ?t = "update_db ?i (\<lambda>db. db\<lparr>backendSetKeys := d\<rparr>) s"
  have i: "?i < length (dbs s)" "db_ok (dbs s ! ?i)"
    using srv_invD(1) [OF inv] srv_invD(3) [OF inv assms(2)] by (auto simp: dbs_ok_def client_ok_def)
  let ?db = "purge (client_env s False) (dbs ?t ! ?i) (c_argv c ! 1)"
  have e: "client_env ?t ro = client_env s ro" for ro
    by (simp add: client_env_def)
  have "live (client_env s False) (dbs ?t ! ?i) = live (client_env s False) (dbs s ! ?i)"
    by (rule live_cong) (use i in simp_all)
  moreover have "db_ok (dbs ?t ! ?i)"
    using i by (simp add: db_ok_def)
  ultimately have l: "check_lookup cid (c_argv c ! 1) ?t = Some (update_db ?i (\<lambda>_. ?db) ?t, None)"
    using assms(2,5,10) lookupKeyRead_ok [of "dbs ?t ! ?i" "client_env s False" "c_argv c ! 1"]
    by (simp add: check_lookup_def is_readonly_sets e del: update_db_sel(1))
  let ?u = "update_db ?i (\<lambda>_. ?db) ?t"
  have "checkSetCommandForBackendState cid s = Some (?u, True)"
    using assms(2,5,7) d l by (simp add: checkSetCommandForBackendState_def isSetCommnd_def isSameValueInDbForSet_def)
  then have n: "checkNeedToBackendState cid s = enter_backend SET_MODE (redisoo_set_sync ?u) cid ?u"
    using assms(2-6) by (simp add: checkNeedToBackendState_def checkGetCommandForBackendState_def)
  have b: "backendSetKeys (dbs ?u ! ?i) = d" "clients ?u cid = Some c"
    using i assms(2) purge_simps(1) [of "dbs ?t ! ?i" "client_env s False" "c_argv c ! 1"] by (simp_all add: same_backend_def)
  obtain info where "dict_map d (c_argv c ! 1) = Some info" "setValue info = c_argv c ! 2"
    using assms(8) d(2) by (auto simp: pending_value_def)
  then have "add_set_waiting cr d (c_argv c ! 1) (c_argv c ! 3) ttl cid sync = None" for cr ttl sync
    using hd.find_law [OF d(1), of "c_argv c ! 1"] assms(9) by (auto simp: add_set_waiting_def split: prod.splits)
  then show ?thesis
    unfolding n using b assms(5) by (simp add: enter_backend_def addKeyToBackendKeys_def getValueFromSetCommand_def del: update_db_sel(1))
qed

text \<open>
  C16. A SET of a key that holds a number reads through a pointer that is none: with a statement for
  SET configured, and no write of the key under way, the check before the command takes the
  number in an integer-encoded object for the address of a string.
\<close>

theorem set_over_integer_undefined:
  assumes "reachable b st" and "clients (srv st) cid = Some c" and "backend_state c = CLIENT_BACKEND_NORMAL" and "\<not> c_multi c"
    and "\<not> c_close c" and "querybuf c = []" and "redisoo_db_type (srv st) \<noteq> 0" and "redisoo_set (srv st) \<noteq> []"
    and "pending_value (dbs (srv st) ! c_db c) key = None"
    and "live (client_env (srv st) False) (dbs (srv st) ! c_db c) key = Some (IntStr n)"
  shows "readQueryFromClient cid [[''set'', key, val]] (srv st) = None"
proof -
  let ?u = "update_client cid (\<lambda>_. c\<lparr>c_cmd := ''set'', c_argv := [''set'', key, val]\<rparr>) (srv st)"
  have "checkNeedToBackendState cid ?u = None"
    by (rule set_over_integer_check [OF next_command_inv [OF reachable_srv(1) [OF assms(1)] assms(2,3)], where n = n and c = "c\<lparr>c_cmd := ''set'', c_argv := [''set'', key, val]\<rparr>"])
      (use assms in \<open>simp_all add: client_env_def\<close>)
  then show ?thesis
    using readQueryFromClient_one [OF assms(2,6,3,5,4), of "[''set'', key, val]"] by (simp add: lookupCommand_sets is_quit_sets wrong_arity_def)
qed

text \<open>
  C15. The checks before SETEX and PSETEX compare the time to live, not the value, with the value
  that is being written.  A SETEX whose time to live is spelled as the value of a write that is
  under way therefore goes on to the backend and fails the assertion that the values agree.
\<close>

theorem setex_compares_ttl:
  assumes "reachable b st" and "clients (srv st) cid = Some c" and "backend_state c = CLIENT_BACKEND_NORMAL" and "\<not> c_multi c"
    and "\<not> c_close c" and "querybuf c = []" and "redisoo_db_type (srv st) \<noteq> 0" and "redisoo_set (srv st) \<noteq> []"
    and "pending_value (dbs (srv st) ! c_db c) key = Some seconds" and "val \<noteq> seconds"
    and "live (client_env (srv st) False) (dbs (srv st) ! c_db c) key = None"
  shows "readQueryFromClient cid [[''setex'', key, seconds, val]] (srv st) = None"
proof -
  let ?u = "update_client cid (\<lambda>_. c\<lparr>c_cmd := ''setex'', c_argv := [''setex'', key, seconds, val]\<rparr>) (srv st)"
  have "checkNeedToBackendState cid ?u = None"
    by (rule setex_check [OF next_command_inv [OF reachable_srv(1) [OF assms(1)] assms(2,3)],
          where c = "c\<lparr>c_cmd := ''setex'', c_argv := [''setex'', key, seconds, val]\<rparr>"])
      (use assms in \<open>simp_all add: client_env_def\<close>)
  then show ?thesis
    using readQueryFromClient_one [OF assms(2,6,3,5,4), of "[''setex'', key, seconds, val]"] by (simp add: lookupCommand_sets is_quit_sets wrong_arity_def)
qed

text \<open>
  Two more runs: a client stores a number before a statement for SET is configured; and, with
  such a statement, a client waits for its SET while another connects.
\<close>

definition ex_set_conf :: redisoo_conf where
  "ex_set_conf = ex_conf\<lparr>conf_set := ''u'', conf_set_sync := True\<rparr>"

definition ex_plain :: sys where
  "ex_plain = (init_sys (\<lambda>_. 0) 16 0)\<lparr>srv := createClient 7 (init_server (\<lambda>_. 0) 16 0)\<rparr>"

definition ex_number :: sys where
  "ex_number = the (run (Config ex_set_conf) (the (run (Input 7 [[''set'', ''k'', ''5'']]) ex_plain)))"

definition ex_client :: client where
  "ex_client = \<lparr>c_argv = [], c_cmd = [], c_db = 0, c_multi = False, c_dirty_exec = False, c_mstate = [], c_close = False,
      backend_state = CLIENT_BACKEND_NORMAL, backend_set_sync_reply = False, backend_del_sync_reply = False, querybuf = [], c_reply = []\<rparr>"

lemma ex_plain_sel:
  "dbs (srv ex_plain) = replicate 16 (init_db (\<lambda>_. 0))" "redisoo_db_type (srv ex_plain) = Empty" "redisoo_set (srv ex_plain) = []"
  "clients (srv ex_plain) = [7 \<mapsto> ex_client]"
proof -
  have "parseDbType [] = Empty" by code_simp
  then show "dbs (srv ex_plain) = replicate 16 (init_db (\<lambda>_. 0))" "redisoo_db_type (srv ex_plain) = Empty" "redisoo_set (srv ex_plain) = []"
    "clients (srv ex_plain) = [7 \<mapsto> ex_client]"
    by (simp_all add: ex_plain_def createClient_def init_sys_def init_server_def initBackendZeroJobs_def ex_client_def)
qed

lemma ex_plain_reachable: "reachable b ex_plain" "load (srv ex_plain) = 0"
proof -
  have s0: "reachable b (init_sys (\<lambda>_. 0) 16 0)"
    by (rule reachable.init) simp
  have c0: "clients (srv (init_sys (\<lambda>_. 0) 16 0)) = Map.empty" "srv (init_sys (\<lambda>_. 0) 16 0) = init_server (\<lambda>_. 0) 16 0"
    by (simp_all add: init_sys_def init_server_def initBackendZeroJobs_def)
  show "reachable b ex_plain"
    by (rule reachable.step [OF s0, of "Connect 7"]) (simp_all add: c0(1) ex_plain_def, simp add: c0(2))
  have "waiting m (init_db (\<lambda>_. 0)) = Map.empty" for m
    by (cases m) (simp_all add: init_db_def dict_map_dictCreate)
  then show "load (srv ex_plain) = 0"
    by (simp add: load_def keys_load_def input_load_def ex_plain_sel ex_client_def del: waiting.simps)
qed

lemma ex_five: "tryObjectEncoding (Suc 0) (createStringObject ''5'') = IntStr 5"
  by code_simp

lemma ex_set_five:
  "\<exists>s. readQueryFromClient 7 [[''set'', ''k'', ''5'']] (srv ex_plain) = Some s \<and> live (client_env s ro) (dbs s ! 0) ''k'' = Some (IntStr 5) \<and>
     pending_value (dbs s ! 0) ''k'' = None \<and> length (dbs s) = 16 \<and>
     clients s = [7 \<mapsto> ex_client\<lparr>c_cmd := ''set'', c_reply := [ReplyOk]\<rparr>]"
proof -
  let ?c = "ex_client\<lparr>c_cmd := ''set'', c_argv := [''set'', ''k'', ''5'']\<rparr>" and ?s = "srv ex_plain"
  let ?u = "update_client 7 (\<lambda>_. ?c) ?s"
  let ?x = "\<lparr>cx_env = client_env ?u False, cx_db = init_db (\<lambda>_. 0), cx_cmd = ''set'', cx_argv = [''set'', ''k'', ''5''], cx_out = [],
             cx_dirty = dirty ?s, cx_set_failed = False, cx_del_failed = False\<rparr>"
  have ok: "db_ok (init_db (\<lambda>_. 0))"
    by (simp add: init_db_def db_ok_def)
  have n: "checkNeedToBackendState 7 ?u = Some ?u"
    by (simp add: checkNeedToBackendState_def checkGetCommandForBackendState_def checkSetCommandForBackendState_def
        checkDelCommandForBackendState_def ex_plain_sel ex_client_def)
  obtain x where x: "setCommand ?x = Some x" "cmd_ok ?x x"
    using setCommand_total [of ?x] ok by (auto simp: cmd_total_def)
  have y: "db_dict (cx_db x) ''k'' = Some (IntStr 5)" "db_expires (cx_db x) ''k'' = None" "cx_out x = [ReplyOk]"
    using setGenericCommand_effect [of ?x "IntStr 5" None UNIT_SECONDS 0 OBJ_SET_NO_FLAGS "''k''" ReplyOk ReplyNull] x(1) ok
    by (auto simp: setCommand_def argv_def ex_five set_milliseconds_def OBJ_SET_NO_FLAGS_def is_ll_def LLONG_MIN_def LLONG_MAX_def)
  have cl: "call 7 ?u = Some ((update_client 7 (\<lambda>_. ?c\<lparr>c_reply := [ReplyOk]\<rparr>) (update_db 0 (\<lambda>_. cx_db x) ?u))\<lparr>dirty := cx_dirty x\<rparr>)"
    using x y(3) by (simp add: call_def call_simple_def lookupCommand_sets run_ctx_def ex_plain_sel ex_client_def cmd_ok_def update_client_def)
  have "pending_value (cx_db x) ''k'' = None"
    using x(2) same_backend_waiting [of "init_db (\<lambda>_. 0)" "cx_db x"]
    by (simp add: cmd_ok_def same_waiting_def) (simp add: init_db_def pending_value_def dict_map_dictCreate)
  then show ?thesis
    using readQueryFromClient_one [of ?s 7 ex_client "[''set'', ''k'', ''5'']"] n cl live_after_set [OF y(1,2)]
    by (simp add: lookupCommand_sets is_quit_sets wrong_arity_def ex_plain_sel resetClient_def ex_client_def)
qed

lemma ex_number_run:
  "reachable False ex_number" "live (client_env (srv ex_number) ro) (dbs (srv ex_number) ! 0) ''k'' = Some (IntStr 5)"
  "pending_value (dbs (srv ex_number) ! 0) ''k'' = None" "redisoo_db_type (srv ex_number) = Mysql" "redisoo_set (srv ex_number) = ''u''"
  "clients (srv ex_number) = [7 \<mapsto> ex_client\<lparr>c_cmd := ''set'', c_reply := [ReplyOk]\<rparr>]"
proof -
  obtain s where s: "readQueryFromClient 7 [[''set'', ''k'', ''5'']] (srv ex_plain) = Some s"
    "live (client_env s ro) (dbs s ! 0) ''k'' = Some (IntStr 5)" "pending_value (dbs s ! 0) ''k'' = None"
    "clients s = [7 \<mapsto> ex_client\<lparr>c_cmd := ''set'', c_reply := [ReplyOk]\<rparr>]"
    using ex_set_five by blast
  let ?t = "ex_plain\<lparr>srv := s\<rparr>"
  have r: "run (Input 7 [[''set'', ''k'', ''5'']]) ex_plain = Some ?t" "run (Config ex_set_conf) ?t = Some ex_number"
    by (simp_all add: s(1) ex_number_def)
  have "reachable False ?t"
    by (rule reachable.step [OF ex_plain_reachable(1) _ _ r(1)]) (simp_all add: ex_plain_sel ex_plain_reachable(2))
  then show "reachable False ex_number"
    by (rule reachable.step [OF _ _ _ r(2)]) (simp_all add: ex_set_conf_def ex_conf_def isValidRedisooDb_def ex_mysql Mysql_def)
  have "srv ex_number = apply_conf ex_set_conf s"
    by (simp add: ex_number_def s(1))
  then show "live (client_env (srv ex_number) ro) (dbs (srv ex_number) ! 0) ''k'' = Some (IntStr 5)"
    "pending_value (dbs (srv ex_number) ! 0) ''k'' = None" "redisoo_db_type (srv ex_number) = Mysql" "redisoo_set (srv ex_number) = ''u''"
    "clients (srv ex_number) = [7 \<mapsto> ex_client\<lparr>c_cmd := ''set'', c_reply := [ReplyOk]\<rparr>]"
    using s by (simp_all add: apply_conf_def ex_set_conf_def ex_conf_def ex_mysql client_env_def)
qed

theorem set_over_integer_undefined_witness: "readQueryFromClient 7 [[''set'', ''k'', ''6'']] (srv ex_number) = None"
  by (rule set_over_integer_undefined [OF ex_number_run(1), where c = "ex_client\<lparr>c_cmd := ''set'', c_reply := [ReplyOk]\<rparr>" and n = 5])
    (simp_all add: ex_number_run(2-6), simp_all add: ex_client_def Mysql_def ex_number_run(2,3))

definition ex_two :: sys where
  "ex_two = the (run (Connect 8) (the (run (Input 7 [[''set'', ''k'', ''10'']]) (the (run (Config ex_set_conf) ex_plain)))))"

lemma add_set_waiting_new:
  assumes "dict_inv d" and "dict_room d" and "dict_map d key = None"
  shows "\<exists>d'. add_set_waiting cr d key val ttl cid sync = Some d'"
proof -
  obtain d1 f1 where f: "dictFind d key = (d1, f1)" by (cases "dictFind d key")
  let ?v = "\<lparr>setValue = val, setTtl = ttl, set_clients = []\<rparr>"
  obtain d2 a where a: "dictAdd cr d1 key ?v = (d2, a)" by (cases "dictAdd cr d1 key ?v")
  obtain d3 r3 where f3: "dictFind d2 key = (d3, r3)" by (cases "dictFind d2 key")
  have "f1 = None"
    using hd.find_law [OF assms(1), of key] f assms(3) by auto
  moreover from this have "r3 = Some ?v"
    using hd.find_or_add [OF assms(1,2) _ a f3] f by auto
  ultimately show ?thesis
    by (simp add: add_set_waiting_def f a f3)
qed

lemma dict_room_empty: "dict_inv d \<Longrightarrow> dict_map d = Map.empty \<Longrightarrow> dict_room d"
  by (simp add: dict_room_def dictSize_card)

lemma ex_set_ten:
  assumes s: "s = apply_conf ex_set_conf (srv ex_plain)" and inv: "srv_inv False None {} s"
  shows "\<exists>s'. readQueryFromClient 7 [[''set'', ''k'', ''10'']] s = Some s' \<and> same_conf s s' \<and>
     live (client_env s' False) (dbs s' ! 0) ''k'' = None \<and> pending_value (dbs s' ! 0) ''k'' = Some ''10'' \<and> dom (clients s') = {7}"
proof -
  let ?c = "ex_client\<lparr>c_cmd := ''set'', c_argv := [''set'', ''k'', ''10'']\<rparr>" and ?db = "init_db (\<lambda>_. 0)"
  let ?u = "update_client 7 (\<lambda>_. ?c) s"
  have f: "dbs s = replicate 16 ?db" "clients s = [7 \<mapsto> ex_client]" "redisoo_set s = ''u''" "redisoo_set_sync s" "redisoo_db_type s = Mysql"
    by (simp_all add: s apply_conf_def ex_plain_sel ex_set_conf_def ex_conf_def ex_mysql)
  have k: "pending_value ?db ''k'' = None" "live e (?db\<lparr>backendSetKeys := d\<rparr>) ''k'' = None" "purge e (?db\<lparr>backendSetKeys := d\<rparr>) ''k'' = ?db\<lparr>backendSetKeys := d\<rparr>"
    "db_ok (?db\<lparr>backendSetKeys := d\<rparr>)" for e d
    by (simp_all add: init_db_def dict_map_dictCreate pending_value_def live_def purge_def key_expired_def db_ok_def)
  have "srv_inv False None {} ?u"
    by (rule next_command_inv [OF inv]) (simp_all add: f ex_client_def)
  moreover have "clients ?u 7 = Some ?c"
    by (simp add: f)
  ultimately obtain d where d: "dict_inv d" "dict_map d = dict_map (backendSetKeys ?db)"
    "isSameKeyWithDifferentValForSet 7 ?u = Some (update_db 0 (\<lambda>db. db\<lparr>backendSetKeys := d\<rparr>) ?u, False)"
    using isSameKey_eq [of False ?u 7 ?c] by (auto simp: f k ex_client_def)
  let ?t = "update_db 0 (\<lambda>db. db\<lparr>backendSetKeys := d\<rparr>) ?u"
  have t: "dbs ?t = (replicate 16 ?db)[0 := ?db\<lparr>backendSetKeys := d\<rparr>]"
    by (simp add: f)
  have "check_lookup 7 ''k'' ?t = Some (?t, None)"
    using f by (simp add: check_lookup_def lookupKeyRead_ok k ex_client_def update_db_def)
  then have "checkSetCommandForBackendState 7 ?u = Some (?t, True)"
    using d(3) f by (simp add: checkSetCommandForBackendState_def isSetCommnd_def isSameValueInDbForSet_def ex_client_def)
  then have n: "checkNeedToBackendState 7 ?u = enter_backend SET_MODE True 7 ?t"
    using f by (simp add: checkNeedToBackendState_def checkGetCommandForBackendState_def ex_client_def Mysql_def)
  have "dict_map d = Map.empty"
    using d(2) by (simp add: init_db_def dict_map_dictCreate)
  then obtain d' where d': "add_set_waiting (dict_can_resize s) d ''k'' ''10'' (getTtlForSetCommand ?c) 7 True = Some d'" "dict_room d"
    using add_set_waiting_new [OF d(1) dict_room_empty [OF d(1)], of "''k''" "dict_can_resize s" "''10''" "getTtlForSetCommand ?c" 7 True]
      dict_room_empty [OF d(1)] by auto
  let ?s1 = "update_client 7 (\<lambda>c. c\<lparr>backend_state := CLIENT_BACKEND_SET\<rparr>) ?t"
  let ?s2 = "update_db 0 (\<lambda>db. db\<lparr>backendSetKeys := d'\<rparr>) ?s1"
  have p: "dict_inv d'" "pending_value (?db\<lparr>backendSetKeys := d'\<rparr>) ''k'' = Some ''10''"
    using add_set_waiting_spec(1,2) [OF d(1) d'(2,1)] by simp_all
  have "getTtlForSetCommand (?c\<lparr>backend_state := CLIENT_BACKEND_SET\<rparr>) = getTtlForSetCommand ?c"
    by (simp add: getTtlForSetCommand_def)
  then have a: "addKeyToBackendKeys SET_MODE 7 True ?s1 = Some ?s2"
    using d'(1) f by (simp add: addKeyToBackendKeys_def getValueFromSetCommand_def ex_client_def)
  have "all_dicts_ok ?s2"
    using p(1) by (auto simp: all_dicts_ok_def f dicts_ok_def nth_list_update nth_Cons' init_db_def dict_inv_dictCreate)
  moreover have "job_all_null SET_MODE ?s2" "valToBackend (server_setJob ?s2) = None"
    by (simp_all add: job_all_null_iff s apply_conf_def ex_plain_def createClient_def init_server_def initBackendZeroJobs_def)
  ultimately obtain s3 where s3: "createNewJobIfHasMoreCandidates SET_MODE True ?s2 = Some s3" "clients s3 = clients ?s2" "same_conf ?s2 s3"
    "\<forall>i < length (dbs ?s2). same_keys (dbs ?s2 ! i) (dbs s3 ! i)"
    using createNewJob_spec [of SET_MODE ?s2 None True] by blast
  have s4: "same_keys (?db\<lparr>backendSetKeys := d'\<rparr>) (dbs s3 ! 0)"
    using s3(4) [rule_format, of 0] by (simp add: f)
  have "checkNeedToBackendState 7 ?u = Some s3"
    using a s3(1) by (simp add: n enter_backend_def)
  then have "readQueryFromClient 7 [[''set'', ''k'', ''10'']] s = Some s3"
    using readQueryFromClient_one [of s 7 ex_client "[''set'', ''k'', ''10'']"] s3(2) f
    by (simp add: lookupCommand_sets is_quit_sets wrong_arity_def ex_client_def)
  moreover have "live e (dbs s3 ! 0) ''k'' = None" for e
    using s4 live_cong [of "dbs s3 ! 0" "?db\<lparr>backendSetKeys := d'\<rparr>"] k(2) by (simp add: same_keys_def)
  moreover have "pending_value (dbs s3 ! 0) ''k'' = Some ''10''"
    using s4 p(2) by (simp add: same_keys_def)
  moreover have "same_conf s s3" "dom (clients s3) = {7}"
    using s3(2,3) by (auto simp: same_conf_def f)
  ultimately show ?thesis by blast
qed

lemma ex_two_run:
  "reachable False ex_two" "redisoo_db_type (srv ex_two) = Mysql" "redisoo_set (srv ex_two) = ''u''" "clients (srv ex_two) 8 = Some ex_client"
  "pending_value (dbs (srv ex_two) ! 0) ''k'' = Some ''10''" "live (client_env (srv ex_two) False) (dbs (srv ex_two) ! 0) ''k'' = None"
proof -
  let ?s = "apply_conf ex_set_conf (srv ex_plain)"
  let ?t = "ex_plain\<lparr>srv := ?s\<rparr>"
  have r1: "run (Config ex_set_conf) ex_plain = Some ?t"
    by simp
  have t: "reachable False ?t"
    by (rule reachable.step [OF ex_plain_reachable(1) _ _ r1])
      (simp_all add: ex_set_conf_def ex_conf_def isValidRedisooDb_def ex_mysql Mysql_def)
  obtain s' where s': "readQueryFromClient 7 [[''set'', ''k'', ''10'']] ?s = Some s'" "same_conf ?s s'"
    "live (client_env s' False) (dbs s' ! 0) ''k'' = None" "pending_value (dbs s' ! 0) ''k'' = Some ''10''" "dom (clients s') = {7}"
    using ex_set_ten [OF refl] reachable_srv(1) [OF t] by auto
  let ?t2 = "ex_plain\<lparr>srv := s'\<rparr>"
  have r2: "run (Input 7 [[''set'', ''k'', ''10'']]) ?t = Some ?t2"
    using s'(1) by simp
  have l: "load ?s = load (srv ex_plain)"
    by (simp add: load_def input_load_def apply_conf_def)
  have t2: "reachable False ?t2"
    by (rule reachable.step [OF t _ _ r2]) (simp_all add: l ex_plain_reachable(2), simp add: apply_conf_def ex_plain_sel)
  have 8: "clients s' 8 = None"
    using s'(5) domIff [of 8 "clients s'"] by simp
  have e: "ex_two = ex_plain\<lparr>srv := createClient 8 s'\<rparr>"
    by (simp add: ex_two_def s'(1))
  then have r3: "run (Connect 8) ?t2 = Some ex_two"
    by simp
  show "reachable False ex_two"
    by (rule reachable.step [OF t2 _ _ r3]) (simp_all add: 8)
  show "redisoo_db_type (srv ex_two) = Mysql" "redisoo_set (srv ex_two) = ''u''" "clients (srv ex_two) 8 = Some ex_client"
    "pending_value (dbs (srv ex_two) ! 0) ''k'' = Some ''10''" "live (client_env (srv ex_two) False) (dbs (srv ex_two) ! 0) ''k'' = None"
    using s'(2-4) by (simp_all add: e createClient_def ex_client_def same_conf_def apply_conf_def ex_set_conf_def ex_conf_def ex_mysql client_env_def)
qed

theorem setex_compares_ttl_witness: "readQueryFromClient 8 [[''setex'', ''k'', ''10'', ''x'']] (srv ex_two) = None"
  by (rule setex_compares_ttl [OF ex_two_run(1), where c = ex_client])
    (simp_all add: ex_two_run(2-6), simp_all add: ex_client_def Mysql_def ex_two_run(5,6))

subsection \<open>The pace of the workers\<close>

lemma sleep_loop_bounds:
  "1 \<le> n \<Longrightarrow> n \<le> 2048 \<Longrightarrow>
    (\<forall>t \<in> set (fst (sleep_loop rounds n)). 1 \<le> t \<and> t \<le> 1024) \<and> 1 \<le> snd (sleep_loop rounds n) \<and> snd (sleep_loop rounds n) \<le> 2048"
proof (induction rounds arbitrary: n)
  case (Cons had_job rounds)
  have "1 \<le> snd (worker_sleep had_job n) \<and> snd (worker_sleep had_job n) \<le> 2048 \<and>
      (\<forall>t. fst (worker_sleep had_job n) = Some t \<longrightarrow> 1 \<le> t \<and> t \<le> 1024)"
    using Cons.prems by (auto simp: worker_sleep_def BACKEND_THREAD_MAX_SLEEP_IN_US_def Let_def)
  then show ?case
    using Cons.IH [of "snd (worker_sleep had_job n)"] by (auto simp: Let_def case_prod_unfold split: option.splits)
qed simp

lemma sleep_loop_append:
  "sleep_loop (xs @ ys) n = (let (ts, n) = sleep_loop xs n; (us, n) = sleep_loop ys n in (ts @ us, n))"
  by (induction xs arbitrary: n) (auto simp: Let_def case_prod_unfold split: option.splits)

lemma sleep_loop_idle: "k \<le> 10 \<Longrightarrow> snd (sleep_loop (replicate k False) 1) = 2 ^ k"
proof (induction k)
  case (Suc k)
  then have "(2 :: nat) ^ k \<le> 2 ^ 9"
    by (intro power_increasing) simp_all
  moreover have "replicate (Suc k) False = replicate k False @ [False]"
    by (simp add: replicate_append_same)
  ultimately show ?case
    using Suc by (simp add: sleep_loop_append worker_sleep_def BACKEND_THREAD_MAX_SLEEP_IN_US_def Let_def case_prod_unfold del: replicate_Suc)
qed simp

text \<open>
  C18. However many rounds a worker goes through with and without jobs, it never sleeps for more
  than 1024 microseconds nor for none, so a job is taken up within about a millisecond; the
  counter stays far from overflow; and after a job it starts again at one microsecond and
  doubles with every idle round up to the limit.
\<close>

theorem worker_pace:
  "(\<forall>t \<in> set (fst (sleep_loop rounds 1)). 1 \<le> t \<and> t \<le> BACKEND_THREAD_MAX_SLEEP_IN_US) \<and>
   snd (sleep_loop rounds 1) \<le> 2 * BACKEND_THREAD_MAX_SLEEP_IN_US \<and>
   (k \<le> 10 \<longrightarrow> snd (sleep_loop (rounds @ True # replicate k False) 1) = 2 ^ k)"
proof -
  have "snd (sleep_loop (rounds @ True # replicate k False) 1) = snd (sleep_loop (replicate k False) 1)"
    by (simp add: sleep_loop_append worker_sleep_def Let_def case_prod_unfold)
  then show ?thesis
    using sleep_loop_bounds [of 1 rounds] sleep_loop_idle [of k] by (auto simp: BACKEND_THREAD_MAX_SLEEP_IN_US_def)
qed

theorem worker_pace_witness:
  "snd (sleep_loop ([False, True, False] @ True # replicate 3 False) 1) = 8 \<and> sleep_loop [False, False, True, False] 1 = ([1, 2, 1], 2)"
  using worker_pace [of "[False, True, False]" 3]
  by (simp add: worker_sleep_def BACKEND_THREAD_MAX_SLEEP_IN_US_def Let_def)

end
