(* ===== verification/Protocol_Sys.thy ===== *)
theory Protocol_Sys
  imports Protocol Backend_Props
begin

text \<open>
  The request parser in front of the system: the commands it decodes from the bytes of a client become input
  events of the system model, one by one, until the client waits for the backend or is to be closed.
\<close>

definition client_busy :: "cid \<Rightarrow> sys \<Rightarrow> bool" where
  "client_busy cid st = (case clients (srv st) cid of None \<Rightarrow> True | Some c \<Rightarrow> backend_state c \<noteq> CLIENT_BACKEND_NORMAL \<or> c_close c)"

text \<open>
  \<open>processCommandAndResetClient\<close> resets the client unless it waits for the backend or was told to quit; the former
  is reset when it resumes.
\<close>

definition client_execute :: "cid \<Rightarrow> sds list \<Rightarrow> sys \<Rightarrow> (sys \<times> bool) option" where
  "client_execute cid av st = map_option (\<lambda>st'. (st', \<not> client_busy cid st')) (run (Input cid [av]) st)"

definition sys_sink :: "int \<Rightarrow> nat \<Rightarrow> bool \<Rightarrow> cid \<Rightarrow> sys sink" where
  "sys_sink maxbulk maxbuf gopher cid =
     \<lparr>proto_max_bulk_len = maxbulk, client_max_querybuf_len = maxbuf, gopher_enabled = gopher,
      busy = client_busy cid, execute = client_execute cid\<rparr>"

lemma sys_sink_sel [simp]:
  "proto_max_bulk_len (sys_sink maxbulk maxbuf gopher cid) = maxbulk" "client_max_querybuf_len (sys_sink maxbulk maxbuf gopher cid) = maxbuf"
  "gopher_enabled (sys_sink maxbulk maxbuf gopher cid) = gopher" "busy (sys_sink maxbulk maxbuf gopher cid) = client_busy cid"
  "execute (sys_sink maxbulk maxbuf gopher cid) = client_execute cid"
  by (simp_all add: sys_sink_def)

interpretation syss: command_sink "sys_sink maxbulk maxbuf gopher cid" for maxbulk maxbuf gopher cid
  by unfold_locales (auto simp: client_execute_def)

text \<open>The events of a list of commands.\<close>

definition inputs :: "cid \<Rightarrow> sds list list \<Rightarrow> sys \<Rightarrow> sys option" where
  "inputs cid = run_steps (\<lambda>av. run (Input cid [av]))"

lemma serve_inputs:
  assumes "serve (sys_sink maxbulk maxbuf gopher cid) reqs st = Some (left, st')"
  shows "\<exists>done. reqs = done @ left \<and> inputs cid (commands done) st = Some st' \<and> (left \<noteq> [] \<longrightarrow> client_busy cid st')"
  using assms
proof (induction reqs arbitrary: st)
  case Nil
  then show ?case by (simp add: inputs_def commands_def)
next
  case (Cons q reqs)
  consider (busy) "client_busy cid st" | (empty) "\<not> client_busy cid st" "request_argv q = []"
    | (exec) st1 where "\<not> client_busy cid st" "request_argv q \<noteq> []" "run (Input cid [request_argv q]) st = Some st1"
    using Cons.prems by (auto simp: client_execute_def split: if_splits bind_splits)
  then show ?case
  proof cases
    case busy
    then show ?thesis
      using Cons.prems by (intro exI [of _ "[]"]) (auto simp: inputs_def commands_def)
  next
    case empty
    then obtain d where "reqs = d @ left" "inputs cid (commands d) st = Some st'" "left \<noteq> [] \<longrightarrow> client_busy cid st'"
      using Cons.IH [of st] Cons.prems by auto
    then show ?thesis
      using empty by (intro exI [of _ "q # d"]) (simp add: commands_def)
  next
    case (exec st1)
    then obtain d where "reqs = d @ left" "inputs cid (commands d) st1 = Some st'" "left \<noteq> [] \<longrightarrow> client_busy cid st'"
      using Cons.IH [of st1] Cons.prems by (auto simp: client_execute_def)
    then show ?thesis
      using exec by (intro exI [of _ "q # d"]) (simp add: commands_def inputs_def del: run.simps)
  qed
qed

lemma input_safe:
  assumes r: "reachable True st" and c: "clients (srv st) cid \<noteq> None" and l: "load (srv st) + 1 < 2 ^ 62" and a: "safe_input av"
  shows "\<exists>st'. run (Input cid [av]) st = Some st' \<and> reachable True st' \<and> clients (srv st') cid \<noteq> None \<and> load (srv st') \<le> load (srv st) + 1"
proof -
  let ?s = "srv st" and ?s1 = "update_client cid (\<lambda>c. c\<lparr>querybuf := querybuf c @ [av]\<rparr>) (srv st)"
  obtain c where c: "clients ?s cid = Some c"
    using assms(2) by auto
  have i: "srv_inv True None {} ?s"
    using reachable_inv(1) [OF r] by (simp add: sys_inv_def)
  have i1: "srv_inv True None {} ?s1"
    using input_inv [OF i c, of "[av]"] l a by simp
  have c1: "clients ?s1 cid = Some (c\<lparr>querybuf := querybuf c @ [av]\<rparr>)"
    using c by simp
  have l1: "load ?s1 = load ?s + 1"
    using load_same [of ?s1 ?s cid c "c\<lparr>querybuf := querybuf c @ [av]\<rparr>", OF _ _ srv_invD(4) [OF i] c] c by simp
  from processInputBuffer_spec [OF i1 c1] obtain s' where s': "processInputBuffer cid ?s1 = Some s'" "Backend_Inv.served cid ?s1 s'" "load s' \<le> load ?s1"
    by (auto simp: ensures_def split: option.splits)
  then have run: "run (Input cid [av]) st = Some (st\<lparr>srv := s'\<rparr>)"
    by (simp add: readQueryFromClient_def)
  moreover have "reachable True (st\<lparr>srv := s'\<rparr>)"
    by (rule reachable.step [OF r _ _ run]) (use c l a in simp_all)
  moreover have "clients s' cid \<noteq> None"
    using s'(2) c by (simp add: served_def)
  ultimately show ?thesis
    using l1 s'(3) by (intro exI [of _ "st\<lparr>srv := s'\<rparr>"]) (simp del: run.simps)
qed

lemma serve_safe:
  assumes "reachable True st" and "clients (srv st) cid \<noteq> None" and "load (srv st) + length reqs < 2 ^ 62"
    and "\<forall>q \<in> set reqs. safe_input (request_argv q)"
  shows "\<exists>left st'. serve (sys_sink maxbulk maxbuf gopher cid) reqs st = Some (left, st') \<and> reachable True st' \<and> clients (srv st') cid \<noteq> None"
  using assms
proof (induction reqs arbitrary: st)
  case Nil
  then show ?case by simp
next
  case (Cons q reqs)
  consider (busy) "client_busy cid st" | (empty) "\<not> client_busy cid st" "request_argv q = []" | (exec) "\<not> client_busy cid st" "request_argv q \<noteq> []"
    by blast
  then show ?case
  proof cases
    case busy
    then show ?thesis
      using Cons.prems by simp
  next
    case empty
    then show ?thesis
      using Cons.IH [of st] Cons.prems by simp
  next
    case exec
    obtain st1 where st1: "run (Input cid [request_argv q]) st = Some st1" "reachable True st1" "clients (srv st1) cid \<noteq> None"
        "load (srv st1) \<le> load (srv st) + 1"
      using input_safe [of st cid "request_argv q"] Cons.prems by auto
    then have "serve (sys_sink maxbulk maxbuf gopher cid) (q # reqs) st = serve (sys_sink maxbulk maxbuf gopher cid) reqs st1"
      using exec by (simp add: client_execute_def del: run.simps)
    then show ?thesis
      using Cons.IH [OF st1(2,3)] Cons.prems(3,4) st1(4) by simp
  qed
qed



end
