(* ===== verification/Spec2Isabelle.thy ===== *)
theory Spec2Isabelle
  imports Protocol_Sys
begin

text \<open>
  \<^bold>\<open>A verification development for redisoo\<close>

  redisoo is a Redis server that can sit in front of a database: a key that a client
  reads and that is not in memory is first fetched from the backend, and a \<open>SET\<close> or
  \<open>DEL\<close> is first done in the backend, while the client that asked waits.

  \<^bold>\<open>Theories\<close>

  \<^item> \<open>Prelude\<close>: types, named collections, shared lemmas.
  \<^item> \<open>Dict\<close>: the hash table of \<open>src/src/dict.c\<close>, with its refinement to a map.
\<close>

end
